(* ===== verification/Prelude.thy ===== *)
theory Prelude
  imports Main "HOL-Library.Word" "HOL-Library.Signed_Division" "HOL-Library.AList"
begin

text \<open>
  Shared vocabulary of the development: the machine integers and identifiers the server
  uses, the result type of operations that can abort, the hash tables as association
  lists, counting tables (\<open>++m[k]\<close> on a \<open>std::map\<close>), and the generic lemmas
  the component theories rest on.
\<close>

section \<open>Types\<close>

type_synonym u8 = "8 word"
type_synonym u32 = "32 word"
type_synonym u64 = "64 word"
type_synonym uint160 = "160 word"
type_synonym uint256 = "256 word"

text \<open>
  \<open>std::chrono::milliseconds\<close> is a signed 64-bit count; the durations of a consensus
  round stay far below its range, so it is an \<open>int\<close> here. \<open>NetClock\<close> counts
  seconds in 32 unsigned bits and does wrap, so it keeps its width.
\<close>

type_synonym millis = int
type_synonym net_time = u32
type_synonym net_duration = u32

section \<open>Results\<close>

text \<open>
  A failed \<open>assert\<close> (it aborts a debug build), an exception, and the exhausted fuel of
  a recursion whose depth depends on callbacks are values of one error type.
\<close>

datatype error =
    AssertFailed string
  | Thrown string
  | OutOfFuel

type_synonym 'a res = "error + 'a"

definition rbind :: "'a res \<Rightarrow> ('a \<Rightarrow> 'b res) \<Rightarrow> 'b res" where
  "rbind m k = (case m of Inl e \<Rightarrow> Inl e | Inr x \<Rightarrow> k x)"

definition rassert :: "bool \<Rightarrow> string \<Rightarrow> 'b res \<Rightarrow> 'b res" where
  "rassert c msg k = (if c then k else Inl (AssertFailed msg))"

lemma rbind_simps [simp]:
  "rbind (Inl e) k = Inl e"
  "rbind (Inr x) k = k x"
  by (simp_all add: rbind_def)

lemma rbind_Inr_iff: "rbind m k = Inr y \<longleftrightarrow> (\<exists>x. m = Inr x \<and> k x = Inr y)"
  by (cases m) auto

lemma rbind_InrE:
  assumes "rbind m k = Inr y"
  obtains x where "m = Inr x" "k x = Inr y"
  using assms by (auto simp: rbind_Inr_iff)

lemma rassert_Inr_iff: "rassert c msg k = Inr y \<longleftrightarrow> c \<and> k = Inr y"
  by (simp add: rassert_def)

lemma rassert_True [simp]: "c \<Longrightarrow> rassert c msg k = k"
  by (simp add: rassert_def)

text \<open>A loop over a list whose body may fail stops at the first failure.\<close>

fun rfold :: "('a \<Rightarrow> 's \<Rightarrow> 's res) \<Rightarrow> 'a list \<Rightarrow> 's \<Rightarrow> 's res" where
  "rfold f [] s = Inr s"
| "rfold f (x # xs) s = rbind (f x s) (rfold f xs)"

lemma rfold_invariant:
  assumes "rfold f xs s = Inr t" "P s"
    and "\<And>x s t. x \<in> set xs \<Longrightarrow> P s \<Longrightarrow> f x s = Inr t \<Longrightarrow> P t"
  shows "P t"
  using assms by (induction xs arbitrary: s) (auto simp: rbind_Inr_iff)

lemma rfold_total:
  assumes "P s" and "\<And>x s. x \<in> set xs \<Longrightarrow> P s \<Longrightarrow> \<exists>t. f x s = Inr t \<and> P t"
  shows "\<exists>t. rfold f xs s = Inr t \<and> P t"
  using assms
proof (induction xs arbitrary: s)
  case Nil
  then show ?case by simp
next
  case (Cons x xs)
  then obtain t where t: "f x s = Inr t" "P t" by (meson list.set_intros(1))
  with Cons.IH [of t] Cons.prems(2) show ?case by (auto simp: rbind_def)
qed

text \<open>
  \<open>rok E P m\<close>: the computation ends in a value with \<open>P\<close>, or fails with an error
  of \<open>E\<close>. With no error allowed it is total correctness.
\<close>

definition rok :: "error set \<Rightarrow> ('a \<Rightarrow> bool) \<Rightarrow> 'a res \<Rightarrow> bool" where
  "rok E P m \<longleftrightarrow> (case m of Inl e \<Rightarrow> e \<in> E | Inr x \<Rightarrow> P x)"

lemma rok_simps [simp]:
  "rok E P (Inl e) \<longleftrightarrow> e \<in> E"
  "rok E P (Inr x) \<longleftrightarrow> P x"
  by (simp_all add: rok_def)

lemma rok_total: "rok {} P m \<longleftrightarrow> (\<exists>x. m = Inr x \<and> P x)"
  by (cases m) simp_all

lemma rok_mono: "rok E P m \<Longrightarrow> (\<And>x. P x \<Longrightarrow> Q x) \<Longrightarrow> E \<subseteq> F \<Longrightarrow> rok F Q m"
  by (cases m) auto

lemma rok_bind: "rok E P m \<Longrightarrow> (\<And>x. P x \<Longrightarrow> rok E Q (k x)) \<Longrightarrow> rok E Q (rbind m k)"
  by (cases m) simp_all

lemma rok_assert: "c \<Longrightarrow> rok E P m \<Longrightarrow> rok E P (rassert c msg m)"
  by simp

lemma rok_fold:
  assumes "P s" and "\<And>x s. x \<in> set xs \<Longrightarrow> P s \<Longrightarrow> rok E P (f x s)"
  shows "rok E P (rfold f xs s)"
  using assms by (induction xs arbitrary: s) (auto intro!: rok_bind [where P = P])

section \<open>Hash tables\<close>

text \<open>
  A \<open>hash_map\<close> is an association list with distinct keys; the list order is its
  iteration order. \<open>AList.update\<close> is \<open>m[k] = v\<close>, \<open>AList.delete\<close> is
  \<open>erase\<close>, \<open>map_of\<close> is \<open>find\<close>, and \<open>hm_emplace\<close> is \<open>emplace\<close>, which
  keeps an entry that is already there.
\<close>

type_synonym ('k, 'v) hash_map = "('k \<times> 'v) list"

definition hm_keys :: "('k, 'v) hash_map \<Rightarrow> 'k set" where
  "hm_keys m = fst ` set m"

definition hm_distinct :: "('k, 'v) hash_map \<Rightarrow> bool" where
  "hm_distinct m \<longleftrightarrow> distinct (map fst m)"

definition hm_emplace :: "'k \<Rightarrow> 'v \<Rightarrow> ('k, 'v) hash_map \<Rightarrow> ('k, 'v) hash_map \<times> bool" where
  "hm_emplace k v m = (case map_of m k of Some _ \<Rightarrow> (m, False) | None \<Rightarrow> (m @ [(k, v)], True))"

definition hm_map :: "('v \<Rightarrow> 'w) \<Rightarrow> ('k, 'v) hash_map \<Rightarrow> ('k, 'w) hash_map" where
  "hm_map f m = map (\<lambda>(k, v). (k, f v)) m"

named_theorems hm_simps "rewrite rules of the hash table operations"

lemma map_of_eq_None_hm_keys [hm_simps]: "map_of m k = None \<longleftrightarrow> k \<notin> hm_keys m"
  by (simp add: hm_keys_def map_of_eq_None_iff)

lemma map_of_notin_hm_keys [simp]: "k \<notin> hm_keys m \<Longrightarrow> map_of m k = None"
  by (simp add: map_of_eq_None_hm_keys)

lemma map_of_Some_hm_keys: "map_of m k = Some v \<Longrightarrow> k \<in> hm_keys m"
  by (force simp: hm_keys_def dest: map_of_SomeD)

lemma hm_keys_simps [simp]:
  "hm_keys [] = {}"
  "hm_keys (p # m) = insert (fst p) (hm_keys m)"
  "hm_keys (m @ m') = hm_keys m \<union> hm_keys m'"
  by (auto simp: hm_keys_def)

lemma hm_distinct_simps [simp]:
  "hm_distinct []"
  "hm_distinct (p # m) \<longleftrightarrow> fst p \<notin> hm_keys m \<and> hm_distinct m"
  by (auto simp: hm_distinct_def hm_keys_def)

lemma hm_distinct_append [simp]:
  "hm_distinct (m @ m') \<longleftrightarrow> hm_distinct m \<and> hm_distinct m' \<and> hm_keys m \<inter> hm_keys m' = {}"
  by (auto simp: hm_distinct_def hm_keys_def)

lemma hm_keys_update [simp]: "hm_keys (AList.update k v m) = insert k (hm_keys m)"
  by (induction m) auto

lemma hm_distinct_update [simp]: "hm_distinct m \<Longrightarrow> hm_distinct (AList.update k v m)"
  by (simp add: hm_distinct_def distinct_update)

lemma hm_keys_delete [simp]: "hm_keys (AList.delete k m) = hm_keys m - {k}"
  by (auto simp: hm_keys_def AList.delete_eq image_iff)

lemma hm_distinct_delete [simp]: "hm_distinct m \<Longrightarrow> hm_distinct (AList.delete k m)"
  by (simp add: hm_distinct_def distinct_delete)

lemma hm_keys_map [simp]: "hm_keys (hm_map f m) = hm_keys m"
  by (auto simp: hm_keys_def hm_map_def image_iff split: prod.splits) force+

lemma hm_distinct_map [simp]: "hm_distinct (hm_map f m) \<longleftrightarrow> hm_distinct m"
  by (simp add: hm_distinct_def hm_map_def comp_def case_prod_unfold)

lemma map_of_hm_map [hm_simps]: "map_of (hm_map f m) k = map_option f (map_of m k)"
  by (induction m) (auto simp: hm_map_def)

lemma set_hm_map: "set (hm_map f m) = (\<lambda>(k, v). (k, f v)) ` set m"
  by (simp add: hm_map_def)

lemma hm_emplace_fst_keys [simp]: "hm_keys (fst (hm_emplace k v m)) = insert k (hm_keys m)"
  by (auto simp: hm_emplace_def hm_simps split: option.splits dest: map_of_Some_hm_keys)

lemma hm_emplace_distinct [simp]: "hm_distinct m \<Longrightarrow> hm_distinct (fst (hm_emplace k v m))"
  by (auto simp: hm_emplace_def hm_simps split: option.splits)

lemma hm_emplace_snd: "snd (hm_emplace k v m) \<longleftrightarrow> k \<notin> hm_keys m"
  by (auto simp: hm_emplace_def hm_simps split: option.splits dest: map_of_Some_hm_keys)

lemma hm_emplace_set:
  "set (fst (hm_emplace k v m)) = set m \<union> (if k \<in> hm_keys m then {} else {(k, v)})"
  by (auto simp: hm_emplace_def hm_simps split: option.splits dest: map_of_Some_hm_keys)

lemma hm_distinct_map_of: "hm_distinct m \<Longrightarrow> (k, v) \<in> set m \<longleftrightarrow> map_of m k = Some v"
  by (simp add: hm_distinct_def)

lemma set_hm_update:
  "hm_distinct m \<Longrightarrow> set (AList.update k v m) = {(k, v)} \<union> {p \<in> set m. fst p \<noteq> k}"
  by (induction m) (auto simp: hm_keys_def image_iff)

section \<open>Counting tables\<close>

text \<open>
  \<open>++m[k]\<close> on an ordered \<open>std::map\<close> from keys to counts: the entry is created at
  zero when missing, and the table stays sorted by key, which is the order the code
  walks it in.
\<close>

fun count_inc :: "'k::linorder \<Rightarrow> ('k \<times> int) list \<Rightarrow> ('k \<times> int) list" where
  "count_inc k [] = [(k, 1)]"
| "count_inc k ((k', n) # m) =
     (if k < k' then (k, 1) # (k', n) # m
      else if k = k' then (k', n + 1) # m
      else (k', n) # count_inc k m)"

definition count_at :: "('k \<times> int) list \<Rightarrow> 'k \<Rightarrow> int" where
  "count_at m k = (case map_of m k of None \<Rightarrow> 0 | Some n \<Rightarrow> n)"

definition count_wf :: "('k::linorder \<times> int) list \<Rightarrow> bool" where
  "count_wf m \<longleftrightarrow> sorted (map fst m) \<and> distinct (map fst m)"

lemma fst_set_count_inc: "fst ` set (count_inc k m) = insert k (fst ` set m)"
  by (induction k m rule: count_inc.induct) auto

lemma count_wf_inc [simp]: "count_wf m \<Longrightarrow> count_wf (count_inc k m)"
proof (induction k m rule: count_inc.induct)
  case (2 k k' n m)
  then show ?case
    by (auto simp: count_wf_def fst_set_count_inc)
qed (simp add: count_wf_def)

lemma count_at_inc:
  "count_wf m \<Longrightarrow> count_at (count_inc k m) j = count_at m j + (if j = k then 1 else 0)"
proof (induction k m rule: count_inc.induct)
  case (2 k k' n m)
  have "k < k' \<Longrightarrow> k \<notin> fst ` set ((k', n) # m)"
    using 2(2) by (force simp: count_wf_def)
  then have "k < k' \<Longrightarrow> map_of ((k', n) # m) k = None"
    by (metis map_of_eq_None_iff)
  then show ?case
    using 2 by (auto simp: count_at_def count_wf_def split: option.splits)
qed (simp add: count_at_def)

lemma count_wf_Nil [simp]: "count_wf []"
  by (simp add: count_wf_def)

lemma count_at_Nil [simp]: "count_at [] k = 0"
  by (simp add: count_at_def)

lemma count_at_in_set: "count_wf m \<Longrightarrow> (k, n) \<in> set m \<Longrightarrow> count_at m k = n"
  by (simp add: count_at_def count_wf_def)

section \<open>Ordered maps\<close>

text \<open>
  A \<open>std::map\<close> is the list of its entries in key order, which is the order of its
  iterators. \<open>om_insert\<close> is \<open>m.insert (k, v)\<close>, which leaves an existing entry
  alone; \<open>om_put\<close> is \<open>m[k] = v\<close>.
\<close>

type_synonym ('k, 'v) ord_map = "('k \<times> 'v) list"

fun om_insert :: "'k::linorder \<Rightarrow> 'v \<Rightarrow> ('k, 'v) ord_map \<Rightarrow> ('k, 'v) ord_map" where
  "om_insert k v [] = [(k, v)]"
| "om_insert k v ((k', v') # m) =
     (if k < k' then (k, v) # (k', v') # m
      else if k = k' then (k', v') # m
      else (k', v') # om_insert k v m)"

fun om_put :: "'k::linorder \<Rightarrow> 'v \<Rightarrow> ('k, 'v) ord_map \<Rightarrow> ('k, 'v) ord_map" where
  "om_put k v [] = [(k, v)]"
| "om_put k v ((k', v') # m) =
     (if k < k' then (k, v) # (k', v') # m
      else if k = k' then (k, v) # m
      else (k', v') # om_put k v m)"

definition om_wf :: "('k::linorder, 'v) ord_map \<Rightarrow> bool" where
  "om_wf m \<longleftrightarrow> sorted (map fst m) \<and> distinct (map fst m)"

lemma om_wf_Nil [simp]: "om_wf []"
  by (simp add: om_wf_def)

lemma om_keys_insert: "fst ` set (om_insert k v m) = insert k (fst ` set m)"
  by (induction k v m rule: om_insert.induct) auto

lemma om_keys_put: "fst ` set (om_put k v m) = insert k (fst ` set m)"
  by (induction k v m rule: om_put.induct) auto

lemma om_wf_insert [simp]: "om_wf m \<Longrightarrow> om_wf (om_insert k v m)"
proof (induction k v m rule: om_insert.induct)
  case (2 k v k' v' m)
  then show ?case by (auto simp: om_wf_def om_keys_insert)
qed (simp add: om_wf_def)

lemma om_wf_put [simp]: "om_wf m \<Longrightarrow> om_wf (om_put k v m)"
proof (induction k v m rule: om_put.induct)
  case (2 k v k' v' m)
  then show ?case by (auto simp: om_wf_def om_keys_put)
qed (simp add: om_wf_def)

lemma om_below: "om_wf ((k', v') # m) \<Longrightarrow> k < k' \<Longrightarrow> map_of ((k', v') # m) k = None"
  by (force simp: om_wf_def map_of_eq_None_iff)

lemma map_of_om_insert:
  "om_wf m \<Longrightarrow> map_of (om_insert k v m) = (if map_of m k = None then (map_of m)(k \<mapsto> v) else map_of m)"
proof (induction k v m rule: om_insert.induct)
  case (2 k v k' v' m)
  then show ?case
    using om_below [OF 2(2), of k] by (auto simp: om_wf_def fun_eq_iff)
qed auto

lemma map_of_om_put: "om_wf m \<Longrightarrow> map_of (om_put k v m) = (map_of m)(k \<mapsto> v)"
proof (induction k v m rule: om_put.induct)
  case (2 k v k' v' m)
  then show ?case by (auto simp: om_wf_def fun_eq_iff)
qed auto

section \<open>Arithmetic\<close>

text \<open>
  C++ integer division truncates towards zero. On operands of the signs the model meets it
  is the division of the integers.
\<close>

lemma sdiv_nonneg: "0 \<le> (a::int) \<Longrightarrow> 0 < b \<Longrightarrow> a sdiv b = a div b"
  by (cases "a = 0") (simp_all add: signed_divide_int_def)

lemma int_le_div_iff: "0 < (n::int) \<Longrightarrow> k \<le> w div n \<longleftrightarrow> k * n \<le> w"
proof
  assume n: "0 < n" and "k \<le> w div n"
  then have "k * n \<le> w div n * n" by simp
  also have "\<dots> \<le> w" using n by (simp add: minus_mod_eq_div_mult [symmetric])
  finally show "k * n \<le> w" .
next
  assume n: "0 < n" and "k * n \<le> w"
  then show "k \<le> w div n" using zdiv_mono1 [of "k * n" w n] by simp
qed

lemma count_list_filter: "length (filter (\<lambda>x. f x = y) xs) = count_list (map f xs) y"
  by (induction xs) auto

end
