(* ===== verification/LedgerTiming.thy ===== *)
theory LedgerTiming
  imports Prelude
begin

text \<open>
  The protocol parameters and the pure timing decisions of \<open>consensus/LedgerTiming.h\<close>
  and \<open>consensus/LedgerTiming.cpp\<close>: the close time resolution of the next ledger, the
  rounding of close times, when an open ledger closes, and when a position has reached
  consensus. Log output is not modelled.
\<close>

section \<open>Protocol parameters\<close>

definition minimumConsensusPercentage :: nat where
  "minimumConsensusPercentage = 80"

definition ledgerPossibleTimeResolutions :: "net_duration list" where
  "ledgerPossibleTimeResolutions = [10, 20, 30, 60, 90, 120]"

definition ledgerDefaultTimeResolution :: net_duration where
  "ledgerDefaultTimeResolution = ledgerPossibleTimeResolutions ! 2"

definition increaseLedgerTimeResolutionEvery :: u32 where
  "increaseLedgerTimeResolutionEvery = 8"

definition decreaseLedgerTimeResolutionEvery :: u32 where
  "decreaseLedgerTimeResolutionEvery = 1"

text \<open>The durations below are in milliseconds unless they are compared as seconds.\<close>

definition LEDGER_IDLE_INTERVAL :: int where
  "LEDGER_IDLE_INTERVAL = 300"

definition LEDGER_MIN_CONSENSUS :: millis where
  "LEDGER_MIN_CONSENSUS = 1950"

definition LEDGER_MIN_CLOSE :: millis where
  "LEDGER_MIN_CLOSE = 2000"

definition PROPOSE_FRESHNESS :: u32 where
  "PROPOSE_FRESHNESS = 20"

definition PROPOSE_INTERVAL :: u32 where
  "PROPOSE_INTERVAL = 12"

definition AV_INIT_CONSENSUS_PCT :: int where
  "AV_INIT_CONSENSUS_PCT = 50"

definition AV_MID_CONSENSUS_TIME :: int where
  "AV_MID_CONSENSUS_TIME = 50"

definition AV_MID_CONSENSUS_PCT :: int where
  "AV_MID_CONSENSUS_PCT = 65"

definition AV_LATE_CONSENSUS_TIME :: int where
  "AV_LATE_CONSENSUS_TIME = 85"

definition AV_LATE_CONSENSUS_PCT :: int where
  "AV_LATE_CONSENSUS_PCT = 70"

definition AV_STUCK_CONSENSUS_TIME :: int where
  "AV_STUCK_CONSENSUS_TIME = 200"

definition AV_STUCK_CONSENSUS_PCT :: int where
  "AV_STUCK_CONSENSUS_PCT = 95"

definition AV_CT_CONSENSUS_PCT :: int where
  "AV_CT_CONSENSUS_PCT = 75"

definition AV_MIN_CONSENSUS_TIME :: millis where
  "AV_MIN_CONSENSUS_TIME = 5000"

lemmas av_params =
  AV_INIT_CONSENSUS_PCT_def AV_MID_CONSENSUS_TIME_def AV_MID_CONSENSUS_PCT_def
  AV_LATE_CONSENSUS_TIME_def AV_LATE_CONSENSUS_PCT_def AV_STUCK_CONSENSUS_TIME_def
  AV_STUCK_CONSENSUS_PCT_def AV_CT_CONSENSUS_PCT_def AV_MIN_CONSENSUS_TIME_def

section \<open>Close time resolution\<close>

text \<open>\<open>std::find\<close> over an array: the position of the first match.\<close>

fun position_of :: "'a \<Rightarrow> 'a list \<Rightarrow> nat option" where
  "position_of x [] = None"
| "position_of x (y # ys) = (if x = y then Some 0 else map_option Suc (position_of x ys))"

text \<open>
  The asserts of the function, checked where it is called; the function itself follows the
  code past them, with its \<open>precaution\<close> branch.
\<close>

definition getNextLedgerTimeResolution_asserts :: "net_duration \<Rightarrow> u32 \<Rightarrow> bool" where
  "getNextLedgerTimeResolution_asserts previousResolution ledgerSeq \<longleftrightarrow>
     ledgerSeq \<noteq> 0 \<and> position_of previousResolution ledgerPossibleTimeResolutions \<noteq> None"

definition getNextLedgerTimeResolution :: "net_duration \<Rightarrow> bool \<Rightarrow> u32 \<Rightarrow> net_duration" where
  "getNextLedgerTimeResolution previousResolution previousAgree ledgerSeq =
     (case position_of previousResolution ledgerPossibleTimeResolutions of
        None \<Rightarrow> previousResolution
      | Some i \<Rightarrow>
          if \<not> previousAgree \<and> ledgerSeq mod decreaseLedgerTimeResolutionEvery = 0
             \<and> Suc i \<noteq> length ledgerPossibleTimeResolutions
          then ledgerPossibleTimeResolutions ! Suc i
          else if previousAgree \<and> ledgerSeq mod increaseLedgerTimeResolutionEvery = 0 \<and> i \<noteq> 0
          then ledgerPossibleTimeResolutions ! (i - 1)
          else previousResolution)"

section \<open>Close times\<close>

text \<open>
  \<open>NetClock\<close> arithmetic is 32-bit unsigned; \<open>time_point{}\<close>, zero, means no close
  time. \<open>priorCloseTime + 1s\<close> is computed in 64 bits and cut back to 32 bits by
  \<open>std::max<time_point>\<close>, which is addition of words.
\<close>

definition roundCloseTime :: "net_time \<Rightarrow> net_duration \<Rightarrow> net_time" where
  "roundCloseTime closeTime closeResolution =
     (if closeTime = 0 then closeTime
      else let t = closeTime + closeResolution div 2 in t - t mod closeResolution)"

definition effCloseTime :: "net_time \<Rightarrow> net_duration \<Rightarrow> net_time \<Rightarrow> net_time" where
  "effCloseTime closeTime resolution priorCloseTime =
     (if closeTime = 0 then closeTime
      else max (roundCloseTime closeTime resolution) (priorCloseTime + 1))"

section \<open>Closing the open ledger\<close>

definition shouldCloseLedger ::
  "bool \<Rightarrow> nat \<Rightarrow> nat \<Rightarrow> nat \<Rightarrow> millis \<Rightarrow> millis \<Rightarrow> millis \<Rightarrow> int \<Rightarrow> bool" where
  "shouldCloseLedger anyTransactions prevProposers proposersClosed proposersValidated
     prevRoundTime timeSincePrevClose openTime idleInterval =
     (if prevRoundTime < -1000 \<or> prevRoundTime > 600000 \<or> timeSincePrevClose > 600000 then True
      else if \<not> anyTransactions then
        (if timeSincePrevClose \<ge> idleInterval * 1000 then True
         else proposersClosed > prevProposers div 2)
      else if proposersClosed + proposersValidated > prevProposers div 2 then True
      else if openTime < LEDGER_MIN_CLOSE then False
      else if openTime < prevRoundTime sdiv 2 then False
      else True)"

section \<open>Consensus thresholds\<close>

definition checkConsensusReached :: "nat \<Rightarrow> nat \<Rightarrow> bool \<Rightarrow> bool" where
  "checkConsensusReached agreeing ntotal count_self =
     (if ntotal = 0 then True
      else let agreeing' = (if count_self then agreeing + 1 else agreeing);
               total' = (if count_self then ntotal + 1 else ntotal)
           in (agreeing' * 100) div total' > minimumConsensusPercentage)"

datatype consensus_state = No | MovedOn | Yes

definition checkConsensus ::
  "nat \<Rightarrow> nat \<Rightarrow> nat \<Rightarrow> nat \<Rightarrow> millis \<Rightarrow> millis \<Rightarrow> bool \<Rightarrow> consensus_state" where
  "checkConsensus prevProposers currentProposers currentAgree currentFinished
     previousAgreeTime currentAgreeTime proposing =
     (if currentAgreeTime \<le> LEDGER_MIN_CONSENSUS then No
      else if currentProposers < prevProposers * 3 div 4
              \<and> currentAgreeTime < previousAgreeTime + LEDGER_MIN_CONSENSUS then No
      else if checkConsensusReached currentAgree currentProposers proposing then Yes
      else if checkConsensusReached currentFinished currentProposers False then MovedOn
      else No)"

section \<open>Facts used by the consensus engine\<close>

lemma checkConsensusReached_iff:
  "checkConsensusReached a n False \<longleftrightarrow> n = 0 \<or> 81 * n \<le> 100 * a"
  "checkConsensusReached a n True \<longleftrightarrow> n = 0 \<or> 81 * (n + 1) \<le> 100 * (a + 1)"
proof -
  have *: "80 < (x * 100) div t \<longleftrightarrow> 81 * t \<le> 100 * x" if "0 < t" for x t :: nat
  proof -
    have "80 < (x * 100) div t \<longleftrightarrow> 81 \<le> (x * 100) div t" by linarith
    also have "\<dots> \<longleftrightarrow> 81 * t \<le> x * 100"
      using that by (simp add: less_eq_div_iff_mult_less_eq)
    finally show ?thesis by (simp add: mult.commute)
  qed
  show "checkConsensusReached a n False \<longleftrightarrow> n = 0 \<or> 81 * n \<le> 100 * a"
    by (auto simp: checkConsensusReached_def minimumConsensusPercentage_def *)
  show "checkConsensusReached a n True \<longleftrightarrow> n = 0 \<or> 81 * (n + 1) \<le> 100 * (a + 1)"
    using * [of "n + 1" "a + 1"]
    by (auto simp: checkConsensusReached_def minimumConsensusPercentage_def Let_def)
qed

section \<open>Properties\<close>

lemma nth_possible_resolutions:
  "i < 6 \<Longrightarrow> position_of (ledgerPossibleTimeResolutions ! i) ledgerPossibleTimeResolutions = Some i"
proof -
  assume "i < 6"
  then consider "i = 0" | "i = 1" | "i = 2" | "i = 3" | "i = 4" | "i = 5" by linarith
  then show ?thesis
    by cases (simp_all add: ledgerPossibleTimeResolutions_def)
qed

lemma position_of_possible_less:
  "position_of r ledgerPossibleTimeResolutions = Some i \<Longrightarrow>
     i < 6 \<and> r = ledgerPossibleTimeResolutions ! i"
  by (auto simp: ledgerPossibleTimeResolutions_def split: if_splits)

lemma seq_mod_eight: "(s::u32) mod increaseLedgerTimeResolutionEvery = 0 \<longleftrightarrow> unat s mod 8 = 0"
proof -
  have "unat (s mod 8) = unat s mod 8"
    by (simp add: unat_mod_distrib)
  then show ?thesis
    by (metis increaseLedgerTimeResolutionEvery_def unat_eq_zero)
qed

text \<open>
  C20: The next close time resolution is the neighbouring bin. When the last close time was
  disputed the resolution moves one bin coarser, until the coarsest; when it was agreed and
  the new sequence number is a multiple of eight it moves one bin finer, until the finest;
  otherwise it stays. So the result is always one of the possible resolutions.
\<close>

theorem next_resolution_bin:
  assumes "position_of r ledgerPossibleTimeResolutions = Some i"
  shows "position_of (getNextLedgerTimeResolution r agree seq) ledgerPossibleTimeResolutions =
           Some (if \<not> agree then min 5 (Suc i) else if unat seq mod 8 = 0 then i - 1 else i)"
proof -
  have i: "i < 6" and r: "r = ledgerPossibleTimeResolutions ! i"
    using position_of_possible_less [OF assms] by auto
  have dec: "seq mod decreaseLedgerTimeResolutionEvery = 0"
    by (simp add: decreaseLedgerTimeResolutionEvery_def)
  have len: "length ledgerPossibleTimeResolutions = 6"
    by (simp add: ledgerPossibleTimeResolutions_def)
  have "getNextLedgerTimeResolution r agree seq = ledgerPossibleTimeResolutions !
          (if \<not> agree then min 5 (Suc i) else if unat seq mod 8 = 0 then i - 1 else i)"
  proof (cases agree)
    case True
    then show ?thesis
      using assms by (auto simp: getNextLedgerTimeResolution_def seq_mod_eight r)
  next
    case False
    have "min 5 (Suc i) = (if Suc i \<noteq> 6 then Suc i else i)"
      using i by auto
    then show ?thesis
      using assms False by (auto simp: getNextLedgerTimeResolution_def dec len r)
  qed
  then show ?thesis
    using i by (simp add: nth_possible_resolutions)
qed

theorem next_resolution_bin_witness:
  "position_of 30 ledgerPossibleTimeResolutions = Some 2 \<and>
   position_of (getNextLedgerTimeResolution 30 False 7) ledgerPossibleTimeResolutions = Some 3"
proof -
  have h: "position_of 30 ledgerPossibleTimeResolutions = Some 2"
    by (simp add: ledgerPossibleTimeResolutions_def)
  show ?thesis using h next_resolution_bin [OF h, of False 7] by simp
qed

lemma unat_roundCloseTime:
  assumes "t \<noteq> 0" "r \<noteq> 0" "unat t + unat r div 2 < 2 ^ 32"
  shows "unat (roundCloseTime t r) = (unat t + unat r div 2) div unat r * unat r"
proof -
  have s: "unat (t + r div 2) = unat t + unat r div 2"
    using assms(3) by (subst unat_add_lem [THEN iffD1]) (simp_all add: unat_div_distrib)
  have "unat ((t + r div 2) - (t + r div 2) mod r)
        = unat (t + r div 2) - unat (t + r div 2) mod unat r"
    by (simp add: unat_sub_if' unat_mod_distrib)
  then show ?thesis
    using assms(1) by (simp add: roundCloseTime_def Let_def s minus_mod_eq_div_mult)
qed

lemma possible_resolution_even:
  "position_of r ledgerPossibleTimeResolutions = Some i \<Longrightarrow> 10 \<le> unat r \<and> unat r mod 2 = 0 \<and> unat r \<le> 120"
  by (auto simp: ledgerPossibleTimeResolutions_def split: if_splits)

text \<open>
  C19: the effective close time. With one of the possible resolutions and a close time that
  is not within half a resolution of the end of the 32-bit clock, the rounded close time is
  the multiple of the resolution nearest to the close time, with ties upwards; the
  effective close time is that one unless it is not after the close time of the prior
  ledger, and then it is one second later than that.
\<close>

theorem effective_close_time:
  assumes "position_of r ledgerPossibleTimeResolutions = Some i" "t \<noteq> 0"
    and "unat t + unat r div 2 < 2 ^ 32" "unat prior + 1 < 2 ^ 32"
  shows "unat (roundCloseTime t r) mod unat r = 0 \<and>
    unat (roundCloseTime t r) \<le> unat t + unat r div 2 \<and>
    unat t < unat (roundCloseTime t r) + unat r div 2 \<and>
    unat (effCloseTime t r prior) = max (unat (roundCloseTime t r)) (unat prior + 1)"
proof -
  note r = possible_resolution_even [OF assms(1)]
  define R where "R = unat (roundCloseTime t r)"
  have "r \<noteq> 0" using r by auto
  from unat_roundCloseTime [OF assms(2) this assms(3)]
  have R: "R = (unat t + unat r div 2) div unat r * unat r" by (simp only: R_def)
  have e: "(unat t + unat r div 2) mod unat r + R = unat t + unat r div 2"
    unfolding R by simp
  have "(unat t + unat r div 2) mod unat r < unat r" using r by simp
  moreover have "unat r = unat r div 2 + unat r div 2" using r by presburger
  ultimately have b: "R \<le> unat t + unat r div 2" "unat t < R + unat r div 2" using e by linarith+
  have "unat (prior + 1) = unat prior + 1"
    using assms(4) by (subst unat_add_lem [THEN iffD1]) simp_all
  then have "unat (effCloseTime t r prior) = max R (unat prior + 1)"
    using assms(2) by (simp add: effCloseTime_def R_def max_def word_le_nat_alt)
  with b R show ?thesis unfolding R_def [symmetric] by simp
qed

theorem effective_close_time_witness:
  "unat (roundCloseTime 1015 30) mod unat (30 :: net_duration) = 0 \<and>
   unat (effCloseTime 1015 30 1040) = max (unat (roundCloseTime 1015 30)) 1041"
proof -
  have "position_of 30 ledgerPossibleTimeResolutions = Some 2"
    by (simp add: ledgerPossibleTimeResolutions_def)
  from effective_close_time [OF this, of 1015 1040] show ?thesis by simp
qed

end
