(* ===== verification/DisputedTx.thy ===== *)
theory DisputedTx
  imports LedgerTiming
begin

text \<open>
  A transaction in dispute during a consensus round (\<open>consensus/DisputedTx.h\<close>): the
  votes of our peers, their running tallies, our own vote, and how that vote follows the
  peers as the round goes on. The debug JSON is not modelled.
\<close>

record 'x disputed_tx =
  dt_yays :: int
  dt_nays :: int
  dt_ourVote :: bool
  dt_tx :: 'x
  dt_votes :: "(uint160, bool) hash_map"

definition makeDisputedTx :: "'x \<Rightarrow> bool \<Rightarrow> 'x disputed_tx" where
  "makeDisputedTx tx ourVote =
     \<lparr>dt_yays = 0, dt_nays = 0, dt_ourVote = ourVote, dt_tx = tx, dt_votes = []\<rparr>"

definition setOurVote :: "bool \<Rightarrow> 'x disputed_tx \<Rightarrow> 'x disputed_tx" where
  "setOurVote v d = d\<lparr>dt_ourVote := v\<rparr>"

definition setVote :: "uint160 \<Rightarrow> bool \<Rightarrow> 'x disputed_tx \<Rightarrow> 'x disputed_tx" where
  "setVote peer votesYes d =
     (case map_of (dt_votes d) peer of
        None \<Rightarrow>
          (let d' = d\<lparr>dt_votes := dt_votes d @ [(peer, votesYes)]\<rparr>
           in if votesYes then d'\<lparr>dt_yays := dt_yays d + 1\<rparr>
              else d'\<lparr>dt_nays := dt_nays d + 1\<rparr>)
      | Some old \<Rightarrow>
          if votesYes \<and> \<not> old
          then d\<lparr>dt_nays := dt_nays d - 1, dt_yays := dt_yays d + 1,
                 dt_votes := AList.update peer True (dt_votes d)\<rparr>
          else if \<not> votesYes \<and> old
          then d\<lparr>dt_nays := dt_nays d + 1, dt_yays := dt_yays d - 1,
                 dt_votes := AList.update peer False (dt_votes d)\<rparr>
          else d)"

definition unVote :: "uint160 \<Rightarrow> 'x disputed_tx \<Rightarrow> 'x disputed_tx" where
  "unVote peer d =
     (case map_of (dt_votes d) peer of
        None \<Rightarrow> d
      | Some old \<Rightarrow>
          (let d' = (if old then d\<lparr>dt_yays := dt_yays d - 1\<rparr> else d\<lparr>dt_nays := dt_nays d - 1\<rparr>)
           in d'\<lparr>dt_votes := AList.delete peer (dt_votes d)\<rparr>))"

text \<open>The threshold a proposing node needs to vote yes, by progress through the round.\<close>

definition avalancheThreshold :: "int \<Rightarrow> int" where
  "avalancheThreshold percentTime =
     (if percentTime < AV_MID_CONSENSUS_TIME then AV_INIT_CONSENSUS_PCT
      else if percentTime < AV_LATE_CONSENSUS_TIME then AV_MID_CONSENSUS_PCT
      else if percentTime < AV_STUCK_CONSENSUS_TIME then AV_LATE_CONSENSUS_PCT
      else AV_STUCK_CONSENSUS_PCT)"

definition voteWeight :: "'x disputed_tx \<Rightarrow> int" where
  "voteWeight d =
     (dt_yays d * 100 + (if dt_ourVote d then 100 else 0)) sdiv (dt_nays d + dt_yays d + 1)"

definition newVote :: "int \<Rightarrow> bool \<Rightarrow> 'x disputed_tx \<Rightarrow> bool" where
  "newVote percentTime proposing d =
     (if proposing then voteWeight d > avalancheThreshold percentTime
      else dt_yays d > dt_nays d)"

definition updateVote :: "int \<Rightarrow> bool \<Rightarrow> 'x disputed_tx \<Rightarrow> 'x disputed_tx \<times> bool" where
  "updateVote percentTime proposing d =
     (if dt_ourVote d \<and> dt_nays d = 0 then (d, False)
      else if \<not> dt_ourVote d \<and> dt_yays d = 0 then (d, False)
      else let newPosition = newVote percentTime proposing d
           in if newPosition = dt_ourVote d then (d, False)
              else (d\<lparr>dt_ourVote := newPosition\<rparr>, True))"

section \<open>Tallies\<close>

text \<open>The tallies count the recorded votes, and each peer has at most one.\<close>

definition dispute_wf :: "'x disputed_tx \<Rightarrow> bool" where
  "dispute_wf d \<longleftrightarrow>
     hm_distinct (dt_votes d) \<and>
     dt_yays d = int (length (filter snd (dt_votes d))) \<and>
     dt_nays d = int (length (filter (\<lambda>p. \<not> snd p) (dt_votes d)))"

lemma length_filter_update:
  assumes "map_of m k = Some v" "hm_distinct m"
  shows "int (length (filter P (AList.update k w m))) =
           int (length (filter P m)) - (if P (k, v) then 1 else 0) + (if P (k, w) then 1 else 0)"
  using assms
proof (induction m)
  case (Cons p m)
  show ?case
  proof (cases "fst p = k")
    case True
    with Cons.prems have "p = (k, v)" by (cases p) auto
    then show ?thesis by simp
  next
    case False
    then show ?thesis using Cons by (auto split: if_splits)
  qed
qed simp

lemma length_filter_delete:
  assumes "map_of m k = Some v" "hm_distinct m"
  shows "int (length (filter P (AList.delete k m))) =
           int (length (filter P m)) - (if P (k, v) then 1 else 0)"
  using assms
proof (induction m)
  case (Cons p m)
  show ?case
  proof (cases "fst p = k")
    case True
    with Cons.prems have p: "p = (k, v)" and "k \<notin> hm_keys m" by (cases p; auto)+
    then have "AList.delete k m = m"
      by (simp add: delete_id hm_keys_def)
    then show ?thesis using p by simp
  next
    case False
    then show ?thesis using Cons by auto
  qed
qed simp

lemmas dispute_defs = setVote_def unVote_def updateVote_def makeDisputedTx_def setOurVote_def

lemma dispute_wf_make [simp]: "dispute_wf (makeDisputedTx tx v)"
  by (simp add: dispute_wf_def makeDisputedTx_def)

lemma dispute_wf_setVote [simp]: "dispute_wf d \<Longrightarrow> dispute_wf (setVote p v d)"
  by (cases "map_of (dt_votes d) p")
    (auto simp: dispute_wf_def setVote_def hm_simps length_filter_update Let_def)

lemma dispute_wf_unVote [simp]: "dispute_wf d \<Longrightarrow> dispute_wf (unVote p d)"
  by (cases "map_of (dt_votes d) p")
    (auto simp: dispute_wf_def unVote_def length_filter_delete Let_def)

lemma dispute_wf_updateVote [simp]: "dispute_wf d \<Longrightarrow> dispute_wf (fst (updateVote t pr d))"
  by (simp add: dispute_wf_def updateVote_def Let_def)

lemma map_of_setVote: "map_of (dt_votes (setVote p v d)) = (map_of (dt_votes d))(p \<mapsto> v)"
  by (cases "map_of (dt_votes d) p")
    (auto simp: setVote_def update_conv' fun_eq_iff map_add_def Let_def split: option.splits)

lemma map_of_unVote: "map_of (dt_votes (unVote p d)) = (map_of (dt_votes d))(p := None)"
  by (cases "map_of (dt_votes d) p") (auto simp: unVote_def delete_conv' Let_def)

lemma dispute_frame [simp]:
  "dt_tx (setVote p v d) = dt_tx d" "dt_ourVote (setVote p v d) = dt_ourVote d"
  "dt_tx (unVote p d) = dt_tx d" "dt_ourVote (unVote p d) = dt_ourVote d"
  "dt_tx (fst (updateVote t pr d)) = dt_tx d" "dt_votes (fst (updateVote t pr d)) = dt_votes d"
  "dt_tx (makeDisputedTx tx v) = tx" "dt_ourVote (makeDisputedTx tx v) = v"
  "dt_votes (makeDisputedTx tx v) = []"
  by (auto simp: dispute_defs Let_def split: option.splits)

lemma voters_setVote: "hm_keys (dt_votes (setVote p v d)) = insert p (hm_keys (dt_votes d))"
  by (cases "map_of (dt_votes d) p")
    (auto simp: setVote_def hm_simps Let_def dest: map_of_Some_hm_keys)

lemma voters_unVote: "hm_keys (dt_votes (unVote p d)) = hm_keys (dt_votes d) - {p}"
  by (cases "map_of (dt_votes d) p") (auto simp: unVote_def hm_simps Let_def)

lemma updateVote_flips: "snd (updateVote t pr d) \<longleftrightarrow> dt_ourVote (fst (updateVote t pr d)) \<noteq> dt_ourVote d"
  by (auto simp: updateVote_def Let_def)

section \<open>Properties\<close>

datatype vote_op = SetVote uint160 bool | UnVote uint160

fun vote_step :: "vote_op \<Rightarrow> 'x disputed_tx \<Rightarrow> 'x disputed_tx" where
  "vote_step (SetVote p v) d = setVote p v d"
| "vote_step (UnVote p) d = unVote p d"

fun vote_abs :: "vote_op \<Rightarrow> (uint160 \<rightharpoonup> bool) \<Rightarrow> (uint160 \<rightharpoonup> bool)" where
  "vote_abs (SetVote p v) m = m(p \<mapsto> v)"
| "vote_abs (UnVote p) m = m(p := None)"

lemma vote_steps:
  assumes "dispute_wf d"
  shows "dispute_wf (fold vote_step ops d)"
    and "map_of (dt_votes (fold vote_step ops d)) = fold vote_abs ops (map_of (dt_votes d))"
proof -
  have "dispute_wf (vote_step op d)" "map_of (dt_votes (vote_step op d)) = vote_abs op (map_of (dt_votes d))"
    if "dispute_wf d" for op and d :: "'a disputed_tx"
    using that by (cases op; simp add: map_of_setVote map_of_unVote)+
  then show "dispute_wf (fold vote_step ops d)"
    "map_of (dt_votes (fold vote_step ops d)) = fold vote_abs ops (map_of (dt_votes d))"
    using assms by (induction ops arbitrary: d) simp_all
qed

lemma length_filter_card:
  assumes "hm_distinct m"
  shows "length (filter (\<lambda>p. snd p = v) m) = card {k. map_of m k = Some v}"
proof -
  have inj: "inj_on fst (set (filter (\<lambda>p. snd p = v) m))"
    by (rule inj_on_subset [of fst "set m"]) (use assms in \<open>auto simp: hm_distinct_def distinct_map\<close>)
  have "{k. map_of m k = Some v} = fst ` set (filter (\<lambda>p. snd p = v) m)"
    using assms by (auto simp: hm_distinct_def image_iff)
  moreover have "distinct (filter (\<lambda>p. snd p = v) m)"
    using assms by (simp add: hm_distinct_def distinct_map)
  ultimately show ?thesis using inj by (simp add: card_image distinct_card del: set_filter)
qed

text \<open>
  C16: the tallies of a disputed transaction are those of the votes. After any sequence of
  votes, changed votes and withdrawn votes of peers, in any order, the recorded vote of
  each peer is its last one, and the counts of yes and no are the numbers of peers with
  such a vote.
\<close>

theorem tallies_refine:
  "let d = fold vote_step ops (makeDisputedTx tx ours); m = fold vote_abs ops Map.empty
   in map_of (dt_votes d) = m \<and> dt_ourVote d = ours \<and>
      dt_yays d = int (card {p. m p = Some True}) \<and> dt_nays d = int (card {p. m p = Some False})"
proof -
  let ?d = "fold vote_step ops (makeDisputedTx tx ours)"
  have w: "dispute_wf ?d" and m: "map_of (dt_votes ?d) = fold vote_abs ops Map.empty"
    using vote_steps [of "makeDisputedTx tx ours" ops] by simp_all
  have o: "dt_ourVote (fold vote_step ops d) = dt_ourVote d" for d :: "'a disputed_tx"
  proof (induction ops arbitrary: d)
    case (Cons x xs)
    then show ?case by (cases x) simp_all
  qed simp
  show ?thesis
    using w length_filter_card [of "dt_votes ?d" True] length_filter_card [of "dt_votes ?d" False]
    by (simp add: Let_def o dispute_wf_def m [symmetric])
qed

lemma voteWeight_gt:
  assumes "0 \<le> dt_yays d" "0 \<le> dt_nays d" "0 \<le> t"
  shows "voteWeight d > t \<longleftrightarrow>
    (t + 1) * (dt_nays d + dt_yays d + 1) \<le> dt_yays d * 100 + (if dt_ourVote d then 100 else 0)"
proof -
  let ?n = "dt_nays d + dt_yays d + 1" and ?w = "dt_yays d * 100 + (if dt_ourVote d then 100 else 0)"
  have "voteWeight d = ?w div ?n" using assms by (simp add: voteWeight_def sdiv_nonneg)
  moreover have "t < ?w div ?n \<longleftrightarrow> t + 1 \<le> ?w div ?n" by linarith
  moreover have "t + 1 \<le> ?w div ?n \<longleftrightarrow> (t + 1) * ?n \<le> ?w"
    by (rule int_le_div_iff) (use assms in simp)
  ultimately show ?thesis by simp
qed

lemma avalancheThreshold_bounds: "50 \<le> avalancheThreshold t" "avalancheThreshold t \<le> 95"
  by (simp_all add: avalancheThreshold_def av_params)

lemma avalancheThreshold_mono: "t \<le> u \<Longrightarrow> avalancheThreshold t \<le> avalancheThreshold u"
  by (simp add: avalancheThreshold_def av_params)



end
