(* ===== verification/SHAMap.thy ===== *)
theory SHAMap
  imports Prelude
begin

text \<open>
  The hash tree of \<open>shamap/\<close> that stores transaction sets and ledger state: a radix
  tree of branching 16 over 256-bit keys, in its version 1 shape (no path compression).
  Nodes are immutable values here, which is what copy-on-write (\<open>unshareNode\<close>)
  presents to a holder of a map; all nodes are in memory (no backing store, no
  synchronisation), and a cached hash is the hash of the node. The digest, SHA-512 half of
  OpenSSL, is the parameter \<open>H\<close> of the functions that hash.
\<close>

unbundle bit_operations_syntax

section \<open>Items and nodes\<close>

record sha_item =
  item_key :: uint256
  item_data :: "u8 list"

datatype tn_type = TnTRANSACTION_NM | TnTRANSACTION_MD | TnACCOUNT_STATE

datatype sha_leaf = Leaf (leaf_item: sha_item) (leaf_type: tn_type)

datatype sha_node =
    TreeNode sha_leaf
  | InnerNode "sha_node option list"

definition noChildren :: "sha_node option list" where
  "noChildren = replicate 16 None"

definition emptySHAMap :: sha_node where
  "emptySHAMap = InnerNode noChildren"

text \<open>\<open>hash.begin()[i]\<close>: the key is stored with its most significant byte first.\<close>

definition key_byte :: "uint256 \<Rightarrow> nat \<Rightarrow> nat" where
  "key_byte k i = unat (drop_bit (248 - 8 * i) k AND 255)"

definition selectBranch :: "nat \<Rightarrow> uint256 \<Rightarrow> nat" where
  "selectBranch depth hash =
     (let byte = key_byte hash (depth div 2)
      in if odd depth then byte mod 16 else byte div 16)"

text \<open>
  A branch of an inner node; \<open>None\<close> is an empty branch (\<open>isEmptyBranch\<close>). An inner
  node has sixteen, so a branch number is never out of range.
\<close>

definition getChild :: "sha_node option list \<Rightarrow> nat \<Rightarrow> sha_node option" where
  "getChild cs i = (if i < length cs then cs ! i else None)"

definition nonEmptyBranch :: "sha_node option \<Rightarrow> bool" where
  "nonEmptyBranch c = (case c of None \<Rightarrow> False | Some _ \<Rightarrow> True)"

lemma nonEmptyBranch_simps [simp]: "\<not> nonEmptyBranch None" "nonEmptyBranch (Some n)"
  by (simp_all add: nonEmptyBranch_def)

definition getBranchCount :: "sha_node option list \<Rightarrow> nat" where
  "getBranchCount cs = length (filter nonEmptyBranch cs)"

section \<open>Walking\<close>

text \<open>
  The stack of \<open>walkTowardsKey\<close>: the inner nodes passed, deepest first, each with its
  depth. The leaf that the C++ pushes on top is the first component of the result; the
  result without a leaf ends on the top inner node, whose branch for the key is empty.
\<close>

type_synonym sha_stack = "(sha_node option list \<times> nat) list"

lemma size_child: "Some c \<in> set cs \<Longrightarrow> size c < Suc (size_list (size_option size) cs)"
proof -
  assume "Some c \<in> set cs"
  then have "size_option size (Some c) \<le> size_list (size_option size) cs"
    by (rule size_list_estimation') simp
  then show ?thesis by simp
qed

lemma getChild_mem: "getChild cs i = Some c \<Longrightarrow> Some c \<in> set cs"
  by (auto simp: getChild_def split: if_splits) (metis nth_mem)

lemma size_getChild [termination_simp]:
  "getChild cs i = Some c \<Longrightarrow> size c < Suc (size_list (size_option size) cs)"
  by (rule size_child [OF getChild_mem])

lemma size_filter_single [termination_simp]:
  "filter P cs = [Some c] \<Longrightarrow> size c < Suc (size_list (size_option size) cs)"
  by (rule size_child) (metis filter_is_subset list.set_intros(1) subsetD)

fun walkTowardsKey :: "uint256 \<Rightarrow> sha_node \<Rightarrow> nat \<Rightarrow> sha_stack \<Rightarrow>
    sha_leaf option \<times> sha_stack" where
  "walkTowardsKey ident (TreeNode leaf) depth st = (Some leaf, st)"
| "walkTowardsKey ident (InnerNode cs) depth st =
     (case getChild cs (selectBranch depth ident) of
        None \<Rightarrow> (None, (cs, depth) # st)
      | Some c \<Rightarrow> walkTowardsKey ident c (Suc depth) ((cs, depth) # st))"

abbreviation leaf_key :: "sha_leaf \<Rightarrow> uint256" where
  "leaf_key l \<equiv> item_key (leaf_item l)"

definition findKey :: "sha_node \<Rightarrow> uint256 \<Rightarrow> sha_leaf option" where
  "findKey root ident =
     (case fst (walkTowardsKey ident root 0 []) of
        None \<Rightarrow> None
      | Some leaf \<Rightarrow> if leaf_key leaf \<noteq> ident then None else Some leaf)"

definition peekItem :: "sha_node \<Rightarrow> uint256 \<Rightarrow> sha_item option" where
  "peekItem root ident = map_option leaf_item (findKey root ident)"

definition hasItem :: "sha_node \<Rightarrow> uint256 \<Rightarrow> bool" where
  "hasItem root ident \<longleftrightarrow> findKey root ident \<noteq> None"

fun dirtyUp :: "sha_stack \<Rightarrow> uint256 \<Rightarrow> sha_node \<Rightarrow> sha_node" where
  "dirtyUp [] target child = child"
| "dirtyUp ((cs, depth) # st) target child =
     dirtyUp st target (InnerNode (cs[selectBranch depth target := Some child]))"

section \<open>Adding\<close>

text \<open>
  Two leaves that meet: new inner nodes are pushed for every level at which both keys take
  the same branch. \<open>getChildNodeID\<close> asserts that the depth stays below 64.
\<close>

function splitLeaf :: "sha_item \<Rightarrow> sha_item \<Rightarrow> tn_type \<Rightarrow> nat \<Rightarrow> sha_stack \<Rightarrow>
    (sha_node \<times> sha_stack) res" where
  "splitLeaf item otherItem ty depth st =
     (let b1 = selectBranch depth (item_key item); b2 = selectBranch depth (item_key otherItem)
      in if b1 = b2 then
           (if depth < 64
            then splitLeaf item otherItem ty (Suc depth) ((noChildren, depth) # st)
            else Inl (AssertFailed ''getChildNodeID''))
         else Inr (InnerNode (noChildren[b1 := Some (TreeNode (Leaf item ty)),
                                         b2 := Some (TreeNode (Leaf otherItem ty))]), st))"
  by pat_completeness auto
termination
  by (relation "measure (\<lambda>(item, otherItem, ty, depth, st). 64 - depth)") auto

declare splitLeaf.simps [simp del]

definition nodeType :: "bool \<Rightarrow> bool \<Rightarrow> tn_type" where
  "nodeType isTransaction hasMeta =
     (if \<not> isTransaction then TnACCOUNT_STATE
      else if hasMeta then TnTRANSACTION_MD else TnTRANSACTION_NM)"

text \<open>What \<open>addGiveItem\<close> does where the walk ended.\<close>

definition addAt :: "sha_item \<Rightarrow> tn_type \<Rightarrow> sha_node \<Rightarrow> sha_leaf option \<times> sha_stack \<Rightarrow>
    (sha_node \<times> bool) res" where
  "addAt item ty root w =
     (let tag = item_key item
      in case w of
           (None, []) \<Rightarrow> Inl (Thrown ''SHAMapMissingNode'')
         | (None, (cs, depth) # st) \<Rightarrow>
             rassert (12 \<le> length (item_data item)) ''SHAMapTreeNode''
               (Inr (dirtyUp st tag
                       (InnerNode (cs[selectBranch depth tag := Some (TreeNode (Leaf item ty))])), True))
         | (Some leaf, st) \<Rightarrow>
             if leaf_key leaf = tag then Inr (root, False)
             else rassert (12 \<le> length (item_data item)) ''SHAMapTreeNode''
               (rbind (splitLeaf item (leaf_item leaf) ty (length st) st)
                  (\<lambda>(node, st'). Inr (dirtyUp st' tag node, True))))"

definition addGiveItem :: "sha_item \<Rightarrow> bool \<Rightarrow> bool \<Rightarrow> sha_node \<Rightarrow> (sha_node \<times> bool) res" where
  "addGiveItem item isTransaction hasMeta root =
     addAt item (nodeType isTransaction hasMeta) root
       (walkTowardsKey (item_key item) root 0 [])"

section \<open>Replacing and deleting\<close>

definition updateGiveItem :: "sha_item \<Rightarrow> bool \<Rightarrow> bool \<Rightarrow> sha_node \<Rightarrow> (sha_node \<times> bool) res" where
  "updateGiveItem item isTransaction hasMeta root =
     (case walkTowardsKey (item_key item) root 0 [] of
        (None, _) \<Rightarrow> Inl (AssertFailed ''updateGiveItem'')
      | (Some leaf, st) \<Rightarrow>
          if leaf_key leaf \<noteq> item_key item then Inl (AssertFailed ''updateGiveItem'')
          else Inr (dirtyUp st (item_key item)
                      (TreeNode (Leaf item (nodeType isTransaction hasMeta))), True))"

fun onlyBelow :: "sha_node \<Rightarrow> sha_item option" where
  "onlyBelow (TreeNode leaf) = Some (leaf_item leaf)"
| "onlyBelow (InnerNode cs) =
     (case filter nonEmptyBranch cs of
        [Some c] \<Rightarrow> onlyBelow c
      | _ \<Rightarrow> None)"

text \<open>
  The loop of \<open>delItem\<close> up the stack; \<open>prevNode\<close> is what gets attached where the
  path continued. The node at depth 0 is the root and keeps its place.
\<close>

fun deleteUp :: "sha_node \<Rightarrow> tn_type \<Rightarrow> uint256 \<Rightarrow> sha_stack \<Rightarrow> sha_node option \<Rightarrow> sha_node" where
  "deleteUp root ty ident [] prevNode = root"
| "deleteUp root ty ident ((cs, depth) # st) prevNode =
     (let cs' = cs[selectBranch depth ident := prevNode]
      in if depth = 0 then deleteUp (InnerNode cs') ty ident st prevNode
         else if getBranchCount cs' = 0 then deleteUp root ty ident st None
         else if getBranchCount cs' = 1 then
           (case onlyBelow (InnerNode cs') of
              Some item \<Rightarrow> deleteUp root ty ident st (Some (TreeNode (Leaf item ty)))
            | None \<Rightarrow> deleteUp root ty ident st (Some (InnerNode cs')))
         else deleteUp root ty ident st (Some (InnerNode cs')))"

definition delItem :: "uint256 \<Rightarrow> sha_node \<Rightarrow> sha_node \<times> bool" where
  "delItem ident root =
     (case walkTowardsKey ident root 0 [] of
        (None, _) \<Rightarrow> (root, False)
      | (Some leaf, st) \<Rightarrow>
          if leaf_key leaf \<noteq> ident then (root, False)
          else (deleteUp root (leaf_type leaf) ident st None, True))"

section \<open>Hashes\<close>

definition uint256_bytes :: "uint256 \<Rightarrow> u8 list" where
  "uint256_bytes k = map (\<lambda>i. of_nat (key_byte k i)) [0..<32]"

definition hashPrefix :: "string \<Rightarrow> u8 list" where
  "hashPrefix s = map (\<lambda>c. of_nat (of_char c)) s @ [0]"

fun node_hash :: "(u8 list \<Rightarrow> uint256) \<Rightarrow> sha_node \<Rightarrow> uint256" where
  "node_hash H (TreeNode leaf) =
     (let data = item_data (leaf_item leaf); key = uint256_bytes (leaf_key leaf)
      in case leaf_type leaf of
           TnTRANSACTION_NM \<Rightarrow> H (hashPrefix ''TXN'' @ data)
         | TnACCOUNT_STATE \<Rightarrow> H (hashPrefix ''MLN'' @ data @ key)
         | TnTRANSACTION_MD \<Rightarrow> H (hashPrefix ''SND'' @ data @ key))"
| "node_hash H (InnerNode cs) =
     (if getBranchCount cs = 0 then 0
      else H (hashPrefix ''MIN'' @
              concat (map (\<lambda>c. case c of None \<Rightarrow> uint256_bytes 0
                                | Some n \<Rightarrow> uint256_bytes (node_hash H n)) cs)))"

definition child_hash :: "(u8 list \<Rightarrow> uint256) \<Rightarrow> sha_node option \<Rightarrow> uint256" where
  "child_hash H c = (case c of None \<Rightarrow> 0 | Some n \<Rightarrow> node_hash H n)"

section \<open>Contents and well-formedness\<close>

fun entry_list :: "sha_node \<Rightarrow> sha_leaf list" where
  "entry_list (TreeNode leaf) = [leaf]"
| "entry_list (InnerNode cs) =
     concat (map (\<lambda>c. case c of None \<Rightarrow> [] | Some n \<Rightarrow> entry_list n) cs)"

abbreviation entries :: "sha_node \<Rightarrow> sha_leaf set" where
  "entries n \<equiv> set (entry_list n)"

fun isInner :: "sha_node \<Rightarrow> bool" where
  "isInner (TreeNode leaf) = False"
| "isInner (InnerNode cs) = True"

text \<open>
  A node at some depth of a map whose leaves have one type: an entry sits below the branch
  its key selects, and an inner node below the root holds at least two entries.
\<close>

fun wf_node :: "tn_type \<Rightarrow> nat \<Rightarrow> sha_node \<Rightarrow> bool" where
  "wf_node ty d (TreeNode leaf) \<longleftrightarrow> leaf_type leaf = ty"
| "wf_node ty d (InnerNode cs) \<longleftrightarrow>
     length cs = 16 \<and>
     list_all (\<lambda>i. case getChild cs i of None \<Rightarrow> True
                  | Some c \<Rightarrow> wf_node ty (Suc d) c
                      \<and> list_all (\<lambda>e. selectBranch d (leaf_key e) = i) (entry_list c)
                      \<and> (isInner c \<longrightarrow> 2 \<le> length (entry_list c))) [0..<16]"

definition wf_map :: "tn_type \<Rightarrow> sha_node \<Rightarrow> bool" where
  "wf_map ty root \<longleftrightarrow> isInner root \<and> wf_node ty 0 root"

lemma selectBranch_less [simp]: "selectBranch d k < 16"
proof -
  have "key_byte k i < 256" for i
  proof -
    have "unat (drop_bit (248 - 8 * i) k AND 255) \<le> unat (255 :: uint256)"
      by (rule word_and_le1 [THEN word_le_nat_alt [THEN iffD1]])
    then show ?thesis by (simp add: key_byte_def)
  qed
  then have "key_byte k (d div 2) div 16 < 16"
    by (simp add: less_mult_imp_div_less)
  then show ?thesis by (simp add: selectBranch_def Let_def)
qed

lemma wf_inner:
  "wf_node ty d (InnerNode cs) \<longleftrightarrow>
     length cs = 16 \<and>
     (\<forall>i c. getChild cs i = Some c \<longrightarrow>
        wf_node ty (Suc d) c \<and> (\<forall>e \<in> entries c. selectBranch d (leaf_key e) = i)
        \<and> (isInner c \<longrightarrow> 2 \<le> length (entry_list c)))"
proof -
  have "getChild cs i = Some c \<Longrightarrow> i < length cs" for i c
    by (auto simp: getChild_def split: if_splits)
  then show ?thesis
    by (auto simp: list_all_iff split: option.splits)
qed

declare wf_node.simps(2) [simp del]

lemma entries_inner:
  "entries (InnerNode cs) = {e. \<exists>i c. getChild cs i = Some c \<and> e \<in> entries c}"
  by (auto simp: getChild_def in_set_conv_nth split: option.splits) (metis nth_mem option.simps(5))+

declare entry_list.simps(2) [simp del]

lemma entries_branch:
  assumes "wf_node ty d (InnerNode cs)"
  shows "{e \<in> entries (InnerNode cs). selectBranch d (leaf_key e) = i} =
           (case getChild cs i of None \<Rightarrow> {} | Some c \<Rightarrow> entries c)"
  using assms by (auto simp: entries_inner wf_inner split: option.splits)

lemma getChild_update:
  "length cs = 16 \<Longrightarrow> b < 16 \<Longrightarrow> getChild (cs[b := x]) i = (if i = b then x else getChild cs i)"
  by (auto simp: getChild_def)

lemma getChild_noChildren [simp]: "getChild noChildren i = None"
  by (simp add: getChild_def noChildren_def)

lemma length_noChildren [simp]: "length noChildren = 16"
  by (simp add: noChildren_def)

section \<open>Lookup\<close>

lemma walk_leaf:
  assumes "wf_node ty d n" "fst (walkTowardsKey k n d st) = Some e"
  shows "e \<in> entries n"
  using assms
proof (induction k n d st rule: walkTowardsKey.induct)
  case (2 k cs d st)
  then show ?case
    by (auto simp: wf_inner entries_inner split: option.splits)
qed simp

lemma walk_finds:
  assumes "wf_node ty d n" "e \<in> entries n"
  shows "fst (walkTowardsKey (leaf_key e) n d st) = Some e"
  using assms
proof (induction "leaf_key e" n d st rule: walkTowardsKey.induct)
  case (2 cs d st)
  have "e \<in> {e' \<in> entries (InnerNode cs). selectBranch d (leaf_key e') = selectBranch d (leaf_key e)}"
    using 2(3) by simp
  then obtain c where c: "getChild cs (selectBranch d (leaf_key e)) = Some c" "e \<in> entries c"
    by (subst (asm) entries_branch [OF 2(2)]) (auto split: option.splits)
  have "wf_node ty (Suc d) c"
    using 2(2) c(1) by (auto simp only: wf_inner)
  from 2(1) [OF c(1) this c(2)] c(1) show ?case by simp
qed simp

lemma findKey_iff:
  assumes "wf_node ty 0 root"
  shows "findKey root k = Some e \<longleftrightarrow> e \<in> entries root \<and> leaf_key e = k"
proof
  assume "findKey root k = Some e"
  then show "e \<in> entries root \<and> leaf_key e = k"
    using walk_leaf [OF assms, of k "[]" e] by (auto simp: findKey_def split: option.splits if_splits)
next
  assume "e \<in> entries root \<and> leaf_key e = k"
  then show "findKey root k = Some e"
    using walk_finds [OF assms, of e "[]"] by (auto simp: findKey_def)
qed

section \<open>Keys differ in some nibble\<close>

lemma key_byte_selectBranch: "key_byte k i = selectBranch (2 * i) k * 16 + selectBranch (Suc (2 * i)) k"
  by (simp add: selectBranch_def)

lemma key_byte_take_bit: "key_byte k i = unat (take_bit 8 (drop_bit (248 - 8 * i) k))"
  by (simp add: key_byte_def take_bit_eq_mask mask_eq_exp_minus_1)

lemma bit_key_byte: "n < 8 \<Longrightarrow> bit (key_byte k i) n \<longleftrightarrow> bit k (248 - 8 * i + n)"
  by (simp only: key_byte_take_bit bit_unsigned_iff bit_take_bit_iff bit_drop_bit_eq o_def) 
     (auto dest: bit_imp_le_length)

lemma selectBranch_inj:
  assumes "\<And>j. j < 64 \<Longrightarrow> selectBranch j a = selectBranch j b"
  shows "a = b"
proof (rule bit_word_eqI)
  fix n assume "n < LENGTH(256)"
  then have n: "n < 256" by simp
  define i where "i = 31 - n div 8"
  have "n div 8 \<le> 31"
    using n by linarith
  then have i: "i < 32" "248 - 8 * i + n mod 8 = n"
    by (auto simp: i_def diff_mult_distrib2)
  have "key_byte a i = key_byte b i"
    using i assms [of "2 * i"] assms [of "Suc (2 * i)"] by (simp add: key_byte_selectBranch)
  then have "bit a (248 - 8 * i + n mod 8) = bit b (248 - 8 * i + n mod 8)"
    using bit_key_byte [of "n mod 8"] by (metis mod_less_divisor zero_less_numeral)
  then show "bit a n = bit b n"
    by (simp only: i(2))
qed

section \<open>Insertion\<close>

lemma entries_nonempty: "wf_node ty d n \<Longrightarrow> (isInner n \<longrightarrow> 2 \<le> length (entry_list n)) \<Longrightarrow> entries n \<noteq> {}"
  by (cases n) auto

lemma entries_set_branch:
  assumes "wf_node ty d (InnerNode cs)" "b < 16"
  shows "entries (InnerNode (cs[b := x])) =
           {e \<in> entries (InnerNode cs). selectBranch d (leaf_key e) \<noteq> b} \<union>
           (case x of None \<Rightarrow> {} | Some m \<Rightarrow> entries m)"
proof -
  have len: "length cs = 16" using assms by (simp add: wf_inner)
  have "entries (InnerNode (cs[b := x])) =
      {e. \<exists>i c. i \<noteq> b \<and> getChild cs i = Some c \<and> e \<in> entries c} \<union>
      (case x of None \<Rightarrow> {} | Some m \<Rightarrow> entries m)"
    unfolding entries_inner getChild_update [OF len assms(2)] by (auto split: option.splits)
  moreover have "{e. \<exists>i c. i \<noteq> b \<and> getChild cs i = Some c \<and> e \<in> entries c} =
      {e \<in> entries (InnerNode cs). selectBranch d (leaf_key e) \<noteq> b}"
    using assms(1) by (auto simp: entries_inner wf_inner)
  ultimately show ?thesis by simp
qed

lemma entries_split:
  assumes "wf_node ty d (InnerNode cs)"
  shows "entries (InnerNode cs) = {e \<in> entries (InnerNode cs). selectBranch d (leaf_key e) \<noteq> b} \<union>
           (case getChild cs b of None \<Rightarrow> {} | Some c \<Rightarrow> entries c)"
  unfolding entries_branch [OF assms, symmetric] by auto

lemma entries_noChildren [simp]: "entries (InnerNode noChildren) = {}"
  by (simp add: entries_inner)

lemma wf_update:
  assumes "wf_node ty d (InnerNode cs)" "b < 16"
    and "\<And>m. x = Some m \<Longrightarrow> wf_node ty (Suc d) m \<and> (\<forall>e \<in> entries m. selectBranch d (leaf_key e) = b)
           \<and> (isInner m \<longrightarrow> 2 \<le> length (entry_list m))"
  shows "wf_node ty d (InnerNode (cs[b := x]))"
  using assms by (auto simp: wf_inner getChild_update split: if_splits)

lemma wf_noChildren [simp]: "wf_node ty d (InnerNode noChildren)"
  by (simp add: wf_inner)

lemma two_entries:
  assumes "e \<in> entries n" "e' \<in> entries n" "e \<noteq> e'"
  shows "2 \<le> length (entry_list n)"
proof -
  have "card {e, e'} \<le> card (entries n)"
    using assms by (intro card_mono) auto
  also have "\<dots> \<le> length (entry_list n)"
    by (rule card_length)
  finally show ?thesis using assms by simp
qed

text \<open>
  Splitting a leaf builds, whatever the stack, one well-formed inner node with the two
  entries, put in place of the leaf.
\<close>

lemma splitLeaf_node:
  assumes "d \<le> j" "j < 64" "selectBranch j (item_key a) \<noteq> selectBranch j (item_key b)"
  shows "\<exists>n st' m. splitLeaf a b ty d st = Inr (n, st') \<and>
           dirtyUp st' (item_key a) n = dirtyUp st (item_key a) m \<and> wf_node ty d m \<and>
           isInner m \<and> entries m = {Leaf a ty, Leaf b ty}"
  using assms
proof (induction a b ty d st rule: splitLeaf.induct)
  case (1 a b ty d st)
  define b1 where "b1 = selectBranch d (item_key a)"
  define b2 where "b2 = selectBranch d (item_key b)"
  have le: "b1 < 16" "b2 < 16" by (simp_all add: b1_def b2_def)
  show ?case
  proof (cases "b1 = b2")
    case True
    with 1(2,4) have "d \<noteq> j" by (auto simp: b1_def b2_def)
    with 1(2,3) have d: "Suc d \<le> j" "d < 64" by auto
    from 1(1) [OF b1_def b2_def True d(2) d(1) 1(3,4)] obtain n st' m where
      IH: "splitLeaf a b ty (Suc d) ((noChildren, d) # st) = Inr (n, st')"
        "dirtyUp st' (item_key a) n = dirtyUp ((noChildren, d) # st) (item_key a) m"
        "wf_node ty (Suc d) m" "isInner m" "entries m = {Leaf a ty, Leaf b ty}"
      by blast
    have two: "2 \<le> length (entry_list m)"
      using 1(4) IH(5) by (intro two_entries [of "Leaf a ty" _ "Leaf b ty"]) auto
    have "wf_node ty d (InnerNode (noChildren[b1 := Some m]))"
      using IH(3,5) two True le by (intro wf_update) (auto simp: b1_def b2_def)
    moreover have "entries (InnerNode (noChildren[b1 := Some m])) = {Leaf a ty, Leaf b ty}"
      using IH(5) le by (simp add: entries_set_branch [OF wf_noChildren [of ty d]])
    moreover have "splitLeaf a b ty d st = Inr (n, st')"
      using IH(1) True d(2) by (subst splitLeaf.simps) (simp add: Let_def b1_def b2_def)
    moreover have "dirtyUp st' (item_key a) n = dirtyUp st (item_key a) (InnerNode (noChildren[b1 := Some m]))"
      using IH(2) by (simp add: b1_def)
    ultimately show ?thesis
      by (metis isInner.simps(2))
  next
    case False
    let ?ca = "noChildren[b1 := Some (TreeNode (Leaf a ty))]"
    let ?m = "InnerNode (?ca[b2 := Some (TreeNode (Leaf b ty))])"
    have wa: "wf_node ty d (InnerNode ?ca)"
      using le by (intro wf_update) (auto simp: b1_def)
    have "wf_node ty d ?m"
      using le by (intro wf_update [OF wa]) (auto simp: b2_def)
    moreover have "entries ?m = {Leaf a ty, Leaf b ty}"
      unfolding entries_set_branch [OF wa le(2)] entries_set_branch [OF wf_noChildren [of ty d] le(1)]
      using False by (auto simp: b1_def)
    moreover have "splitLeaf a b ty d st = Inr (?m, st)"
      using False by (subst splitLeaf.simps) (simp add: Let_def b1_def b2_def)
    ultimately show ?thesis by auto
  qed
qed

lemma branch_child_prefix:
  assumes "wf_node ty d (InnerNode cs)" "getChild cs (selectBranch d k) = Some c"
    and "\<forall>e \<in> entries (InnerNode cs). \<forall>j < d. selectBranch j (leaf_key e) = selectBranch j k"
  shows "wf_node ty (Suc d) c" "isInner c \<longrightarrow> 2 \<le> length (entry_list c)"
    "\<forall>e \<in> entries c. \<forall>j < Suc d. selectBranch j (leaf_key e) = selectBranch j k"
    "entries c \<subseteq> entries (InnerNode cs)"
proof -
  show w: "wf_node ty (Suc d) c" "isInner c \<longrightarrow> 2 \<le> length (entry_list c)"
    using assms(1,2) by (auto simp only: wf_inner)
  show sub: "entries c \<subseteq> entries (InnerNode cs)"
    using assms(2) by (auto simp: entries_inner)
  have "\<forall>e \<in> entries c. selectBranch d (leaf_key e) = selectBranch d k"
    using assms(1,2) by (auto simp only: wf_inner)
  with sub assms(3) show "\<forall>e \<in> entries c. \<forall>j < Suc d. selectBranch j (leaf_key e) = selectBranch j k"
    by (auto simp: less_Suc_eq)
qed

lemma addAt_walk:
  assumes "wf_node ty d n" "length st = d" "12 \<le> length (item_data item)"
    and "\<forall>e \<in> entries n. \<forall>j < d. selectBranch j (leaf_key e) = selectBranch j (item_key item)"
    and "\<forall>e \<in> entries n. leaf_key e \<noteq> item_key item"
  shows "\<exists>m. addAt item ty root (walkTowardsKey (item_key item) n d st) =
               Inr (dirtyUp st (item_key item) m, True) \<and>
             wf_node ty d m \<and> entries m = insert (Leaf item ty) (entries n) \<and> isInner m"
  using assms
proof (induction "item_key item" n d st rule: walkTowardsKey.induct)
  case (1 leaf d st)
  have "\<exists>j. d \<le> j \<and> j < 64 \<and> selectBranch j (item_key item) \<noteq> selectBranch j (leaf_key leaf)"
    using selectBranch_inj [of "item_key item" "leaf_key leaf"] 1(4,5) by fastforce
  then obtain j where j: "d \<le> j" "j < 64" "selectBranch j (item_key item) \<noteq> selectBranch j (leaf_key leaf)"
    by blast
  have "leaf = Leaf (leaf_item leaf) ty"
    using 1(1) by (cases leaf) simp
  with splitLeaf_node [OF j, of ty st] 1 show ?case
    by (auto simp: addAt_def)
next
  case (2 cs d st)
  let ?b = "selectBranch d (item_key item)"
  show ?case
  proof (cases "getChild cs ?b")
    case None
    let ?m = "InnerNode (cs[?b := Some (TreeNode (Leaf item ty))])"
    have "wf_node ty d ?m"
      using 2(2) by (intro wf_update) auto
    moreover have "entries ?m = insert (Leaf item ty) (entries (InnerNode cs))"
      using entries_split [OF 2(2), of ?b] None by (simp add: entries_set_branch [OF 2(2)])
    moreover have "addAt item ty root (walkTowardsKey (item_key item) (InnerNode cs) d st) =
        Inr (dirtyUp st (item_key item) ?m, True)"
      using None 2(4) by (simp add: addAt_def Let_def)
    ultimately show ?thesis by (metis isInner.simps(2))
  next
    case (Some c)
    note ch = branch_child_prefix [OF 2(2) Some 2(5)]
    obtain m where m: "addAt item ty root (walkTowardsKey (item_key item) c (Suc d) ((cs, d) # st)) =
        Inr (dirtyUp ((cs, d) # st) (item_key item) m, True)"
      "wf_node ty (Suc d) m" "entries m = insert (Leaf item ty) (entries c)" "isInner m"
      using 2(1) [OF Some ch(1) _ 2(4) ch(3)] 2(3,6) ch(4) by auto
    obtain e where "e \<in> entries c" using entries_nonempty [OF ch(1,2)] by (metis ex_in_conv)
    moreover from this have "e \<noteq> Leaf item ty"
      using 2(6) ch(4) by (metis sha_leaf.sel(1) subsetD)
    ultimately have two: "2 \<le> length (entry_list m)"
      using m(3) by (intro two_entries [of e _ "Leaf item ty"]) auto
    have "wf_node ty d (InnerNode (cs[?b := Some m]))"
      using 2(2) m(2,3) two ch(3) by (intro wf_update) auto
    moreover have "entries (InnerNode (cs[?b := Some m])) = insert (Leaf item ty) (entries (InnerNode cs))"
      using entries_split [OF 2(2), of ?b] Some m(3) by (auto simp: entries_set_branch [OF 2(2)])
    moreover have "addAt item ty root (walkTowardsKey (item_key item) (InnerNode cs) d st) =
        Inr (dirtyUp st (item_key item) (InnerNode (cs[?b := Some m])), True)"
      using m(1) Some by simp
    ultimately show ?thesis by (metis isInner.simps(2))
  qed
qed

lemma addGiveItem_new:
  assumes "wf_map ty root" "ty = nodeType isT hasM" "12 \<le> length (item_data item)"
    and "findKey root (item_key item) = None"
  shows "\<exists>root'. addGiveItem item isT hasM root = Inr (root', True) \<and> wf_map ty root' \<and>
           entries root' = insert (Leaf item ty) (entries root)"
proof -
  have w: "wf_node ty 0 root" using assms(1) by (simp add: wf_map_def)
  have "\<forall>e \<in> entries root. leaf_key e \<noteq> item_key item"
    using findKey_iff [OF w, of "item_key item"] assms(4) by auto
  from addAt_walk [OF w _ assms(3) _ this, of "[]" root] show ?thesis
    using assms(2) by (auto simp: addGiveItem_def wf_map_def)
qed

lemma addGiveItem_existing:
  assumes "wf_map ty root" "findKey root (item_key item) \<noteq> None"
  shows "addGiveItem item isT hasM root = Inr (root, False)"
  using assms(2)
  by (cases "walkTowardsKey (item_key item) root 0 []")
    (auto simp: addGiveItem_def addAt_def findKey_def split: option.splits if_splits)

section \<open>Deletion\<close>

lemma nonEmptyBranch_iff: "nonEmptyBranch c \<longleftrightarrow> (\<exists>n. c = Some n)"
  by (cases c) auto

lemma getBranchCount_0: "getBranchCount cs = 0 \<Longrightarrow> getChild cs i = None"
  by (auto simp: getBranchCount_def getChild_def filter_empty_conv nonEmptyBranch_iff)

lemma filter_single_child:
  assumes "filter nonEmptyBranch cs = [Some c]"
  shows "\<exists>i. getChild cs i = Some c \<and> (\<forall>j. j \<noteq> i \<longrightarrow> getChild cs j = None)"
proof -
  from assms obtain us vs where cs: "cs = us @ Some c # vs"
    "\<forall>u \<in> set us. u = None" "\<forall>v \<in> set vs. v = None"
    by (auto simp: filter_eq_Cons_iff filter_empty_conv nonEmptyBranch_iff dest: sym [of "[]"])
  then have "getChild cs (length us) = Some c"
    by (simp add: getChild_def)
  moreover have "getChild cs j = None" if "j \<noteq> length us" for j
    using that cs by (auto simp: getChild_def nth_append nth_Cons split: nat.splits)
  ultimately show ?thesis by blast
qed

lemma getBranchCount_1:
  assumes "getBranchCount cs = 1"
  obtains c where "filter nonEmptyBranch cs = [Some c]"
proof -
  from assms obtain x where x: "filter nonEmptyBranch cs = [x]"
    by (auto simp: getBranchCount_def length_Suc_conv)
  then have "x \<in> set (filter nonEmptyBranch cs)" by simp
  then obtain n where "x = Some n" by (auto simp: nonEmptyBranch_iff)
  with x that show ?thesis by simp
qed

lemma entries_single_child:
  assumes "filter nonEmptyBranch cs = [Some c]"
  shows "entries (InnerNode cs) = entries c" "entry_list (InnerNode cs) = entry_list c"
proof -
  from assms obtain us vs where cs: "cs = us @ Some c # vs"
    "\<forall>u \<in> set us. u = None" "\<forall>v \<in> set vs. v = None"
    by (auto simp: filter_eq_Cons_iff filter_empty_conv nonEmptyBranch_iff dest: sym [of "[]"])
  have nil: "concat (map (\<lambda>c. case c of None \<Rightarrow> [] | Some n \<Rightarrow> entry_list n) xs) = []"
    if "\<forall>x \<in> set xs. x = None" for xs :: "sha_node option list"
    using that by (induction xs) auto
  show "entry_list (InnerNode cs) = entry_list c"
    unfolding entry_list.simps(2) cs(1) map_append list.map concat_append concat.simps
      nil [OF cs(2)] nil [OF cs(3)] by simp
  then show "entries (InnerNode cs) = entries c" by simp
qed

lemma wf_single_child:
  assumes "wf_node ty d (InnerNode cs)" "filter nonEmptyBranch cs = [Some c]"
  shows "wf_node ty (Suc d) c" "isInner c \<longrightarrow> 2 \<le> length (entry_list c)"
  using assms filter_single_child [OF assms(2)] by (auto simp only: wf_inner)

lemma onlyBelow_two:
  assumes "wf_node ty d n" "2 \<le> length (entry_list n)"
  shows "onlyBelow n = None"
  using assms
proof (induction n arbitrary: d rule: onlyBelow.induct)
  case (2 cs)
  show ?case
  proof (cases "getBranchCount cs = 1")
    case True
    then obtain c where c: "filter nonEmptyBranch cs = [Some c]" by (rule getBranchCount_1)
    then have "onlyBelow c = None"
      using 2 wf_single_child [OF 2(2) c] entries_single_child [OF c] by simp
    then show ?thesis by (simp add: c)
  next
    case False
    then show ?thesis
      by (cases "filter nonEmptyBranch cs")
        (auto simp: getBranchCount_def split: list.splits option.splits)
  qed
qed simp

lemma two_branches:
  assumes "wf_node ty d (InnerNode cs)" "getBranchCount cs \<noteq> 0" "getBranchCount cs \<noteq> 1"
  shows "2 \<le> length (entry_list (InnerNode cs))"
proof -
  from assms(2,3) obtain x y zs where f: "filter nonEmptyBranch cs = x # y # zs"
    by (cases "filter nonEmptyBranch cs"; cases "tl (filter nonEmptyBranch cs)")
      (auto simp: getBranchCount_def)
  then obtain us vs ws where cs: "cs = us @ x # vs @ y # ws" "x \<noteq> None" "y \<noteq> None"
    by (auto simp: filter_eq_Cons_iff nonEmptyBranch_iff dest!: sym [of "_ # _"])
  have nonempty: "(case c of None \<Rightarrow> [] | Some n \<Rightarrow> entry_list n) \<noteq> []" if "c \<in> set cs" "c \<noteq> None" for c
  proof -
    from that obtain i n where "getChild cs i = Some n" "c = Some n"
      unfolding getChild_def in_set_conv_nth by (metis not_None_eq)
    then have "wf_node ty (Suc d) n" "isInner n \<longrightarrow> 2 \<le> length (entry_list n)"
      using assms(1) by (auto simp only: wf_inner)
    then have "entries n \<noteq> {}" by (rule entries_nonempty)
    then show ?thesis using \<open>c = Some n\<close> by simp
  qed
  have "1 \<le> length (case x of None \<Rightarrow> [] | Some n \<Rightarrow> entry_list n)"
    "1 \<le> length (case y of None \<Rightarrow> [] | Some n \<Rightarrow> entry_list n)"
    using nonempty [of x] nonempty [of y] cs
    by (simp_all add: Suc_le_eq)
  then show ?thesis
    by (simp add: entry_list.simps(2) cs(1))
qed

definition entries_opt :: "sha_node option \<Rightarrow> sha_leaf set" where
  "entries_opt r = (case r of None \<Rightarrow> {} | Some m \<Rightarrow> entries m)"

definition wf_child :: "tn_type \<Rightarrow> nat \<Rightarrow> sha_node option \<Rightarrow> bool" where
  "wf_child ty d r \<longleftrightarrow> (case r of None \<Rightarrow> True
     | Some m \<Rightarrow> wf_node ty d m \<and> (isInner m \<longrightarrow> 2 \<le> length (entry_list m)))"

text \<open>What becomes of an inner node below the root after one of its branches was replaced.\<close>

lemma deleteUp_inner:
  assumes "wf_node ty d (InnerNode cs)" "0 < d"
  shows "\<exists>r. (let k = getBranchCount cs in
                if k = 0 then deleteUp root ty ident st None
                else if k = 1 then
                  (case onlyBelow (InnerNode cs) of
                     Some item \<Rightarrow> deleteUp root ty ident st (Some (TreeNode (Leaf item ty)))
                   | None \<Rightarrow> deleteUp root ty ident st (Some (InnerNode cs)))
                else deleteUp root ty ident st (Some (InnerNode cs))) = deleteUp root ty ident st r
             \<and> wf_child ty d r \<and> entries_opt r = entries (InnerNode cs)"
proof -
  consider "getBranchCount cs = 0" | "getBranchCount cs = 1" | "getBranchCount cs \<noteq> 0" "getBranchCount cs \<noteq> 1"
    by blast
  then show ?thesis
  proof cases
    case 1
    then have "entries (InnerNode cs) = {}"
      using getBranchCount_0 [OF 1] by (simp add: entries_inner)
    with 1 show ?thesis by (auto simp: wf_child_def entries_opt_def intro!: exI [of _ None])
  next
    case 2
    then obtain c where c: "filter nonEmptyBranch cs = [Some c]" by (rule getBranchCount_1)
    note w = wf_single_child [OF assms(1) c]
    show ?thesis
    proof (cases c)
      case (TreeNode l)
      then have "l = Leaf (leaf_item l) ty" "leaf_type l = ty" using w by (cases l; simp)+
      with 2 c TreeNode entries_single_child [OF c] show ?thesis
        by (auto simp: wf_child_def entries_opt_def intro!: exI [of _ "Some (TreeNode l)"])
    next
      case (InnerNode cs')
      then have "2 \<le> length (entry_list c)" using w by simp
      moreover from this have "onlyBelow c = None" by (rule onlyBelow_two [OF w(1)])
      ultimately show ?thesis
        using 2 c assms(1) entries_single_child [OF c]
        by (auto simp: wf_child_def entries_opt_def intro!: exI [of _ "Some (InnerNode cs)"])
    qed
  next
    case 3
    then show ?thesis
      using assms(1) two_branches [OF assms(1) 3]
      by (auto simp: wf_child_def entries_opt_def intro!: exI [of _ "Some (InnerNode cs)"])
  qed
qed

lemma wf_update_opt:
  assumes "wf_node ty d (InnerNode cs)" "wf_child ty (Suc d) r"
    and "\<forall>e \<in> entries_opt r. selectBranch d (leaf_key e) = b" "b < 16"
  shows "wf_node ty d (InnerNode (cs[b := r]))"
    "entries (InnerNode (cs[b := r])) =
       {e \<in> entries (InnerNode cs). selectBranch d (leaf_key e) \<noteq> b} \<union> entries_opt r"
  using assms wf_update [OF assms(1,4), of r] entries_set_branch [OF assms(1,4), of r]
  by (auto simp: wf_child_def entries_opt_def split: option.splits)

lemma delete_below:
  assumes "wf_node ty d n" "0 < d" "e \<in> entries n"
  shows "\<exists>st' r. walkTowardsKey (leaf_key e) n d st = (Some e, st') \<and>
           deleteUp root ty (leaf_key e) st' None = deleteUp root ty (leaf_key e) st r \<and>
           wf_child ty d r \<and> entries_opt r = entries n - {e}"
  using assms
proof (induction "leaf_key e" n d st rule: walkTowardsKey.induct)
  case (1 leaf d st)
  then show ?case by (auto simp: wf_child_def entries_opt_def intro!: exI [of _ None])
next
  case (2 cs d st)
  let ?b = "selectBranch d (leaf_key e)"
  have "e \<in> (case getChild cs ?b of None \<Rightarrow> {} | Some c \<Rightarrow> entries c)"
    using 2(4) by (simp add: entries_branch [OF 2(2), symmetric])
  then obtain c where c: "getChild cs ?b = Some c" "e \<in> entries c"
    by (auto split: option.splits)
  have wc: "wf_node ty (Suc d) c" "\<forall>e' \<in> entries c. selectBranch d (leaf_key e') = ?b"
    using 2(2) c(1) by (auto simp only: wf_inner)
  obtain st' rc where IH: "walkTowardsKey (leaf_key e) c (Suc d) ((cs, d) # st) = (Some e, st')"
    "deleteUp root ty (leaf_key e) st' None = deleteUp root ty (leaf_key e) ((cs, d) # st) rc"
    "wf_child ty (Suc d) rc" "entries_opt rc = entries c - {e}"
    using 2(1) [OF c(1) wc(1) _ c(2)] by auto
  have rcb: "\<forall>e' \<in> entries_opt rc. selectBranch d (leaf_key e') = ?b"
    using IH(4) wc(2) by simp
  note u = wf_update_opt [OF 2(2) IH(3) rcb selectBranch_less]
  have ent: "entries (InnerNode (cs[?b := rc])) = entries (InnerNode cs) - {e}"
    using entries_split [OF 2(2), of ?b] c(1) IH(4) by (auto simp: u(2))
  obtain r where "deleteUp root ty (leaf_key e) ((cs, d) # st) rc = deleteUp root ty (leaf_key e) st r"
    "wf_child ty d r" "entries_opt r = entries (InnerNode (cs[?b := rc]))"
    using deleteUp_inner [OF u(1) 2(3), of root "leaf_key e" st] 2(3)
    by (auto simp: Let_def split del: if_split)
  then show ?case
    using c(1) IH(1,2) ent by auto
qed

lemma delItem_present:
  assumes "wf_map ty root" "e \<in> entries root" 
  shows "\<exists>root'. delItem (leaf_key e) root = (root', True) \<and> wf_map ty root' \<and>
           entries root' = entries root - {e}"
proof -
  from assms(1) obtain cs where root: "root = InnerNode cs" and w: "wf_node ty 0 (InnerNode cs)"
    by (cases root) (auto simp: wf_map_def)
  let ?b = "selectBranch 0 (leaf_key e)"
  have "e \<in> (case getChild cs ?b of None \<Rightarrow> {} | Some c \<Rightarrow> entries c)"
    using assms(2) root by (simp add: entries_branch [OF w, symmetric])
  then obtain c where c: "getChild cs ?b = Some c" "e \<in> entries c"
    by (auto split: option.splits)
  have wc: "wf_node ty (Suc 0) c" "\<forall>e' \<in> entries c. selectBranch 0 (leaf_key e') = ?b"
    using w c(1) by (auto simp only: wf_inner)
  have ty: "leaf_type e = ty" if "wf_node ty d n" "e \<in> entries n" for d n
    using that
  proof (induction n arbitrary: d rule: entry_list.induct)
    case (2 cs)
    then obtain i c where "getChild cs i = Some c" "e \<in> entries c"
      by (auto simp: entries_inner)
    moreover from this 2(2) have "wf_node ty (Suc d) c" by (auto simp only: wf_inner)
    ultimately show ?case
      using 2(1) [OF getChild_mem, of i c c "Suc d"] by auto
  qed simp
  obtain st' r where *: "walkTowardsKey (leaf_key e) c (Suc 0) [(cs, 0)] = (Some e, st')"
    "deleteUp root ty (leaf_key e) st' None = deleteUp root ty (leaf_key e) [(cs, 0)] r"
    "wf_child ty (Suc 0) r" "entries_opt r = entries c - {e}"
    using delete_below [OF wc(1) _ c(2), of "[(cs, 0)]" root] by auto
  have rb: "\<forall>e' \<in> entries_opt r. selectBranch 0 (leaf_key e') = ?b"
    using *(4) wc(2) by simp
  note u = wf_update_opt [OF w *(3) rb selectBranch_less]
  have "delItem (leaf_key e) root = (InnerNode (cs[?b := r]), True)"
    using c(1) *(1,2) ty [OF wc(1) c(2)] by (simp add: delItem_def root)
  moreover have "entries (InnerNode (cs[?b := r])) = entries root - {e}"
    using entries_split [OF w, of ?b] c(1) *(4) by (auto simp: u(2) root)
  ultimately show ?thesis
    using u(1) by (simp add: wf_map_def)
qed

lemma delItem_absent:
  assumes "findKey root k = None"
  shows "delItem k root = (root, False)"
  using assms
  by (cases "walkTowardsKey k root 0 []") (auto simp: delItem_def findKey_def split: option.splits if_splits)

section \<open>The shape is determined by the contents\<close>

lemma wf_leaf_type: "wf_node ty d n \<Longrightarrow> e \<in> entries n \<Longrightarrow> leaf_type e = ty"
proof (induction n arbitrary: d rule: entry_list.induct)
  case (2 cs)
  then obtain i c where "getChild cs i = Some c" "e \<in> entries c"
    by (auto simp: entries_inner)
  moreover from this 2(2) have "wf_node ty (Suc d) c" by (auto simp only: wf_inner)
  ultimately show ?case
    using 2(1) [OF getChild_mem, of i c c "Suc d"] by auto
qed simp

lemma wf_getChild:
  assumes "wf_node ty d (InnerNode cs)" "getChild cs i = Some c"
  shows "wf_node ty (Suc d) c" "isInner c \<Longrightarrow> 2 \<le> length (entry_list c)" "entries c \<noteq> {}"
    "\<And>e. e \<in> entries c \<Longrightarrow> selectBranch d (leaf_key e) = i"
proof -
  show w: "wf_node ty (Suc d) c"
    and i: "isInner c \<Longrightarrow> 2 \<le> length (entry_list c)"
    and "\<And>e. e \<in> entries c \<Longrightarrow> selectBranch d (leaf_key e) = i"
    using assms unfolding wf_inner by blast+
  show "entries c \<noteq> {}" using entries_nonempty [OF w] i by blast
qed

lemma two_children:
  assumes "getBranchCount cs \<noteq> 0" "getBranchCount cs \<noteq> 1"
  obtains i j c c' where "getChild cs i = Some c" "getChild cs j = Some c'" "i \<noteq> j"
proof -
  from assms obtain x y zs where f: "filter nonEmptyBranch cs = x # y # zs"
    by (cases "filter nonEmptyBranch cs"; cases "tl (filter nonEmptyBranch cs)")
      (auto simp: getBranchCount_def)
  then obtain us vs ws c c' where cs: "cs = us @ Some c # vs @ Some c' # ws"
    by (auto simp: filter_eq_Cons_iff nonEmptyBranch_iff dest!: sym [of "_ # _"])
  show thesis
    by (rule that [of "length us" c "length us + Suc (length vs)" c'])
      (simp_all add: cs getChild_def nth_append)
qed

lemma wf_two_entries:
  assumes "wf_node ty d n" "2 \<le> length (entry_list n)"
  shows "\<exists>e e'. e \<in> entries n \<and> e' \<in> entries n \<and> e \<noteq> e'"
  using assms
proof (induction n arbitrary: d rule: onlyBelow.induct)
  case (2 cs)
  consider "getBranchCount cs = 0" | "getBranchCount cs = 1" | "getBranchCount cs \<noteq> 0" "getBranchCount cs \<noteq> 1"
    by blast
  then show ?case
  proof cases
    case 1
    then have "entries (InnerNode cs) = {}"
      using getBranchCount_0 [OF 1] by (simp add: entries_inner)
    then have "length (entry_list (InnerNode cs)) = 0" by simp
    with 2(3) show ?thesis by linarith
  next
    case b: 2
    then obtain c where c: "filter nonEmptyBranch cs = [Some c]" by (rule getBranchCount_1)
    have "\<exists>e e'. e \<in> entries c \<and> e' \<in> entries c \<and> e \<noteq> e'"
      using 2(1) [OF c refl refl wf_single_child(1) [OF 2(2) c]] 2(3) entries_single_child(2) [OF c] by simp
    then show ?thesis by (simp only: entries_single_child(1) [OF c])
  next
    case 3
    then obtain i j c c' where ij: "getChild cs i = Some c" "getChild cs j = Some c'" "i \<noteq> j"
      by (rule two_children)
    from wf_getChild(3) [OF 2(2) ij(1)] obtain e where e: "e \<in> entries c" by (metis ex_in_conv)
    from wf_getChild(3) [OF 2(2) ij(2)] obtain e' where e': "e' \<in> entries c'" by (metis ex_in_conv)
    have "e \<noteq> e'" using wf_getChild(4) [OF 2(2) ij(1) e] wf_getChild(4) [OF 2(2) ij(2) e'] ij(3) by blast
    moreover have "e \<in> entries (InnerNode cs)" "e' \<in> entries (InnerNode cs)"
      using e e' ij by (auto simp only: entries_inner)
    ultimately show ?thesis by blast
  qed
qed simp

lemma wf_same_kind:
  assumes "wf_node ty d a" "isInner a \<Longrightarrow> 2 \<le> length (entry_list a)" "entries a = entries b" "isInner a"
  shows "isInner b"
proof (rule ccontr)
  assume "\<not> isInner b"
  then obtain l where "entries b = {l}" by (cases b) auto
  with wf_two_entries [OF assms(1) assms(2) [OF assms(4)]] assms(3) show False by auto
qed

lemma wf_same_entries:
  assumes "wf_node ty d a" "wf_node ty d b" "entries a = entries b"
    and "isInner a = isInner b"
  shows "a = b"
  using assms
proof (induction a arbitrary: d b rule: entry_list.induct)
  case (1 leaf)
  then show ?case by (cases b) auto
next
  case (2 cs)
  from 2(5) obtain ds where b: "b = InnerNode ds" by (cases b) auto
  have wb: "wf_node ty d (InnerNode ds)" using 2(3) b by simp
  have eb: "(case getChild cs i of None \<Rightarrow> {} | Some c \<Rightarrow> entries c) =
      (case getChild ds i of None \<Rightarrow> {} | Some c \<Rightarrow> entries c)" for i
    using 2(4) b by (simp add: entries_branch [OF 2(2), symmetric] entries_branch [OF wb, symmetric])
  have "getChild cs i = getChild ds i" for i
  proof (cases "getChild cs i")
    case None
    with eb [of i] wf_getChild(3) [OF wb, of i] show ?thesis by (cases "getChild ds i") auto
  next
    case (Some c)
    note wc = wf_getChild [OF 2(2) Some]
    with Some eb [of i] obtain c' where c': "getChild ds i = Some c'" "entries c = entries c'"
      by (cases "getChild ds i") auto
    note wc' = wf_getChild [OF wb c'(1)]
    have "isInner c = isInner c'"
      using wf_same_kind [OF wc(1,2) c'(2)] wf_same_kind [OF wc'(1,2) c'(2) [symmetric]] by blast
    then have "c = c'"
      by (rule 2(1) [OF getChild_mem [OF Some] refl wc(1) wc'(1) c'(2)])
    with Some c' show ?thesis by simp
  qed
  moreover have len: "length cs = 16" "length ds = 16" using 2(2) wb by (simp_all add: wf_inner)
  ultimately have "cs ! i = ds ! i" if "i < 16" for i
    using that unfolding getChild_def by metis
  then have "cs = ds"
    using len by (intro nth_equalityI) simp_all
  then show ?case by (simp add: b)
qed

section \<open>A finite map\<close>

lemma peekItem_iff:
  assumes "wf_map ty root"
  shows "peekItem root k = Some it \<longleftrightarrow> Leaf it ty \<in> entries root \<and> item_key it = k"
proof -
  have w: "wf_node ty 0 root" using assms by (simp add: wf_map_def)
  have "peekItem root k = Some it \<longleftrightarrow> (\<exists>e. findKey root k = Some e \<and> leaf_item e = it)"
    by (auto simp: peekItem_def)
  also have "\<dots> \<longleftrightarrow> (\<exists>e. e \<in> entries root \<and> leaf_key e = k \<and> leaf_item e = it)"
    by (auto simp only: findKey_iff [OF w])
  also have "\<dots> \<longleftrightarrow> Leaf it ty \<in> entries root \<and> item_key it = k"
    using wf_leaf_type [OF w] by (metis sha_leaf.collapse sha_leaf.sel(1))
  finally show ?thesis .
qed

lemma wf_key_unique:
  assumes "wf_node ty d n" "e \<in> entries n" "e' \<in> entries n" "leaf_key e = leaf_key e'"
  shows "e = e'"
  using walk_finds [OF assms(1,2)] walk_finds [OF assms(1,3)] assms(4) by (metis option.inject)

lemma entries_peekItem:
  assumes "wf_map ty root"
  shows "entries root = {Leaf it ty | it. peekItem root (item_key it) = Some it}"
proof (rule set_eqI)
  fix e
  have "e \<in> entries root \<Longrightarrow> e = Leaf (leaf_item e) ty"
    using assms wf_leaf_type by (metis wf_map_def sha_leaf.collapse)
  then show "e \<in> entries root \<longleftrightarrow> e \<in> {Leaf it ty | it. peekItem root (item_key it) = Some it}"
    by (auto simp: peekItem_iff [OF assms])
qed

lemma peekItem_None: "peekItem root k = None \<longleftrightarrow> findKey root k = None"
  by (simp add: peekItem_def)

lemma peekItem_eqI:
  assumes "wf_map ty root"
    and "\<And>k it. m k = Some it \<longleftrightarrow> Leaf it ty \<in> entries root \<and> item_key it = k"
  shows "peekItem root = m"
proof
  fix k
  show "peekItem root k = m k"
    by (rule option.expand) (metis assms peekItem_iff option.collapse option.sel)+
qed

section \<open>A concrete map\<close>

definition sample_item :: "uint256 \<Rightarrow> sha_item" where
  "sample_item k = \<lparr>item_key = k, item_data = replicate 12 (of_nat (selectBranch 0 k))\<rparr>"

definition sample_map :: sha_node where
  "sample_map = InnerNode (noChildren
     [0 := Some (TreeNode (Leaf (sample_item 5) TnTRANSACTION_NM)),
      8 := Some (TreeNode (Leaf (sample_item (2 ^ 255 + 7)) TnTRANSACTION_NM))])"

lemma sample_item_simps [simp]:
  "item_key (sample_item k) = k" "length (item_data (sample_item k)) = 12"
  by (simp_all add: sample_item_def)

lemma nodeType_TF: "nodeType True False = TnTRANSACTION_NM"
  by (simp add: nodeType_def)

lemma sample_map_wf: "wf_map TnTRANSACTION_NM sample_map"
proof -
  have "selectBranch 0 5 = 0" "selectBranch 0 (2 ^ 255 + 7) = 8"
    by (simp_all add: selectBranch_def key_byte_def)
  then show ?thesis
    by (auto simp: wf_map_def sample_map_def intro!: wf_update)
qed

lemma sample_map_5: "Leaf (sample_item 5) TnTRANSACTION_NM \<in> entries sample_map"
proof -
  have "getChild (noChildren[0 := x, 8 := y]) 0 = x" for x y
    by (simp add: getChild_update)
  then show ?thesis unfolding sample_map_def entries_inner by force
qed

lemma readd_sample:
  "\<exists>root'. addGiveItem (sample_item 5) True False (fst (delItem 5 sample_map)) = Inr (root', True) \<and>
     wf_map TnTRANSACTION_NM root' \<and> peekItem root' = peekItem sample_map"
proof -
  let ?e = "Leaf (sample_item 5) TnTRANSACTION_NM"
  from delItem_present [OF sample_map_wf sample_map_5] obtain r where
    r: "delItem 5 sample_map = (r, True)" "wf_map TnTRANSACTION_NM r" "entries r = entries sample_map - {?e}"
    by auto
  have w: "wf_node TnTRANSACTION_NM 0 r" "wf_node TnTRANSACTION_NM 0 sample_map"
    using r(2) sample_map_wf by (simp_all add: wf_map_def)
  have "e = ?e" if "e \<in> entries sample_map" "leaf_key e = 5" for e
    using wf_key_unique [OF w(2) that(1) sample_map_5] that(2) by simp
  then have "findKey r 5 = None"
    using findKey_iff [OF w(1), of 5] by (auto simp: r(3)) (metis option.exhaust)
  with addGiveItem_new [OF r(2) nodeType_TF [symmetric], of "sample_item 5"] obtain root' where
    root': "addGiveItem (sample_item 5) True False r = Inr (root', True)" "wf_map TnTRANSACTION_NM root'"
      "entries root' = insert ?e (entries r)" by auto
  have "entries root' = entries sample_map" using root'(3) r(3) sample_map_5 by auto
  then have "peekItem root' = peekItem sample_map"
    by (intro peekItem_eqI [OF root'(2)]) (simp add: peekItem_iff [OF sample_map_wf])
  with root' r show ?thesis by simp
qed

lemma addGiveItem_map:
  assumes "wf_map (nodeType isT hasM) root" "12 \<le> length (item_data item)"
  shows "\<exists>root'. addGiveItem item isT hasM root = Inr (root', peekItem root (item_key item) = None)
     \<and> wf_map (nodeType isT hasM) root'
     \<and> peekItem root' = (if peekItem root (item_key item) = None
                          then (peekItem root)(item_key item \<mapsto> item) else peekItem root)"
proof (cases "findKey root (item_key item)")
  case None
  from addGiveItem_new [OF assms(1) refl assms(2) None] obtain root' where
    r: "addGiveItem item isT hasM root = Inr (root', True)" "wf_map (nodeType isT hasM) root'"
      "entries root' = insert (Leaf item (nodeType isT hasM)) (entries root)" by blast
  have "peekItem root' = (peekItem root)(item_key item \<mapsto> item)"
  proof (rule peekItem_eqI [OF r(2)])
    fix k it
    have "peekItem root (item_key item) \<noteq> Some it" using None by (simp add: peekItem_def)
    then show "((peekItem root)(item_key item \<mapsto> item)) k = Some it \<longleftrightarrow>
        Leaf it (nodeType isT hasM) \<in> entries root' \<and> item_key it = k"
      by (auto simp: r(3) peekItem_iff [OF assms(1)])
  qed
  with r None show ?thesis by (simp add: peekItem_None)
next
  case (Some e)
  then show ?thesis
    using addGiveItem_existing [OF assms(1), of item isT hasM] assms(1) by (simp add: peekItem_None)
qed

text \<open>
  C5: adding an item to a well-formed map never trips an assertion, keeps the map
  well-formed, reports whether the key was new, and binds the key to the item exactly then.
\<close>

theorem addGiveItem_refines:
  assumes "wf_map (nodeType isT hasM) root" "12 \<le> length (item_data item)"
  shows "\<exists>root'. addGiveItem item isT hasM root = Inr (root', peekItem root (item_key item) = None)
     \<and> wf_map (nodeType isT hasM) root'
     \<and> peekItem root' = (if peekItem root (item_key item) = None
                          then (peekItem root)(item_key item \<mapsto> item) else peekItem root)"
  using assms by (rule addGiveItem_map)

theorem addGiveItem_refines_witness:
  "\<exists>root'. addGiveItem (sample_item (2 ^ 255 + 9)) True False sample_map =
       Inr (root', peekItem sample_map (2 ^ 255 + 9) = None) \<and>
     wf_map TnTRANSACTION_NM root' \<and>
     peekItem root' = (if peekItem sample_map (2 ^ 255 + 9) = None
       then (peekItem sample_map)(2 ^ 255 + 9 \<mapsto> sample_item (2 ^ 255 + 9)) else peekItem sample_map)"
  by (rule addGiveItem_refines [of True False sample_map "sample_item (2 ^ 255 + 9)",
        unfolded nodeType_TF sample_item_simps, OF sample_map_wf order_refl])

lemma delItem_map:
  assumes "wf_map ty root"
  shows "\<exists>root'. delItem k root = (root', peekItem root k \<noteq> None) \<and> wf_map ty root' \<and>
           peekItem root' = (peekItem root)(k := None)"
proof (cases "findKey root k")
  case None
  then have "peekItem root k = None" by (simp add: peekItem_None)
  then have "(peekItem root)(k := None) = peekItem root" by (simp add: fun_upd_idem)
  with None delItem_absent [OF None] assms show ?thesis by (simp add: peekItem_None)
next
  case (Some e)
  have w: "wf_node ty 0 root" using assms by (simp add: wf_map_def)
  with Some have e: "e \<in> entries root" "leaf_key e = k" by (simp_all add: findKey_iff)
  from delItem_present [OF assms e(1)] e(2) obtain root' where
    r: "delItem k root = (root', True)" "wf_map ty root'" "entries root' = entries root - {e}" by blast
  have "peekItem root' = (peekItem root)(k := None)"
  proof (rule peekItem_eqI [OF r(2)])
    fix k' it
    show "((peekItem root)(k := None)) k' = Some it \<longleftrightarrow> Leaf it ty \<in> entries root' \<and> item_key it = k'"
      using e Some findKey_iff [OF w, of k "Leaf it ty"] 
      by (auto simp: r(3) peekItem_iff [OF assms])
  qed
  moreover have "peekItem root k \<noteq> None" using Some by (simp add: peekItem_def)
  ultimately show ?thesis using r by simp
qed

text \<open>
  C4: deleting a key from a well-formed map keeps it well-formed (inner nodes that would
  hold a single entry are collapsed), reports whether the key was there, and removes that
  key's binding and no other.
\<close>

theorem delItem_refines:
  assumes "wf_map ty root"
  shows "\<exists>root'. delItem k root = (root', peekItem root k \<noteq> None) \<and> wf_map ty root' \<and>
           peekItem root' = (peekItem root)(k := None)"
  using assms by (rule delItem_map)

theorem delItem_refines_witness:
  "\<exists>root'. delItem 5 sample_map = (root', peekItem sample_map 5 \<noteq> None) \<and>
     wf_map TnTRANSACTION_NM root' \<and> peekItem root' = (peekItem sample_map)(5 := None)"
  by (rule delItem_refines [OF sample_map_wf])

text \<open>
  C6: the tree is canonical. Two well-formed maps that answer every lookup alike are the
  same tree, so their root hashes agree under every digest: the identity of a
  transaction set does not depend on the order in which it was built.
\<close>

theorem shamap_canonical:
  assumes "wf_map ty a" "wf_map ty b" "peekItem a = peekItem b"
  shows "a = b \<and> node_hash H a = node_hash H b"
proof -
  have "entries a = entries b"
    by (simp only: entries_peekItem [OF assms(1)] entries_peekItem [OF assms(2)] assms(3))
  moreover have "isInner a = isInner b" using assms by (simp add: wf_map_def)
  ultimately have "a = b"
    using assms wf_same_entries [of ty 0 a b] by (simp add: wf_map_def)
  then show ?thesis by simp
qed

theorem shamap_canonical_witness:
  "\<exists>root'. addGiveItem (sample_item 5) True False (fst (delItem 5 sample_map)) = Inr (root', True) \<and>
     root' = sample_map \<and> node_hash (of_nat \<circ> length) root' = node_hash (of_nat \<circ> length) sample_map"
proof -
  from readd_sample obtain root' where
    r: "addGiveItem (sample_item 5) True False (fst (delItem 5 sample_map)) = Inr (root', True)"
      "wf_map TnTRANSACTION_NM root'" "peekItem root' = peekItem sample_map" by blast
  from shamap_canonical [OF r(2) sample_map_wf r(3), of "of_nat \<circ> length"] r(1) show ?thesis by blast
qed

end
