(* ===== verification/SHAMapDelta.thy ===== *)
theory SHAMapDelta
  imports SHAMap "HOL-Library.Multiset"
begin

text \<open>
  Comparing two maps (\<open>shamap/impl/SHAMapDelta.cpp\<close>): the walk over both trees that
  skips branches with equal hashes, collects the differing items in a table and gives up
  after \<open>maxCount\<close> of them. The explicit stacks of the C++ loops are kept.
\<close>

section \<open>The table of differences\<close>

type_synonym delta_item = "sha_item option \<times> sha_item option"

type_synonym delta = "(uint256, delta_item) ord_map"

text \<open>
  \<open>differences.insert (...)\<close> followed by the test of \<open>--maxCount\<close>; the first
  component tells whether the walk goes on.
\<close>

definition note_diff :: "uint256 \<Rightarrow> delta_item \<Rightarrow> delta \<times> int \<Rightarrow> bool \<times> delta \<times> int" where
  "note_diff k p st = (case st of (d, maxCount) \<Rightarrow> (0 < maxCount - 1, om_insert k p d, maxCount - 1))"

definition diff_sides :: "bool \<Rightarrow> sha_item option \<Rightarrow> sha_item option \<Rightarrow> delta_item" where
  "diff_sides isFirstMap mine other = (if isFirstMap then (mine, other) else (other, mine))"

section \<open>One side only\<close>

definition branches :: "sha_node option list \<Rightarrow> sha_node list" where
  "branches cs = List.map_filter (\<lambda>c. c) cs"

lemma size_branches:
  "sum_list (map size (branches cs)) + length (branches cs) \<le> size_list (size_option size) cs"
  by (induction cs) (auto simp: branches_def List.map_filter_def split: option.splits)

function walkBranchLoop :: "sha_node list \<Rightarrow> sha_item option \<Rightarrow> bool \<Rightarrow> bool \<Rightarrow> delta \<times> int \<Rightarrow>
    bool \<times> delta \<times> int" where
  "walkBranchLoop [] other isFirstMap emptyBranch st =
     (case other of
        Some o' \<Rightarrow> if \<not> emptyBranch
                  then note_diff (item_key o') (diff_sides isFirstMap None (Some o')) st
                  else (True, st)
      | None \<Rightarrow> (True, st))"
| "walkBranchLoop (InnerNode cs # ns) other isFirstMap emptyBranch st =
     walkBranchLoop (rev (branches cs) @ ns) other isFirstMap emptyBranch st"
| "walkBranchLoop (TreeNode leaf # ns) other isFirstMap emptyBranch st =
     (let item = leaf_item leaf
      in if emptyBranch \<or> (case other of None \<Rightarrow> True | Some o' \<Rightarrow> item_key item \<noteq> item_key o') then
           (case note_diff (item_key item) (diff_sides isFirstMap (Some item) None) st of
              (go, st') \<Rightarrow> if go then walkBranchLoop ns other isFirstMap emptyBranch st' else (False, st'))
         else if item_data item \<noteq> item_data (the other) then
           (case note_diff (item_key item) (diff_sides isFirstMap (Some item) other) st of
              (go, st') \<Rightarrow> if go then walkBranchLoop ns other isFirstMap True st' else (False, st'))
         else walkBranchLoop ns other isFirstMap True st)"
  by pat_completeness auto
termination
  by (relation "measure (\<lambda>(ns, _). sum_list (map size ns) + length ns)")
    (auto simp: rev_map [symmetric] intro: le_less_trans [OF size_branches])

definition walkBranch :: "sha_node \<Rightarrow> sha_item option \<Rightarrow> bool \<Rightarrow> delta \<times> int \<Rightarrow> bool \<times> delta \<times> int" where
  "walkBranch node otherMapItem isFirstMap st =
     walkBranchLoop [node] otherMapItem isFirstMap (otherMapItem = None) st"

section \<open>Both sides\<close>

text \<open>
  The sixteen branches of two inner nodes. The result is the stack with the pairs to
  descend into, the last pair on top.
\<close>

fun compareBranches :: "(u8 list \<Rightarrow> uint256) \<Rightarrow> (sha_node option \<times> sha_node option) list \<Rightarrow>
    (sha_node \<times> sha_node) list \<Rightarrow> delta \<times> int \<Rightarrow> bool \<times> (sha_node \<times> sha_node) list \<times> delta \<times> int" where
  "compareBranches H [] stack st = (True, stack, st)"
| "compareBranches H ((ours, other) # bs) stack st =
     (if child_hash H ours \<noteq> child_hash H other then
        (case (ours, other) of
           (Some iNode, None) \<Rightarrow>
             (case walkBranch iNode None True st of
                (go, st') \<Rightarrow> if go then compareBranches H bs stack st' else (False, stack, st'))
         | (None, Some iNode) \<Rightarrow>
             (case walkBranch iNode None False st of
                (go, st') \<Rightarrow> if go then compareBranches H bs stack st' else (False, stack, st'))
         | (Some a, Some b) \<Rightarrow> compareBranches H bs ((a, b) # stack) st
         | (None, None) \<Rightarrow> compareBranches H bs stack st)
      else compareBranches H bs stack st)"

definition pairs_size :: "(sha_node \<times> sha_node) list \<Rightarrow> nat" where
  "pairs_size ps = sum_list (map (size \<circ> fst) ps) + length ps"

lemma compareBranches_size:
  "compareBranches H bs stack st = (go, stack', st') \<Longrightarrow>
     pairs_size stack' \<le> pairs_size stack + size_list (size_option size) (map fst bs)"
proof (induction H bs stack st rule: compareBranches.induct)
  case (2 H ours other bs stack st)
  then show ?case
    by (cases "child_hash H ours = child_hash H other"; cases ours; cases other;
        force simp: pairs_size_def split: prod.splits if_splits)
qed simp

lemma size_list_take: "size_list f (take n xs) \<le> size_list f xs"
  by (induction xs arbitrary: n) (auto simp: take_Cons' add_mono)

lemma compareBranches_less:
  assumes "compareBranches H (zip cs ds) stack st = (go, stack', st')"
  shows "pairs_size stack' < pairs_size ((InnerNode cs, n) # stack)"
proof -
  have "pairs_size stack' \<le> pairs_size stack + size_list (size_option size) (map fst (zip cs ds))"
    by (rule compareBranches_size [OF assms])
  also have "\<dots> \<le> pairs_size stack + size_list (size_option size) cs"
    by (simp add: map_fst_zip_take size_list_take)
  finally show ?thesis by (simp add: pairs_size_def)
qed

lemma pairs_size_Cons: "pairs_size ps < pairs_size (p # ps)"
  by (simp add: pairs_size_def)

function compareLoop :: "(u8 list \<Rightarrow> uint256) \<Rightarrow> (sha_node \<times> sha_node) list \<Rightarrow> delta \<times> int \<Rightarrow>
    bool \<times> delta \<times> int" where
  "compareLoop H [] st = (True, st)"
| "compareLoop H ((TreeNode a, TreeNode b) # stack) st =
     (let ours = leaf_item a; other = leaf_item b
      in if item_key ours = item_key other then
           (if item_data ours \<noteq> item_data other then
              (case note_diff (item_key ours) (Some ours, Some other) st of
                 (go, st') \<Rightarrow> if go then compareLoop H stack st' else (False, st'))
            else compareLoop H stack st)
         else
           (case note_diff (item_key ours) (Some ours, None) st of
              (go, st') \<Rightarrow>
                if go then
                  (case note_diff (item_key other) (None, Some other) st' of
                     (go, st'') \<Rightarrow> if go then compareLoop H stack st'' else (False, st''))
                else (False, st')))"
| "compareLoop H ((InnerNode cs, TreeNode b) # stack) st =
     (case walkBranch (InnerNode cs) (Some (leaf_item b)) True st of
        (go, st') \<Rightarrow> if go then compareLoop H stack st' else (False, st'))"
| "compareLoop H ((TreeNode a, InnerNode ds) # stack) st =
     (case walkBranch (InnerNode ds) (Some (leaf_item a)) False st of
        (go, st') \<Rightarrow> if go then compareLoop H stack st' else (False, st'))"
| "compareLoop H ((InnerNode cs, InnerNode ds) # stack) st =
     (case compareBranches H (zip cs ds) stack st of
        (go, stack', st') \<Rightarrow> if go then compareLoop H stack' st' else (False, st'))"
  by pat_completeness auto
termination
  by (relation "measure (\<lambda>(H, ps, st). pairs_size ps)")
    (auto intro: compareBranches_less [OF sym] simp: pairs_size_Cons)

definition compare :: "(u8 list \<Rightarrow> uint256) \<Rightarrow> sha_node \<Rightarrow> sha_node \<Rightarrow> delta \<Rightarrow> int \<Rightarrow> bool \<times> delta" where
  "compare H root otherRoot differences maxCount =
     (if node_hash H root = node_hash H otherRoot then (True, differences)
      else (case compareLoop H [(root, otherRoot)] (differences, maxCount) of
              (complete, d, _) \<Rightarrow> (complete, d)))"

section \<open>Running notes\<close>

fun note_all :: "(uint256 \<times> delta_item) list \<Rightarrow> delta \<times> int \<Rightarrow> bool \<times> delta \<times> int" where
  "note_all [] st = (True, st)"
| "note_all (x # xs) st =
     (case note_diff (fst x) (snd x) st of (go, st') \<Rightarrow> if go then note_all xs st' else (False, st'))"

lemma note_all_append:
  "note_all (xs @ ys) st = (case note_all xs st of (go, st') \<Rightarrow> if go then note_all ys st' else (False, st'))"
  by (induction xs arbitrary: st) (auto split: prod.splits)

text \<open>
  Noting entries with distinct keys: the table collects all of them unless the limit is
  hit, and then it holds as many as the limit says.
\<close>

lemma om_insert_length: "om_wf m \<Longrightarrow> map_of m k = None \<Longrightarrow> length (om_insert k v m) = Suc (length m)"
  by (induction k v m rule: om_insert.induct) (auto simp: om_wf_def split: if_splits)

lemma note_all_result:
  assumes "note_all xs (d, m) = (go, d', m')" "om_wf d" "distinct (map fst xs)"
    "\<forall>k \<in> fst ` set xs. map_of d k = None" "0 < m"
  shows "om_wf d' \<and> (go \<longleftrightarrow> int (length xs) < m) \<and> map_of d' \<subseteq>\<^sub>m map_of d ++ map_of xs \<and>
    (go \<longrightarrow> map_of d' = map_of d ++ map_of xs) \<and>
    int (length d') = int (length d) + min m (int (length xs))"
  using assms
proof (induction xs arbitrary: d m)
  case (Cons x xs)
  obtain k p where x: "x = (k, p)" by (rule prod.exhaust)
  have k: "map_of d k = None" "map_of xs k = None" using Cons(4,5) by (auto simp: x map_of_eq_None_iff)
  have d1: "om_wf (om_insert k p d)" "map_of (om_insert k p d) = (map_of d)(k \<mapsto> p)"
    "length (om_insert k p d) = Suc (length d)"
    using Cons(3) k by (simp_all add: map_of_om_insert om_insert_length)
  have add: "map_of d ++ map_of (x # xs) = (map_of d)(k \<mapsto> p) ++ map_of xs"
    using k by (auto simp: x map_add_def fun_eq_iff split: option.splits)
  show ?case
  proof (cases "0 < m - 1")
    case True
    then have "note_all xs (om_insert k p d, m - 1) = (go, d', m')"
      using Cons(2) by (simp add: x note_diff_def)
    moreover have "\<forall>k' \<in> fst ` set xs. map_of (om_insert k p d) k' = None"
      using Cons(4,5) by (auto simp: d1 x)
    moreover have "distinct (map fst xs)" using Cons(4) by simp
    ultimately have "om_wf d' \<and> (go \<longleftrightarrow> int (length xs) < m - 1) \<and>
        map_of d' \<subseteq>\<^sub>m map_of (om_insert k p d) ++ map_of xs \<and>
        (go \<longrightarrow> map_of d' = map_of (om_insert k p d) ++ map_of xs) \<and>
        int (length d') = int (length (om_insert k p d)) + min (m - 1) (int (length xs))"
      using Cons(1) [of "om_insert k p d" "m - 1"] d1(1) True by blast
    then show ?thesis unfolding add d1(2,3) by auto
  next
    case False
    then have r: "m = 1" "go = False" "d' = om_insert k p d"
      using Cons(2,6) by (auto simp: x note_diff_def)
    have "dom ((map_of d)(k \<mapsto> p)) \<inter> dom (map_of xs) = {}"
      using k Cons(5) by (auto simp: x dom_map_of_conv_image_fst map_of_eq_None_iff) (metis fst_conv image_eqI)
    then have "(map_of d)(k \<mapsto> p) \<subseteq>\<^sub>m (map_of d)(k \<mapsto> p) ++ map_of xs"
      by (metis map_add_comm map_le_map_add)
    then show ?thesis
      unfolding add r d1(2) by (intro conjI) (simp_all add: d1 del: fun_upd_apply)
  qed
qed simp

section \<open>What differs\<close>

definition look :: "sha_leaf list \<Rightarrow> uint256 \<rightharpoonup> sha_item" where
  "look ls = map_of (map (\<lambda>l. (leaf_key l, leaf_item l)) ls)"

definition ddiff :: "(uint256 \<rightharpoonup> sha_item) \<Rightarrow> (uint256 \<rightharpoonup> sha_item) \<Rightarrow> (uint256 \<times> delta_item) set" where
  "ddiff f g = {(k, f k, g k) | k. f k \<noteq> g k}"

definition sdiff :: "bool \<Rightarrow> (uint256 \<rightharpoonup> sha_item) \<Rightarrow> (uint256 \<rightharpoonup> sha_item) \<Rightarrow> (uint256 \<times> delta_item) set" where
  "sdiff isFirst f g = (if isFirst then ddiff f g else ddiff g f)"

lemma sdiff_iff:
  "x \<in> sdiff isFirst f g \<longleftrightarrow> (\<exists>k. f k \<noteq> g k \<and> x = (k, diff_sides isFirst (f k) (g k)))"
  by (auto simp: sdiff_def ddiff_def diff_sides_def)

lemma look_Nil [simp]: "look [] = Map.empty"
  by (simp add: look_def)

lemma look_Cons [simp]: "look (l # ls) = (look ls)(leaf_key l \<mapsto> leaf_item l)"
  by (simp add: look_def)

lemma look_None: "look ls k = None \<longleftrightarrow> k \<notin> leaf_key ` set ls"
  by (simp add: look_def map_of_eq_None_iff image_image)

lemma look_perm:
  assumes "distinct (map leaf_key xs)" "mset xs = mset ys"
  shows "look xs = look ys"
proof -
  have "distinct (map leaf_key ys)"
    using assms by (metis mset_map mset_eq_imp_distinct_iff)
  moreover have "set xs = set ys" using assms(2) by (rule mset_eq_setD)
  ultimately show ?thesis
    using assms(1) unfolding look_def by (subst map_of_inject_set) (simp_all add: comp_def)
qed

definition item_map :: "sha_item option \<Rightarrow> uint256 \<rightharpoonup> sha_item" where
  "item_map other = (case other of None \<Rightarrow> Map.empty | Some it \<Rightarrow> [item_key it \<mapsto> it])"

lemma mset_branches:
  "mset (concat (map entry_list (rev (branches cs)))) = mset (entry_list (InnerNode cs))"
  by (induction cs) (auto simp: branches_def List.map_filter_def entry_list.simps(2) split: option.splits)

lemma item_eq_iff: "item_key (a :: sha_item) = item_key b \<Longrightarrow> a = b \<longleftrightarrow> item_data a = item_data b"
  by (metis sha_item.equality unit.exhaust)

lemma sdiff_cons:
  assumes "look ls k = None" "k = leaf_key l"
  shows "sdiff fst' (look (l # ls)) g =
    (if g k = Some (leaf_item l) then {} else {(k, diff_sides fst' (Some (leaf_item l)) (g k))}) \<union>
    sdiff fst' (look ls) (g(k := None))"
  using assms by (auto simp: sdiff_iff split: if_splits) 

definition wb_notes :: "sha_node list \<Rightarrow> sha_item option \<Rightarrow> bool \<Rightarrow> bool \<Rightarrow>
    (uint256 \<times> delta_item) list \<Rightarrow> bool" where
  "wb_notes ns other isFirst emptyBranch xs \<longleftrightarrow>
     walkBranchLoop ns other isFirst emptyBranch = note_all xs \<and> distinct (map fst xs) \<and>
     set xs = sdiff isFirst (look (concat (map entry_list ns)))
                (if emptyBranch then Map.empty else item_map other)"

lemma sdiff_fst: "x \<in> sdiff isFirst f g \<Longrightarrow> f (fst x) \<noteq> g (fst x)"
  by (auto simp: sdiff_iff)

lemma walkBranchLoop_notes:
  assumes "distinct (map leaf_key (concat (map entry_list ns)))" "other = None \<longrightarrow> emptyBranch"
  shows "\<exists>xs. wb_notes ns other isFirst emptyBranch xs"
  using assms
proof (induction "sum_list (map size ns) + length ns" arbitrary: ns emptyBranch rule: less_induct)
  case less
  show ?case
  proof (cases ns)
    case Nil
    show ?thesis
    proof (cases "emptyBranch")
      case True
      then show ?thesis using Nil
        by (intro exI [of _ "[]"]) (auto simp: wb_notes_def sdiff_iff fun_eq_iff split: option.splits)
    next
      case False
      with less(3) obtain it where "other = Some it" by auto
      with False Nil show ?thesis
        by (intro exI [of _ "[(item_key it, diff_sides isFirst None (Some it))]"])
          (auto simp: wb_notes_def sdiff_iff item_map_def fun_eq_iff split: prod.splits if_splits)
    qed
  next
    case (Cons n ms)
    show ?thesis
    proof (cases n)
      case (InnerNode cs)
      let ?ns = "rev (branches cs) @ ms"
      have perm: "mset (concat (map entry_list ns)) = mset (concat (map entry_list ?ns))"
        by (simp add: Cons InnerNode mset_branches del: mset_concat mset_map)
      have "sum_list (map size ?ns) + length ?ns < sum_list (map size ns) + length ns"
        using size_branches [of cs] by (simp add: Cons InnerNode rev_map [symmetric])
      moreover have "distinct (map leaf_key (concat (map entry_list ?ns)))"
        using less(2) perm by (metis mset_map mset_eq_imp_distinct_iff)
      ultimately obtain xs where "wb_notes ?ns other isFirst emptyBranch xs"
        using less(1,3) by blast
      moreover have "walkBranchLoop ns other isFirst emptyBranch = walkBranchLoop ?ns other isFirst emptyBranch"
        by (rule ext) (simp add: Cons InnerNode)
      ultimately have "wb_notes ns other isFirst emptyBranch xs"
        unfolding wb_notes_def look_perm [OF less(2) perm] by simp
      then show ?thesis ..
    next
      case (TreeNode l)
      let ?k = "leaf_key l" and ?ls = "concat (map entry_list ms)"
      have smaller: "sum_list (map size ms) + length ms < sum_list (map size ns) + length ns"
        by (simp add: Cons)
      have d: "distinct (map leaf_key ?ls)" and k: "look ?ls ?k = None"
        using less(2) by (auto simp: Cons TreeNode look_None)
      let ?g = "if emptyBranch then Map.empty else item_map other"
      have sd: "sdiff isFirst (look (concat (map entry_list ns))) ?g =
          (if ?g ?k = Some (leaf_item l) then {} else {(?k, diff_sides isFirst (Some (leaf_item l)) (?g ?k))}) \<union>
          sdiff isFirst (look ?ls) (?g(?k := None))"
        using sdiff_cons [OF k refl, of isFirst ?g] by (simp add: Cons TreeNode)
      show ?thesis
      proof (cases "?g ?k")
        case None
        then have c: "emptyBranch \<or> (case other of None \<Rightarrow> True | Some o' \<Rightarrow> ?k \<noteq> item_key o')"
          by (auto simp: item_map_def split: option.splits if_splits)
        from less(1) [OF smaller d less(3)] obtain xs where xs: "wb_notes ms other isFirst emptyBranch xs" ..
        from None have "?g(?k := None) = ?g" by (simp add: fun_upd_idem)
        then have "set ((?k, diff_sides isFirst (Some (leaf_item l)) None) # xs) =
            sdiff isFirst (look (concat (map entry_list ns))) ?g"
          using sd None xs by (simp add: wb_notes_def)
        moreover have "?k \<notin> fst ` set xs"
          using xs None k by (auto simp: wb_notes_def dest: sdiff_fst)
        moreover have "walkBranchLoop ns other isFirst emptyBranch st =
            note_all ((?k, diff_sides isFirst (Some (leaf_item l)) None) # xs) st" for st
          using xs c by (simp add: wb_notes_def Cons TreeNode Let_def split: prod.split)
        ultimately have "wb_notes ns other isFirst emptyBranch ((?k, diff_sides isFirst (Some (leaf_item l)) None) # xs)"
          using xs by (simp add: wb_notes_def ext)
        then show ?thesis ..
      next
        case (Some it)
        then have o: "other = Some it" "\<not> emptyBranch" "item_key it = ?k"
          by (auto simp: item_map_def split: option.splits if_splits)
        from less(1) [OF smaller d, of True] obtain xs where xs: "wb_notes ms other isFirst True xs" by auto
        have "?g(?k := None) = Map.empty" using o by (auto simp: item_map_def)
        moreover have eq: "leaf_item l = it \<longleftrightarrow> item_data (leaf_item l) = item_data it"
          using o(3) by (intro item_eq_iff) simp
        moreover have "?k \<notin> fst ` set xs"
          using xs k by (auto simp: wb_notes_def dest: sdiff_fst)
        moreover have "walkBranchLoop ns other isFirst emptyBranch st = note_all
            (if leaf_item l = it then xs else (?k, diff_sides isFirst (Some (leaf_item l)) other) # xs) st" for st
          using xs o eq by (simp add: wb_notes_def Cons TreeNode Let_def split: prod.split)
        ultimately have "wb_notes ns other isFirst emptyBranch
            (if leaf_item l = it then xs else (?k, diff_sides isFirst (Some (leaf_item l)) other) # xs)"
          using sd xs o Some by (simp add: wb_notes_def ext)
        then show ?thesis ..
      qed
    qed
  qed
qed

section \<open>Pairs of trees\<close>

lemma distinct_concat_indexed:
  assumes "\<And>i. i < length xss \<Longrightarrow> distinct (xss ! i)"
    and "\<And>i x. i < length xss \<Longrightarrow> x \<in> set (xss ! i) \<Longrightarrow> g x = i + (n :: nat)"
  shows "distinct (concat xss)"
  using assms
proof (induction xss arbitrary: n)
  case (Cons xs xss)
  have "distinct (concat xss)"
    using Cons(2) [of "Suc _"] Cons(3) [of "Suc _"] by (intro Cons(1) [of "Suc n"]) auto
  moreover have "g x = n" if "x \<in> set xs" for x using Cons(3) [of 0 x] that by simp
  moreover have "n < g x" if "x \<in> set (concat xss)" for x
  proof -
    from that obtain ys where "ys \<in> set xss" "x \<in> set ys" by auto
    then obtain i where "i < length xss" "x \<in> set (xss ! i)" by (metis in_set_conv_nth)
    then show ?thesis using Cons(3) [of "Suc i" x] by simp
  qed
  ultimately show ?case using Cons(2) [of 0] by fastforce
qed simp

lemma wf_distinct_keys: "wf_node ty d n \<Longrightarrow> distinct (map leaf_key (entry_list n))"
proof (induction n arbitrary: d rule: entry_list.induct)
  case (2 cs)
  have len: "length cs = 16" using 2(2) by (simp add: wf_inner)
  have "distinct (concat (map (\<lambda>c. case c of None \<Rightarrow> [] | Some n \<Rightarrow> map leaf_key (entry_list n)) cs))"
  proof (rule distinct_concat_indexed [of _ "selectBranch d" 0])
    fix i assume i: "i < length (map (\<lambda>c. case c of None \<Rightarrow> [] | Some n \<Rightarrow> map leaf_key (entry_list n)) cs)"
    then have g: "cs ! i = getChild cs i" by (simp add: getChild_def)
    show "distinct (map (\<lambda>c. case c of None \<Rightarrow> [] | Some n \<Rightarrow> map leaf_key (entry_list n)) cs ! i)"
    proof (cases "getChild cs i")
      case (Some c)
      then show ?thesis
        using i g 2(1) [OF getChild_mem refl wf_getChild(1) [OF 2(2)]] by auto
    qed (use i g in simp)
    fix k assume "k \<in> set (map (\<lambda>c. case c of None \<Rightarrow> [] | Some n \<Rightarrow> map leaf_key (entry_list n)) cs ! i)"
    then show "selectBranch d k = i + 0"
      using i g wf_getChild(4) [OF 2(2), of i] by (cases "getChild cs i") auto
  qed
  then show ?case
    by (simp add: entry_list.simps(2) map_concat comp_def option.case_distrib cong: option.case_cong)
qed simp

definition lookn :: "sha_node \<Rightarrow> uint256 \<rightharpoonup> sha_item" where
  "lookn n = look (entry_list n)"

definition looko :: "sha_node option \<Rightarrow> uint256 \<rightharpoonup> sha_item" where
  "looko c = (case c of None \<Rightarrow> Map.empty | Some n \<Rightarrow> lookn n)"

lemma looko_simps [simp]: "looko None = Map.empty" "looko (Some n) = lookn n"
  by (simp_all add: looko_def)

lemma lookn_leaf [simp]: "lookn (TreeNode l) = [leaf_key l \<mapsto> leaf_item l]"
  by (simp add: lookn_def)

lemma lookn_mem: "lookn n k = Some it \<Longrightarrow> \<exists>e \<in> entries n. leaf_key e = k \<and> leaf_item e = it"
  by (auto simp: lookn_def look_def dest!: map_of_SomeD)

lemma lookn_iff:
  assumes "wf_node ty d n"
  shows "lookn n k = Some it \<longleftrightarrow> (\<exists>e \<in> entries n. leaf_key e = k \<and> leaf_item e = it)"
  using wf_distinct_keys [OF assms]
  by (auto simp: lookn_def look_def comp_def image_iff map_of_eq_Some_iff)

lemma lookn_inner:
  assumes "wf_node ty d (InnerNode cs)"
  shows "lookn (InnerNode cs) k = looko (getChild cs (selectBranch d k)) k"
proof (rule option.expand)
  have *: "lookn (InnerNode cs) k = Some it \<longleftrightarrow> looko (getChild cs (selectBranch d k)) k = Some it" for it
  proof -
    have "lookn (InnerNode cs) k = Some it \<longleftrightarrow>
        (\<exists>e \<in> {e \<in> entries (InnerNode cs). selectBranch d (leaf_key e) = selectBranch d k}. leaf_key e = k \<and> leaf_item e = it)"
      unfolding lookn_iff [OF assms] by auto
    also have "\<dots> \<longleftrightarrow> looko (getChild cs (selectBranch d k)) k = Some it"
      unfolding entries_branch [OF assms]
      by (auto simp: lookn_iff [OF wf_getChild(1) [OF assms]] split: option.splits)
    finally show ?thesis .
  qed
  show "(lookn (InnerNode cs) k = None) = (looko (getChild cs (selectBranch d k)) k = None)"
    using * by (metis option.exhaust)
  show "the (lookn (InnerNode cs) k) = the (looko (getChild cs (selectBranch d k)) k)"
    if "lookn (InnerNode cs) k \<noteq> None" "looko (getChild cs (selectBranch d k)) k \<noteq> None"
    using * that by (metis option.collapse)
qed

lemma looko_branch:
  assumes "wf_node ty d (InnerNode cs)" "looko (getChild cs i) k \<noteq> None"
  shows "selectBranch d k = i"
proof -
  from assms(2) obtain n it where n: "getChild cs i = Some n" "lookn n k = Some it"
    by (cases "getChild cs i") auto
  then obtain e where "e \<in> entries n" "leaf_key e = k" using lookn_mem by blast
  then show ?thesis using wf_getChild(4) [OF assms(1) n(1)] by blast
qed

definition dm :: "(uint256 \<rightharpoonup> sha_item) \<Rightarrow> (uint256 \<rightharpoonup> sha_item) \<Rightarrow> (uint256 \<times> delta_item) multiset" where
  "dm f g = mset_set (ddiff f g)"

lemma ddiff_iff: "x \<in> ddiff f g \<longleftrightarrow> f (fst x) \<noteq> g (fst x) \<and> snd x = (f (fst x), g (fst x))"
  by (cases x) (auto simp: ddiff_def)

lemma ddiff_finite: "finite (dom f) \<Longrightarrow> finite (dom g) \<Longrightarrow> finite (ddiff f g)"
proof -
  assume "finite (dom f)" "finite (dom g)"
  moreover have "ddiff f g \<subseteq> (\<lambda>k. (k, f k, g k)) ` (dom f \<union> dom g)"
    by (auto simp: ddiff_def)
  ultimately show ?thesis by (meson finite_Un finite_imageI finite_subset)
qed

lemma finite_dom_lookn [simp]: "finite (dom (lookn n))"
  by (simp add: lookn_def look_def finite_dom_map_of)

lemma finite_dom_looko [simp]: "finite (dom (looko c))"
  by (cases c) simp_all

text \<open>The differences of two inner nodes are those of their branches, branch by branch.\<close>

lemma ddiff_upto:
  assumes "wf_node ty d (InnerNode cs)" "wf_node ty d (InnerNode ds)" "n \<le> 16"
  shows "(\<Sum>i<n. dm (looko (getChild cs i)) (looko (getChild ds i))) =
    mset_set {x \<in> ddiff (lookn (InnerNode cs)) (lookn (InnerNode ds)). selectBranch d (fst x) < n}"
  using assms(3)
proof (induction n)
  case (Suc n)
  let ?D = "ddiff (lookn (InnerNode cs)) (lookn (InnerNode ds))"
  have "selectBranch d k = n" if "looko (getChild cs n) k \<noteq> looko (getChild ds n) k" for k
    using looko_branch [OF assms(1), of n k] looko_branch [OF assms(2), of n k] that by metis
  then have "ddiff (looko (getChild cs n)) (looko (getChild ds n)) = {x \<in> ?D. selectBranch d (fst x) = n}"
    unfolding set_eq_iff mem_Collect_eq ddiff_iff lookn_inner [OF assms(1)] lookn_inner [OF assms(2)]
    by metis
  moreover have "{x \<in> ?D. selectBranch d (fst x) < Suc n} =
      {x \<in> ?D. selectBranch d (fst x) < n} \<union> {x \<in> ?D. selectBranch d (fst x) = n}" by auto
  moreover have "finite ?D" by (rule ddiff_finite) simp_all
  ultimately show ?case
    using Suc by (simp add: dm_def) (subst mset_set_Union, auto)
qed simp

lemma dm_inner:
  assumes "wf_node ty d (InnerNode cs)" "wf_node ty d (InnerNode ds)"
  shows "dm (lookn (InnerNode cs)) (lookn (InnerNode ds)) = (\<Sum>(a, b) \<leftarrow> zip cs ds. dm (looko a) (looko b))"
proof -
  have len: "length cs = 16" "length ds = 16" using assms by (simp_all add: wf_inner)
  have "(\<Sum>(a, b) \<leftarrow> zip cs ds. dm (looko a) (looko b)) =
      (\<Sum>i<16. dm (looko (getChild cs i)) (looko (getChild ds i)))"
    by (simp add: sum_list_sum_nth len getChild_def atLeast0LessThan)
  also have "\<dots> = dm (lookn (InnerNode cs)) (lookn (InnerNode ds))"
    by (simp add: ddiff_upto [OF assms order_refl]) (simp add: dm_def)
  finally show ?thesis ..
qed

section \<open>Separation by hashes\<close>

fun subnodes :: "sha_node \<Rightarrow> sha_node list" where
  "subnodes (TreeNode l) = [TreeNode l]"
| "subnodes (InnerNode cs) =
     InnerNode cs # concat (map (\<lambda>c. case c of None \<Rightarrow> [] | Some n \<Rightarrow> subnodes n) cs)"

text \<open>
  The digest separates two trees: nodes of them with equal hashes are equal, and no node
  below a root has the all-zero hash that stands for an empty branch.
\<close>

definition hash_separates :: "(u8 list \<Rightarrow> uint256) \<Rightarrow> sha_node \<Rightarrow> sha_node \<Rightarrow> bool" where
  "hash_separates H a b \<longleftrightarrow>
     list_all (\<lambda>x. list_all (\<lambda>y. node_hash H x = node_hash H y \<longrightarrow> x = y) (subnodes b)) (subnodes a) \<and>
     list_all (\<lambda>x. node_hash H x \<noteq> 0) (tl (subnodes a)) \<and>
     list_all (\<lambda>x. node_hash H x \<noteq> 0) (tl (subnodes b))"

lemma self_subnode: "n \<in> set (subnodes n)"
  by (cases n) auto

lemma child_subnodes: "Some c \<in> set cs \<Longrightarrow> set (subnodes c) \<subseteq> set (tl (subnodes (InnerNode cs)))"
  by (auto intro!: bexI [of _ "Some c"])

lemma tl_subnodes: "set (tl (subnodes n)) \<subseteq> set (subnodes n)"
  by (cases n) auto

definition branch_separates :: "(u8 list \<Rightarrow> uint256) \<Rightarrow> sha_node option \<Rightarrow> sha_node option \<Rightarrow> bool" where
  "branch_separates H a b \<longleftrightarrow>
     (child_hash H a = child_hash H b \<longrightarrow> a = b) \<and>
     (\<forall>x y. a = Some x \<longrightarrow> b = Some y \<longrightarrow> hash_separates H x y)"

lemma separates_branches:
  assumes "hash_separates H (InnerNode cs) (InnerNode ds)" "(a, b) \<in> set (zip cs ds)"
  shows "branch_separates H a b"
proof -
  have ab: "a \<in> set cs" "b \<in> set ds" using assms(2) by (auto dest: set_zip_leftD set_zip_rightD)
  have x: "set (subnodes x) \<subseteq> set (tl (subnodes (InnerNode cs)))" if "a = Some x" for x
    using child_subnodes ab that by blast
  have y: "set (subnodes y) \<subseteq> set (tl (subnodes (InnerNode ds)))" if "b = Some y" for y
    using child_subnodes ab that by blast
  have inj: "u = v" if "u \<in> set (subnodes (InnerNode cs))" "v \<in> set (subnodes (InnerNode ds))"
      "node_hash H u = node_hash H v" for u v
    using assms(1) that unfolding hash_separates_def list_all_iff by blast
  have nz: "node_hash H u \<noteq> 0" if "u \<in> set (tl (subnodes (InnerNode cs))) \<union> set (tl (subnodes (InnerNode ds)))" for u
    using assms(1) that unfolding hash_separates_def list_all_iff by blast
  have "hash_separates H x y" if "a = Some x" "b = Some y" for x y
    unfolding hash_separates_def list_all_iff
    using x [OF that(1)] y [OF that(2)] inj nz tl_subnodes [of x] tl_subnodes [of y]
      tl_subnodes [of "InnerNode cs"] tl_subnodes [of "InnerNode ds"] by blast
  moreover have "a = b" if eq: "child_hash H a = child_hash H b"
  proof -
    have nza: "node_hash H u \<noteq> 0" if "a = Some u" for u
      using nz x [OF that] self_subnode by blast
    have nzb: "node_hash H v \<noteq> 0" if "b = Some v" for v
      using nz y [OF that] self_subnode by blast
    have "u = v" if "a = Some u" "b = Some v" for u v
    proof (rule inj)
      show "u \<in> set (subnodes (InnerNode cs))"
        using x [OF that(1)] self_subnode tl_subnodes by blast
      show "v \<in> set (subnodes (InnerNode ds))"
        using y [OF that(2)] self_subnode tl_subnodes by blast
      show "node_hash H u = node_hash H v" using eq that by (simp add: child_hash_def)
    qed
    moreover have "child_hash H None = 0" "child_hash H (Some n) = node_hash H n" for n
      by (simp_all add: child_hash_def)
    ultimately show ?thesis
      using eq nza nzb by (metis option.exhaust)
  qed
  ultimately show ?thesis by (simp add: branch_separates_def)
qed

section \<open>The walk reports what differs\<close>

definition pair_sum :: "(sha_node \<times> sha_node) list \<Rightarrow> (uint256 \<times> delta_item) multiset" where
  "pair_sum ps = (\<Sum>(a, b) \<leftarrow> ps. dm (lookn a) (lookn b))"

definition branch_sum :: "(sha_node option \<times> sha_node option) list \<Rightarrow> (uint256 \<times> delta_item) multiset" where
  "branch_sum bs = (\<Sum>(a, b) \<leftarrow> bs. dm (looko a) (looko b))"

lemma dm_refl [simp]: "dm f f = {#}"
  by (simp add: dm_def ddiff_def)

lemma walkBranch_notes:
  assumes "wf_node ty d n"
  shows "\<exists>xs. walkBranch n other isFirst = note_all xs \<and> mset xs =
     (if isFirst then dm (lookn n) (item_map other) else dm (item_map other) (lookn n))"
proof -
  have "distinct (map leaf_key (concat (map entry_list [n])))"
    using wf_distinct_keys [OF assms] by simp
  from walkBranchLoop_notes [OF this, of other "other = None" isFirst] obtain xs where
    xs: "wb_notes [n] other isFirst (other = None) xs" by auto
  then have "mset xs = mset_set (sdiff isFirst (lookn n) (item_map other))"
    by (cases other)
      (simp_all add: wb_notes_def lookn_def item_map_def distinct_map mset_set_set [symmetric])
  moreover have "walkBranch n other isFirst = note_all xs"
    using xs by (simp add: wb_notes_def walkBranch_def fun_eq_iff)
  ultimately show ?thesis by (intro exI [of _ xs]) (simp add: sdiff_def dm_def)
qed

definition cb_notes :: "(u8 list \<Rightarrow> uint256) \<Rightarrow> (sha_node option \<times> sha_node option) list \<Rightarrow>
    (uint256 \<times> delta_item) list \<Rightarrow> (sha_node \<times> sha_node) list \<Rightarrow> bool" where
  "cb_notes H bs xs ps \<longleftrightarrow>
     (\<forall>stack st. \<exists>stack'. compareBranches H bs stack st =
        (fst (note_all xs st), if fst (note_all xs st) then ps @ stack else stack', snd (note_all xs st)))"

lemma cb_notes_skip:
  assumes "cb_notes H bs xs ps" "child_hash H a = child_hash H b \<or> a = None \<and> b = None"
  shows "cb_notes H ((a, b) # bs) xs ps"
  using assms by (auto simp: cb_notes_def)

lemma cb_notes_walk:
  assumes "cb_notes H bs xs ps" "child_hash H a \<noteq> child_hash H b"
    and "(a = Some n \<and> b = None \<and> walkBranch n None True = note_all ys) \<or>
         (a = None \<and> b = Some n \<and> walkBranch n None False = note_all ys)"
  shows "cb_notes H ((a, b) # bs) (ys @ xs) ps"
  unfolding cb_notes_def
proof (intro allI)
  fix stack st
  obtain go st' where r: "note_all ys st = (go, st')" by (rule prod.exhaust)
  from assms(1) obtain stack' where "compareBranches H bs stack st' =
      (fst (note_all xs st'), if fst (note_all xs st') then ps @ stack else stack', snd (note_all xs st'))"
    unfolding cb_notes_def by blast
  with r assms(2,3) show "\<exists>stack'. compareBranches H ((a, b) # bs) stack st =
      (fst (note_all (ys @ xs) st), if fst (note_all (ys @ xs) st) then ps @ stack else stack',
       snd (note_all (ys @ xs) st))"
    by (cases go) (auto simp: note_all_append)
qed

lemma cb_notes_push:
  assumes "cb_notes H bs xs ps" "child_hash H (Some a) \<noteq> child_hash H (Some b)"
  shows "cb_notes H ((Some a, Some b) # bs) xs (ps @ [(a, b)])"
  unfolding cb_notes_def
proof (intro allI)
  fix stack st
  from assms(1) obtain stack' where "compareBranches H bs ((a, b) # stack) st =
      (fst (note_all xs st), if fst (note_all xs st) then ps @ (a, b) # stack else stack', snd (note_all xs st))"
    unfolding cb_notes_def by blast
  with assms(2) show "\<exists>stack'. compareBranches H ((Some a, Some b) # bs) stack st =
      (fst (note_all xs st), if fst (note_all xs st) then (ps @ [(a, b)]) @ stack else stack', snd (note_all xs st))"
    by auto
qed

definition all_wf :: "tn_type \<Rightarrow> nat \<Rightarrow> (sha_node option \<times> sha_node option) list \<Rightarrow> bool" where
  "all_wf ty d bs \<longleftrightarrow> (\<forall>p \<in> set bs. \<forall>n. fst p = Some n \<or> snd p = Some n \<longrightarrow> wf_node ty d n)"

lemma compareBranches_notes:
  assumes "all_wf ty d bs"
  shows "\<exists>xs ps. cb_notes H bs xs ps \<and> mset xs + pair_sum ps \<subseteq># branch_sum bs \<and>
     ((\<forall>p \<in> set bs. branch_separates H (fst p) (snd p)) \<longrightarrow> mset xs + pair_sum ps = branch_sum bs) \<and>
     (\<forall>p \<in> set ps. (Some (fst p), Some (snd p)) \<in> set bs)"
  using assms
proof (induction bs)
  case Nil
  show ?case
    by (intro exI [of _ "[]"]) (simp add: cb_notes_def pair_sum_def branch_sum_def)
next
  case (Cons p bs)
  obtain a b where p: "p = (a, b)" by (rule prod.exhaust)
  from Cons obtain xs ps where IH: "cb_notes H bs xs ps" "mset xs + pair_sum ps \<subseteq># branch_sum bs"
    "(\<forall>p \<in> set bs. branch_separates H (fst p) (snd p)) \<longrightarrow> mset xs + pair_sum ps = branch_sum bs"
    "\<forall>p \<in> set ps. (Some (fst p), Some (snd p)) \<in> set bs"
    by (auto simp: all_wf_def)
  have bs: "branch_sum ((u, v) # bs) = dm (looko u) (looko v) + branch_sum bs" for u v
    by (simp add: branch_sum_def)
  have wf: "wf_node ty d n" if "a = Some n \<or> b = Some n" for n
    using Cons(2) that by (auto simp: all_wf_def p)
  consider "child_hash H a = child_hash H b" 
    | n where "child_hash H a \<noteq> child_hash H b" "a = Some n" "b = None"
    | n where "child_hash H a \<noteq> child_hash H b" "a = None" "b = Some n"
    | x y where "child_hash H a \<noteq> child_hash H b" "a = Some x" "b = Some y"
    by (cases a; cases b) auto
  then show ?case
  proof cases
    case 1
    then have "cb_notes H (p # bs) xs ps" using cb_notes_skip [OF IH(1)] p by blast
    moreover have "branch_separates H a b \<longrightarrow> dm (looko a) (looko b) = {#}"
      using 1 by (auto simp: branch_separates_def)
    ultimately show ?thesis using IH
      by (intro exI [of _ xs] exI [of _ ps]) (auto simp: bs p intro: subset_mset.order_trans [OF _ mset_subset_eq_add_right])
  next
    case (2 n)
    from walkBranch_notes [OF wf, of n None True] 2 obtain ys where
      ys: "walkBranch n None True = note_all ys" "mset ys = dm (lookn n) Map.empty"
      by (auto simp: item_map_def)
    have "cb_notes H (p # bs) (ys @ xs) ps"
      using cb_notes_walk [OF IH(1) 2(1)] 2 ys p by blast
    then show ?thesis using IH 2 ys
      by (intro exI [of _ "ys @ xs"] exI [of _ ps]) (auto simp: bs p add.assoc)
  next
    case (3 n)
    from walkBranch_notes [OF wf, of n None False] 3 obtain ys where
      ys: "walkBranch n None False = note_all ys" "mset ys = dm Map.empty (lookn n)"
      by (auto simp: item_map_def)
    have "cb_notes H (p # bs) (ys @ xs) ps"
      using cb_notes_walk [OF IH(1) 3(1)] 3 ys p by blast
    then show ?thesis using IH 3 ys
      by (intro exI [of _ "ys @ xs"] exI [of _ ps]) (auto simp: bs p add.assoc)
  next
    case (4 x y)
    then have "cb_notes H (p # bs) xs (ps @ [(x, y)])"
      using cb_notes_push [OF IH(1)] p by blast
    moreover have "mset xs + pair_sum (ps @ [(x, y)]) = dm (looko a) (looko b) + (mset xs + pair_sum ps)"
      using 4 by (simp add: pair_sum_def ac_simps)
    ultimately show ?thesis using IH 4
      by (intro exI [of _ xs] exI [of _ "ps @ [(x, y)]"]) (auto simp: bs p)
  qed
qed

definition cl_notes :: "(u8 list \<Rightarrow> uint256) \<Rightarrow> (sha_node \<times> sha_node) list \<Rightarrow> (uint256 \<times> delta_item) list \<Rightarrow> bool" where
  "cl_notes H stack xs \<longleftrightarrow> compareLoop H stack = note_all xs \<and> mset xs \<subseteq># pair_sum stack \<and>
     ((\<forall>p \<in> set stack. hash_separates H (fst p) (snd p)) \<longrightarrow> mset xs = pair_sum stack)"

definition pairs_wf :: "tn_type \<Rightarrow> (sha_node \<times> sha_node) list \<Rightarrow> bool" where
  "pairs_wf ty stack \<longleftrightarrow> (\<forall>p \<in> set stack. \<exists>d. wf_node ty d (fst p) \<and> wf_node ty d (snd p))"

lemma pair_sum_simps [simp]:
  "pair_sum [] = {#}" "pair_sum ((a, b) # ps) = dm (lookn a) (lookn b) + pair_sum ps"
  "pair_sum (ps @ qs) = pair_sum ps + pair_sum qs"
  by (simp_all add: pair_sum_def)

lemma cl_notes_step:
  assumes "cl_notes H stack xs" "mset ys = dm (lookn a) (lookn b)"
    and "\<And>st. compareLoop H ((a, b) # stack) st =
           (case note_all ys st of (go, st') \<Rightarrow> if go then compareLoop H stack st' else (False, st'))"
  shows "cl_notes H ((a, b) # stack) (ys @ xs)"
proof -
  have "compareLoop H ((a, b) # stack) = note_all (ys @ xs)"
    using assms(1,3) by (auto simp: cl_notes_def note_all_append fun_eq_iff split: prod.splits)
  with assms(1,2) show ?thesis by (auto simp: cl_notes_def)
qed

lemma dm_two_leaves:
  assumes "leaf_key a \<noteq> leaf_key b"
  shows "mset [(leaf_key a, Some (leaf_item a), None), (leaf_key b, None, Some (leaf_item b))] =
    dm [leaf_key a \<mapsto> leaf_item a] [leaf_key b \<mapsto> leaf_item b]"
proof -
  have "ddiff [leaf_key a \<mapsto> leaf_item a] [leaf_key b \<mapsto> leaf_item b] =
      set [(leaf_key a, Some (leaf_item a), None), (leaf_key b, None, Some (leaf_item b))]"
    using assms by (auto simp: ddiff_def)
  then show ?thesis using assms by (simp add: dm_def)
qed

lemma dm_same_key:
  assumes "leaf_key a = leaf_key b"
  shows "dm [leaf_key a \<mapsto> leaf_item a] [leaf_key b \<mapsto> leaf_item b] =
    mset (if item_data (leaf_item a) = item_data (leaf_item b) then []
          else [(leaf_key a, Some (leaf_item a), Some (leaf_item b))])"
proof -
  have "leaf_item a = leaf_item b \<longleftrightarrow> item_data (leaf_item a) = item_data (leaf_item b)"
    using assms by (rule item_eq_iff)
  then have "ddiff [leaf_key a \<mapsto> leaf_item a] [leaf_key b \<mapsto> leaf_item b] =
      set (if item_data (leaf_item a) = item_data (leaf_item b) then []
          else [(leaf_key a, Some (leaf_item a), Some (leaf_item b))])"
    using assms by (auto simp: ddiff_def)
  then show ?thesis by (simp add: dm_def)
qed

lemma note_all_go: "int (length xs) < m \<Longrightarrow> fst (note_all xs (d, m))"
  by (induction xs arbitrary: d m) (auto simp: note_diff_def)

lemma cb_notes_go:
  assumes "cb_notes H bs ys qs" "note_all ys st = (True, st')"
  shows "compareBranches H bs stack st = (True, qs @ stack, st')"
proof -
  from assms(1) obtain stack' where "compareBranches H bs stack st =
      (fst (note_all ys st), if fst (note_all ys st) then qs @ stack else stack', snd (note_all ys st))"
    unfolding cb_notes_def by blast
  then show ?thesis using assms(2) by simp
qed

lemma cl_notes_inner:
  assumes "cb_notes H (zip cs ds) ys qs" "mset ys + pair_sum qs \<subseteq># branch_sum (zip cs ds)"
    "(\<forall>p \<in> set (zip cs ds). branch_separates H (fst p) (snd p)) \<longrightarrow> mset ys + pair_sum qs = branch_sum (zip cs ds)"
    "\<forall>p \<in> set qs. (Some (fst p), Some (snd p)) \<in> set (zip cs ds)"
    and zs: "cl_notes H (qs @ ps) zs" and "branch_sum (zip cs ds) = dm (lookn (InnerNode cs)) (lookn (InnerNode ds))"
  shows "cl_notes H ((InnerNode cs, InnerNode ds) # ps) (ys @ zs)"
proof -
  have "compareLoop H ((InnerNode cs, InnerNode ds) # ps) st = note_all (ys @ zs) st" for st
  proof -
    obtain go st' where r: "note_all ys st = (go, st')" by (rule prod.exhaust)
    from assms(1) obtain stack' where "compareBranches H (zip cs ds) ps st =
        (go, if go then qs @ ps else stack', st')"
      unfolding cb_notes_def using r by (metis fst_conv snd_conv)
    then show ?thesis using r zs by (simp add: cl_notes_def note_all_append)
  qed
  moreover have "mset (ys @ zs) \<subseteq># pair_sum ((InnerNode cs, InnerNode ds) # ps)"
  proof -
    have "mset zs \<subseteq># pair_sum qs + pair_sum ps" using zs by (simp add: cl_notes_def)
    then have "mset ys + mset zs \<subseteq># (mset ys + pair_sum qs) + pair_sum ps" by (simp add: add.assoc)
    also have "\<dots> \<subseteq># branch_sum (zip cs ds) + pair_sum ps" using assms(2) by simp
    finally show ?thesis by (simp add: assms(6))
  qed
  moreover have "mset (ys @ zs) = pair_sum ((InnerNode cs, InnerNode ds) # ps)"
    if sep: "hash_separates H (InnerNode cs) (InnerNode ds)" "\<forall>p \<in> set ps. hash_separates H (fst p) (snd p)"
  proof -
    have b: "branch_separates H (fst q) (snd q)" if "q \<in> set (zip cs ds)" for q
      using separates_branches [OF sep(1), of "fst q" "snd q"] that by simp
    then have "mset ys + pair_sum qs = branch_sum (zip cs ds)" using assms(3) by blast
    moreover have "hash_separates H (fst q) (snd q)" if "q \<in> set qs" for q
      using b [of "(Some (fst q), Some (snd q))"] assms(4) that by (simp add: branch_separates_def)
    then have "mset zs = pair_sum qs + pair_sum ps"
      using zs sep(2) by (auto simp: cl_notes_def)
    ultimately show ?thesis by (simp add: assms(6) [symmetric] add.assoc)
  qed
  ultimately show ?thesis by (auto simp: cl_notes_def)
qed

lemma compareLoop_notes:
  assumes "pairs_wf ty stack"
  shows "\<exists>xs. cl_notes H stack xs"
  using assms
proof (induction "pairs_size stack" arbitrary: stack rule: less_induct)
  case less
  show ?case
  proof (cases stack)
    case Nil
    then show ?thesis by (intro exI [of _ "[]"]) (auto simp: cl_notes_def fun_eq_iff)
  next
    case (Cons p ps)
    obtain a b where p: "p = (a, b)" by (rule prod.exhaust)
    from less(2) obtain d where wf: "wf_node ty d a" "wf_node ty d b"
      by (auto simp: pairs_wf_def Cons p)
    have "pairs_wf ty ps" using less(2) by (simp add: pairs_wf_def Cons)
    with less(1) obtain xs where xs: "cl_notes H ps xs"
      by (metis Cons pairs_size_Cons)
    have "\<exists>xs. cl_notes H ((a, b) # ps) xs"
    proof (cases a; cases b)
      fix l m assume ab: "a = TreeNode l" "b = TreeNode m"
      show ?thesis
      proof (cases "leaf_key l = leaf_key m")
        case True
        show ?thesis
          by (rule exI, rule cl_notes_step [OF xs dm_same_key [OF True, symmetric, folded lookn_leaf ab]])
            (simp add: ab True Let_def split: prod.split)
      next
        case False
        show ?thesis
          by (rule exI, rule cl_notes_step [OF xs dm_two_leaves [OF False, folded lookn_leaf ab]])
            (simp add: ab False Let_def split: prod.split)
      qed
    next
      fix l ds assume ab: "a = TreeNode l" "b = InnerNode ds"
      from walkBranch_notes [OF wf(2), of "Some (leaf_item l)" False] obtain ys where
        ys: "walkBranch b (Some (leaf_item l)) False = note_all ys" "mset ys = dm (lookn a) (lookn b)"
        by (auto simp: item_map_def ab)
      show ?thesis
        by (rule exI, rule cl_notes_step [OF xs ys(2)]) (use ys(1) in \<open>simp add: ab\<close>)
    next
      fix cs m assume ab: "a = InnerNode cs" "b = TreeNode m"
      from walkBranch_notes [OF wf(1), of "Some (leaf_item m)" True] obtain ys where
        ys: "walkBranch a (Some (leaf_item m)) True = note_all ys" "mset ys = dm (lookn a) (lookn b)"
        by (auto simp: item_map_def ab)
      show ?thesis
        by (rule exI, rule cl_notes_step [OF xs ys(2)]) (use ys(1) in \<open>simp add: ab\<close>)
    next
      fix cs ds assume ab: "a = InnerNode cs" "b = InnerNode ds"
      have w: "wf_node ty (Suc d) n" if "Some n \<in> set cs \<or> Some n \<in> set ds" for n
        using that wf wf_getChild(1) unfolding ab getChild_def in_set_conv_nth by metis
      then have "all_wf ty (Suc d) (zip cs ds)"
        by (auto simp: all_wf_def dest: set_zip_leftD set_zip_rightD)
      from compareBranches_notes [OF this, of H] obtain ys qs where
        ys: "cb_notes H (zip cs ds) ys qs" "mset ys + pair_sum qs \<subseteq># branch_sum (zip cs ds)"
          "(\<forall>p \<in> set (zip cs ds). branch_separates H (fst p) (snd p)) \<longrightarrow> mset ys + pair_sum qs = branch_sum (zip cs ds)"
          "\<forall>p \<in> set qs. (Some (fst p), Some (snd p)) \<in> set (zip cs ds)" by blast
      have bsum: "branch_sum (zip cs ds) = dm (lookn a) (lookn b)"
        using dm_inner [OF wf [unfolded ab]] by (simp add: branch_sum_def ab)
      have "\<exists>zs. cl_notes H (qs @ ps) zs"
      proof (rule less(1))
        have "fst (note_all ys ([], int (length ys) + 1))" by (rule note_all_go) simp
        then obtain st' where "note_all ys ([], int (length ys) + 1) = (True, st')"
          by (cases "note_all ys ([], int (length ys) + 1)") simp
        then have "compareBranches H (zip cs ds) ps ([], int (length ys) + 1) = (True, qs @ ps, st')"
          by (rule cb_notes_go [OF ys(1)])
        from compareBranches_less [OF this] show "pairs_size (qs @ ps) < pairs_size stack"
          by (simp only: Cons p ab)
        have "wf_node ty (Suc d) (fst q) \<and> wf_node ty (Suc d) (snd q)" if "q \<in> set qs" for q
          using ys(4) that w by (meson set_zip_leftD set_zip_rightD)
        with \<open>pairs_wf ty ps\<close> show "pairs_wf ty (qs @ ps)"
          unfolding pairs_wf_def by auto
      qed
      then obtain zs where zs: "cl_notes H (qs @ ps) zs" ..
      from cl_notes_inner [OF ys(1-4) zs bsum [unfolded ab]] show ?thesis unfolding ab ..
    qed
    then show ?thesis by (simp add: Cons p)
  qed
qed

section \<open>Correctness of the comparison\<close>

lemma lookn_peekItem:
  assumes "wf_map ty root"
  shows "lookn root = peekItem root"
proof (rule peekItem_eqI [OF assms, symmetric])
  fix k it
  have w: "wf_node ty 0 root" using assms by (simp add: wf_map_def)
  show "lookn root k = Some it \<longleftrightarrow> Leaf it ty \<in> entries root \<and> item_key it = k"
    unfolding lookn_iff [OF w] using wf_leaf_type [OF w] by (metis sha_leaf.collapse sha_leaf.sel(1))
qed

definition differing :: "sha_node \<Rightarrow> sha_node \<Rightarrow> uint256 set" where
  "differing a b = {k. peekItem a k \<noteq> peekItem b k}"

lemma ddiff_map:
  assumes "set xs \<subseteq> ddiff f g" "distinct xs"
  shows "distinct (map fst xs)" "map_of xs k = Some p \<Longrightarrow> f k \<noteq> g k \<and> p = (f k, g k)"
    "set xs = ddiff f g \<Longrightarrow> map_of xs k = (if f k = g k then None else Some (f k, g k))"
proof -
  have mem: "x \<in> set xs \<Longrightarrow> f (fst x) \<noteq> g (fst x) \<and> snd x = (f (fst x), g (fst x))" for x
    using assms(1) by (auto simp only: ddiff_iff subset_iff)
  have "inj_on fst (set xs)"
  proof (rule inj_onI)
    fix x y assume "x \<in> set xs" "y \<in> set xs" "fst x = fst y"
    with mem [of x] mem [of y] show "x = y" by (simp add: prod_eq_iff)
  qed
  with assms(2) show d: "distinct (map fst xs)" by (simp add: distinct_map)
  show "map_of xs k = Some p \<Longrightarrow> f k \<noteq> g k \<and> p = (f k, g k)"
    using mem [of "(k, p)"] by (auto dest: map_of_SomeD)
  show "map_of xs k = (if f k = g k then None else Some (f k, g k))" if "set xs = ddiff f g"
  proof (cases "f k = g k")
    case True
    then show ?thesis using mem by (auto simp: map_of_eq_None_iff)
  next
    case False
    then have "(k, f k, g k) \<in> set xs" using that by (simp add: ddiff_iff)
    with False d show ?thesis by simp
  qed
qed

lemma card_ddiff: "card (ddiff f g) = card {k. f k \<noteq> g k}"
proof -
  have "ddiff f g = (\<lambda>k. (k, f k, g k)) ` {k. f k \<noteq> g k}" by (auto simp: ddiff_def)
  then show ?thesis by (simp add: card_image inj_on_def)
qed

lemma compare_notes:
  assumes "wf_map ty a" "wf_map ty b"
  shows "\<exists>xs. compareLoop H [(a, b)] = note_all xs \<and> distinct xs \<and>
    set xs \<subseteq> ddiff (peekItem a) (peekItem b) \<and>
    (hash_separates H a b \<longrightarrow> set xs = ddiff (peekItem a) (peekItem b))"
proof -
  have "pairs_wf ty [(a, b)]" using assms by (auto simp: pairs_wf_def wf_map_def)
  then obtain xs where xs: "cl_notes H [(a, b)] xs" using compareLoop_notes by blast
  let ?D = "ddiff (peekItem a) (peekItem b)"
  have dm: "pair_sum [(a, b)] = mset_set ?D"
    by (simp add: dm_def lookn_peekItem [OF assms(1)] lookn_peekItem [OF assms(2)])
  have fin: "finite ?D"
    using ddiff_finite [OF finite_dom_lookn [of a] finite_dom_lookn [of b]]
    by (simp add: lookn_peekItem [OF assms(1)] lookn_peekItem [OF assms(2)])
  have le: "mset xs \<subseteq># mset_set ?D" using xs dm by (simp add: cl_notes_def)
  have "distinct xs"
  proof -
    have "count (mset xs) x \<le> 1" for x
      by (rule order_trans [OF mset_subset_eq_count [OF le]]) (simp add: count_mset_set')
    moreover have "x \<in> set xs \<longleftrightarrow> 0 < count (mset xs) x" for x by simp
    ultimately show ?thesis unfolding distinct_count_atmost_1
      by (metis One_nat_def Suc_leI less_numeral_extra(1) linorder_not_less nle_le not_gr_zero)
  qed
  moreover have "set xs \<subseteq> ?D" using set_mset_mono [OF le] fin by simp
  moreover have "set xs = ?D" if "hash_separates H a b"
  proof -
    have "mset xs = mset_set ?D" using xs that dm by (simp add: cl_notes_def)
    then have "set_mset (mset xs) = set_mset (mset_set ?D)" by simp
    then show ?thesis using fin by simp
  qed
  ultimately show ?thesis using xs by (auto simp: cl_notes_def)
qed

text \<open>Every entry of the table is a true difference, whatever the digest does.\<close>

lemma compare_sound:
  assumes "wf_map ty a" "wf_map ty b" "compare H a b [] m = (complete, d)" "0 < m"
  shows "om_wf d" "map_of d k = Some p \<Longrightarrow> peekItem a k \<noteq> peekItem b k \<and> p = (peekItem a k, peekItem b k)"
proof -
  have "om_wf d \<and> (map_of d k = Some p \<longrightarrow> peekItem a k \<noteq> peekItem b k \<and> p = (peekItem a k, peekItem b k))"
  proof (cases "node_hash H a = node_hash H b")
    case True
    then show ?thesis using assms(3) by (auto simp: compare_def)
  next
    case False
    from compare_notes [OF assms(1,2), of H] obtain xs where
      xs: "compareLoop H [(a, b)] = note_all xs" "distinct xs" "set xs \<subseteq> ddiff (peekItem a) (peekItem b)" by blast
    obtain go d' m' where r: "note_all xs ([], m) = (go, d', m')" by (metis prod.exhaust)
    note dd = ddiff_map [OF xs(3,2)]
    have "d = d'" using False assms(3) xs(1) r by (simp add: compare_def)
    with note_all_result [OF r om_wf_Nil dd(1) _ assms(4)] have "om_wf d" "map_of d \<subseteq>\<^sub>m map_of xs" by auto
    then show ?thesis using dd(2) [of k p] by (auto simp: map_le_def dom_def)
  qed
  then show "om_wf d" "map_of d k = Some p \<Longrightarrow> peekItem a k \<noteq> peekItem b k \<and> p = (peekItem a k, peekItem b k)"
    by blast+
qed

text \<open>
  C3: when the digest separates the two trees, comparing them finds exactly the keys bound
  differently. The comparison is complete iff there are fewer differences than the limit;
  then the table binds each differing key to both sides' items and nothing else, and
  otherwise it holds as many true differences as the limit allows.
\<close>

theorem compare_exact:
  assumes "wf_map ty a" "wf_map ty b" "hash_separates H a b" "0 < maxCount"
    and "compare H a b [] maxCount = (complete, d)"
  shows "(complete \<longleftrightarrow> int (card (differing a b)) < maxCount) \<and>
    (complete \<longrightarrow> map_of d = (\<lambda>k. if peekItem a k = peekItem b k then None
                                   else Some (peekItem a k, peekItem b k))) \<and>
    (\<forall>k p. map_of d k = Some p \<longrightarrow> k \<in> differing a b \<and> p = (peekItem a k, peekItem b k)) \<and>
    int (length d) = min maxCount (int (card (differing a b)))"
proof (cases "node_hash H a = node_hash H b")
  case True
  have "a = b" using assms(3) True self_subnode [of a] self_subnode [of b]
    unfolding hash_separates_def list_all_iff by blast
  then show ?thesis using assms(4,5) True by (simp add: compare_def differing_def)
next
  case False
  from compare_notes [OF assms(1,2), of H] assms(3) obtain xs where
    xs: "compareLoop H [(a, b)] = note_all xs" "distinct xs" "set xs = ddiff (peekItem a) (peekItem b)" by blast
  obtain go d' m' where r: "note_all xs ([], maxCount) = (go, d', m')" by (metis prod.exhaust)
  have c: "complete = go" "d = d'" using False assms(5) xs(1) r by (simp_all add: compare_def)
  note dd = ddiff_map [OF eq_refl [OF xs(3)] xs(2)]
  have len: "length xs = card (differing a b)"
    using xs(2,3) card_ddiff [of "peekItem a" "peekItem b"] by (metis differing_def distinct_card)
  have all: "map_of xs = (\<lambda>k. if peekItem a k = peekItem b k then None else Some (peekItem a k, peekItem b k))"
    using dd(3) [OF xs(3)] by blast
  have res: "go \<longleftrightarrow> int (length xs) < maxCount" "go \<longrightarrow> map_of d' = map_of xs"
      "int (length d') = min maxCount (int (length xs))"
    using note_all_result [OF r om_wf_Nil dd(1) _ assms(4)] by simp_all
  have "\<forall>k p. map_of d' k = Some p \<longrightarrow> k \<in> differing a b \<and> p = (peekItem a k, peekItem b k)"
    using compare_sound(2) [OF assms(1,2,5,4)] unfolding differing_def c(2) by blast
  then show ?thesis using res unfolding c len all by blast
qed

lemma noChildren_list:
  "noChildren = [None, None, None, None, None, None, None, None,
                 None, None, None, None, None, None, None, None]"
  by (simp add: noChildren_def eval_nat_numeral)

theorem compare_exact_witness:
  "wf_map TnTRANSACTION_NM sample_map \<and> wf_map TnTRANSACTION_NM emptySHAMap \<and>
   hash_separates (of_nat \<circ> length) sample_map emptySHAMap \<and>
   (fst (compare (of_nat \<circ> length) sample_map emptySHAMap [] 65536) \<longleftrightarrow>
      int (card (differing sample_map emptySHAMap)) < 65536)"
proof -
  let ?H = "of_nat \<circ> length :: u8 list \<Rightarrow> uint256"
  have e: "wf_map TnTRANSACTION_NM emptySHAMap" by (simp add: wf_map_def emptySHAMap_def)
  have "length (uint256_bytes k) = 32" for k by (simp add: uint256_bytes_def)
  then have h: "hash_separates ?H sample_map emptySHAMap"
    by (simp add: hash_separates_def sample_map_def emptySHAMap_def noChildren_list getBranchCount_def
        hashPrefix_def sample_item_def)
  obtain c d where r: "compare ?H sample_map emptySHAMap [] 65536 = (c, d)" by (rule prod.exhaust)
  show ?thesis
    using compare_exact [OF sample_map_wf e h _ r] sample_map_wf e h r by simp
qed

end
