(* ===== verification/TxSet.thy ===== *)
theory TxSet
  imports SHAMapDelta
begin

text \<open>
  Transaction sets. \<open>txset_ops\<close> is what the consensus template asks of its set type
  and the locale \<open>tx_set\<close> what it relies on; \<open>CCLTxSet\<close>
  (\<open>app/consensus/CCLCxTx.h\<close>), the hash tree wrapped as such a set, provides it.
\<close>

section \<open>The interface\<close>

record ('s, 'x) txset_ops =
  ts_id :: "'s \<Rightarrow> uint256"
  ts_txid :: "'x \<Rightarrow> uint256"
  ts_exists :: "'s \<Rightarrow> uint256 \<Rightarrow> bool"
  ts_find :: "'s \<Rightarrow> uint256 \<Rightarrow> 'x option"
  ts_compare :: "'s \<Rightarrow> 's \<Rightarrow> (uint256, bool) ord_map res"
  ts_insert :: "'x \<Rightarrow> 's \<Rightarrow> 's res"
  ts_erase :: "uint256 \<Rightarrow> 's \<Rightarrow> 's"

text \<open>
  \<open>ok\<close> marks the sets and \<open>okx\<close> the transactions the laws are about. A comparison
  may leave differences out, but what it reports differs.
\<close>

locale tx_set =
  fixes ops :: "('s, 'x) txset_ops" and ok :: "'s \<Rightarrow> bool" and okx :: "'x \<Rightarrow> bool"
  assumes find_exists: "ok s \<Longrightarrow> ts_exists ops s k \<longleftrightarrow> ts_find ops s k \<noteq> None"
    and find_ok: "ok s \<Longrightarrow> ts_find ops s k = Some x \<Longrightarrow> okx x \<and> ts_txid ops x = k"
    and insert_ok: "ok s \<Longrightarrow> okx x \<Longrightarrow> \<exists>s'. ts_insert ops x s = Inr s' \<and> ok s' \<and>
          (\<forall>k. ts_exists ops s' k \<longleftrightarrow> k = ts_txid ops x \<or> ts_exists ops s k)"
    and erase_ok: "ok s \<Longrightarrow> ok (ts_erase ops j s) \<and>
          (\<forall>k. ts_exists ops (ts_erase ops j s) k \<longleftrightarrow> k \<noteq> j \<and> ts_exists ops s k)"
    and compare_ok: "ok s \<Longrightarrow> ok t \<Longrightarrow> \<exists>d. ts_compare ops s t = Inr d \<and> distinct (map fst d) \<and>
          (\<forall>(k, inThisSet) \<in> set d. ts_exists ops s k = inThisSet \<and> ts_exists ops t k = (\<not> inThisSet))"
    and id_ok: "ok s \<Longrightarrow> ok t \<Longrightarrow> (\<And>k. ts_exists ops s k = ts_exists ops t k) \<Longrightarrow> ts_id ops s = ts_id ops t"
begin

lemma insert_erase_id:
  assumes "ok s" "okx x" "\<not> ts_exists ops s (ts_txid ops x)" "ts_insert ops x s = Inr s'"
  shows "ts_id ops (ts_erase ops (ts_txid ops x) s') = ts_id ops s"
proof -
  from insert_ok [OF assms(1,2)] assms(4) have s': "ok s'"
    "\<And>k. ts_exists ops s' k \<longleftrightarrow> k = ts_txid ops x \<or> ts_exists ops s k" by auto
  show ?thesis
    by (rule id_ok) (use erase_ok [OF s'(1)] s'(2) assms(1,3) in auto)
qed

lemma build_ok:
  assumes "ok s" "list_all okx xs"
  shows "\<exists>s'. rfold (ts_insert ops) xs s = Inr s' \<and> ok s' \<and>
    (\<forall>k. ts_exists ops s' k \<longleftrightarrow> k \<in> ts_txid ops ` set xs \<or> ts_exists ops s k)"
  using assms
proof (induction xs arbitrary: s)
  case (Cons x xs)
  from insert_ok [OF Cons(2), of x] Cons(3) obtain t where t: "ts_insert ops x s = Inr t" "ok t"
    "\<forall>k. ts_exists ops t k \<longleftrightarrow> k = ts_txid ops x \<or> ts_exists ops s k" by auto
  with Cons(1) [OF t(2)] Cons(3) show ?case by (auto simp: rbind_def)
qed simp

lemma build_id:
  assumes "ok s" "list_all okx xs" "list_all okx ys" "ts_txid ops ` set xs = ts_txid ops ` set ys"
  shows "\<exists>a b. rfold (ts_insert ops) xs s = Inr a \<and> rfold (ts_insert ops) ys s = Inr b \<and>
    ts_id ops a = ts_id ops b"
proof -
  from build_ok [OF assms(1,2)] obtain a where a: "rfold (ts_insert ops) xs s = Inr a" "ok a"
    "\<forall>k. ts_exists ops a k \<longleftrightarrow> k \<in> ts_txid ops ` set xs \<or> ts_exists ops s k" by blast
  from build_ok [OF assms(1,3)] obtain b where b: "rfold (ts_insert ops) ys s = Inr b" "ok b"
    "\<forall>k. ts_exists ops b k \<longleftrightarrow> k \<in> ts_txid ops ` set ys \<or> ts_exists ops s k" by blast
  have "ts_id ops a = ts_id ops b" by (rule id_ok [OF a(2) b(2)]) (simp add: a(3) b(3) assms(4))
  with a b show ?thesis by blast
qed

end

section \<open>The wrapped hash tree\<close>

record ccl_cx_tx =
  cx_tx :: sha_item

definition CCLCxTx_id :: "ccl_cx_tx \<Rightarrow> uint256" where
  "CCLCxTx_id t = item_key (cx_tx t)"

definition CCLTxSet_insert :: "ccl_cx_tx \<Rightarrow> sha_node \<Rightarrow> (sha_node \<times> bool) res" where
  "CCLTxSet_insert t m =
     addGiveItem \<lparr>item_key = CCLCxTx_id t, item_data = item_data (cx_tx t)\<rparr> True False m"

definition CCLTxSet_erase :: "uint256 \<Rightarrow> sha_node \<Rightarrow> sha_node \<times> bool" where
  "CCLTxSet_erase entry m = delItem entry m"

definition CCLTxSet_exists :: "sha_node \<Rightarrow> uint256 \<Rightarrow> bool" where
  "CCLTxSet_exists m entry = hasItem m entry"

definition CCLTxSet_find :: "sha_node \<Rightarrow> uint256 \<Rightarrow> sha_item option" where
  "CCLTxSet_find m entry = peekItem m entry"

definition CCLTxSet_id :: "(u8 list \<Rightarrow> uint256) \<Rightarrow> sha_node \<Rightarrow> uint256" where
  "CCLTxSet_id H m = node_hash H m"

text \<open>The body of the loop over the differences in \<open>compare\<close>.\<close>

definition noteItem :: "uint256 \<times> delta_item \<Rightarrow> (uint256, bool) ord_map \<Rightarrow> (uint256, bool) ord_map res" where
  "noteItem item ret =
     (let first = fst (snd item); second = snd (snd item)
      in rassert ((first \<noteq> None \<and> second = None) \<or> (second \<noteq> None \<and> first = None)) ''compare''
           (Inr (om_put (fst item) (first \<noteq> None) ret)))"

definition CCLTxSet_compare :: "(u8 list \<Rightarrow> uint256) \<Rightarrow> sha_node \<Rightarrow> sha_node \<Rightarrow>
    (uint256, bool) ord_map res" where
  "CCLTxSet_compare H m j = rfold noteItem (snd (compare H m j [] 65536)) []"

text \<open>
  The engine's view of these operations: it drops the success flags of \<open>insert\<close> and
  \<open>erase\<close> and wraps what \<open>find\<close> points to as a transaction.
\<close>

definition ccl_ops :: "(u8 list \<Rightarrow> uint256) \<Rightarrow> (sha_node, ccl_cx_tx) txset_ops" where
  "ccl_ops H = \<lparr>ts_id = CCLTxSet_id H, ts_txid = CCLCxTx_id, ts_exists = CCLTxSet_exists,
     ts_find = (\<lambda>m k. map_option ccl_cx_tx.make (CCLTxSet_find m k)), ts_compare = CCLTxSet_compare H,
     ts_insert = (\<lambda>t m. rbind (CCLTxSet_insert t m) (\<lambda>(m', _). Inr m')),
     ts_erase = (\<lambda>k m. fst (CCLTxSet_erase k m))\<rparr>"

section \<open>The wrapped tree keeps the contract\<close>

text \<open>
  \<open>U\<close> tells which transaction an identifier names: a well-formed transaction set holds
  only such transactions, so two sets never bind one identifier to different data.
\<close>

definition ccl_ok :: "(uint256 \<rightharpoonup> sha_item) \<Rightarrow> sha_node \<Rightarrow> bool" where
  "ccl_ok U m \<longleftrightarrow> wf_map TnTRANSACTION_NM m \<and>
     list_all (\<lambda>e. U (leaf_key e) = Some (leaf_item e) \<and> 12 \<le> length (item_data (leaf_item e))) (entry_list m)"

definition ccl_okx :: "(uint256 \<rightharpoonup> sha_item) \<Rightarrow> ccl_cx_tx \<Rightarrow> bool" where
  "ccl_okx U t \<longleftrightarrow> U (CCLCxTx_id t) = Some (cx_tx t) \<and> 12 \<le> length (item_data (cx_tx t))"

lemma peekItem_key: "wf_map ty m \<Longrightarrow> peekItem m k = Some it \<Longrightarrow> item_key it = k"
  by (simp add: peekItem_iff)

lemma ccl_ok_iff:
  "ccl_ok U m \<longleftrightarrow> wf_map TnTRANSACTION_NM m \<and>
     (\<forall>k it. peekItem m k = Some it \<longrightarrow> U k = Some it \<and> 12 \<le> length (item_data it))"
proof (cases "wf_map TnTRANSACTION_NM m")
  case True
  let ?P = "\<lambda>k it. U k = Some it \<and> 12 \<le> length (item_data it)"
  have "(\<forall>e \<in> entries m. ?P (leaf_key e) (leaf_item e)) \<longleftrightarrow> (\<forall>k it. peekItem m k = Some it \<longrightarrow> ?P k it)"
  proof (intro iffI allI ballI impI)
    fix k it assume "\<forall>e \<in> entries m. ?P (leaf_key e) (leaf_item e)" "peekItem m k = Some it"
    then show "?P k it" unfolding peekItem_iff [OF True] by force
  next
    fix e assume P: "\<forall>k it. peekItem m k = Some it \<longrightarrow> ?P k it" and e: "e \<in> entries m"
    have "leaf_type e = TnTRANSACTION_NM" using wf_leaf_type True e unfolding wf_map_def by blast
    then have "peekItem m (leaf_key e) = Some (leaf_item e)"
      unfolding peekItem_iff [OF True] using e by (metis sha_leaf.collapse)
    then show "?P (leaf_key e) (leaf_item e)" using P by blast
  qed
  then show ?thesis by (simp add: ccl_ok_def list_all_iff True)
qed (simp add: ccl_ok_def)

lemma item_make: "\<lparr>item_key = item_key it, item_data = item_data it\<rparr> = (it :: sha_item)"
  by simp

lemma exists_peekItem: "CCLTxSet_exists m k \<longleftrightarrow> peekItem m k \<noteq> None"
  by (simp add: CCLTxSet_exists_def hasItem_def peekItem_def)

lemma ccl_insert:
  assumes "ccl_ok U m" "ccl_okx U t"
  shows "\<exists>m' b. CCLTxSet_insert t m = Inr (m', b) \<and> ccl_ok U m' \<and>
    (\<forall>k. CCLTxSet_exists m' k \<longleftrightarrow> k = CCLCxTx_id t \<or> CCLTxSet_exists m k)"
proof -
  have wf: "wf_map (nodeType True False) m" using assms(1) by (simp add: ccl_ok_def nodeType_TF)
  have t: "12 \<le> length (item_data (cx_tx t))" "U (item_key (cx_tx t)) = Some (cx_tx t)"
    using assms(2) by (simp_all add: ccl_okx_def CCLCxTx_id_def)
  from addGiveItem_map [OF wf t(1)] obtain m' b where m':
    "addGiveItem (cx_tx t) True False m = Inr (m', b)" "wf_map TnTRANSACTION_NM m'"
    "peekItem m' = (if peekItem m (item_key (cx_tx t)) = None
       then (peekItem m)(item_key (cx_tx t) \<mapsto> cx_tx t) else peekItem m)"
    unfolding nodeType_TF by blast
  have "ccl_ok U m'"
    using assms(1) t m'(2) unfolding ccl_ok_iff m'(3) by simp
  moreover have "CCLTxSet_exists m' k \<longleftrightarrow> k = CCLCxTx_id t \<or> CCLTxSet_exists m k" for k
    unfolding exists_peekItem m'(3) CCLCxTx_id_def by auto
  ultimately show ?thesis
    using m'(1) unfolding CCLTxSet_insert_def CCLCxTx_id_def item_make by blast
qed

lemma ccl_erase:
  assumes "ccl_ok U m"
  shows "ccl_ok U (fst (CCLTxSet_erase j m))"
    "CCLTxSet_exists (fst (CCLTxSet_erase j m)) k \<longleftrightarrow> k \<noteq> j \<and> CCLTxSet_exists m k"
proof -
  have d: "wf_map TnTRANSACTION_NM (fst (delItem j m)) \<and> peekItem (fst (delItem j m)) = (peekItem m)(j := None)"
    using delItem_map [of TnTRANSACTION_NM m j] assms by (auto simp: ccl_ok_def)
  show "ccl_ok U (fst (CCLTxSet_erase j m))"
    using assms d by (auto simp: ccl_ok_iff CCLTxSet_erase_def split: if_splits)
  show "CCLTxSet_exists (fst (CCLTxSet_erase j m)) k \<longleftrightarrow> k \<noteq> j \<and> CCLTxSet_exists m k"
    using assms d by (auto simp: ccl_ok_iff CCLTxSet_erase_def exists_peekItem)
qed

lemma noteItem_loop:
  assumes "om_wf ret" "\<forall>p \<in> set delta. (fst (snd p) = None) \<noteq> (snd (snd p) = None)"
  shows "\<exists>d. rfold noteItem delta ret = Inr d \<and> om_wf d \<and>
     (\<forall>q \<in> set d. q \<in> set ret \<or> (\<exists>p \<in> set delta. fst q = fst p \<and> snd q = (fst (snd p) \<noteq> None)))"
  using assms
proof (induction delta arbitrary: ret)
  case (Cons x delta)
  let ?r = "om_put (fst x) (fst (snd x) \<noteq> None) ret"
  have step: "noteItem x ret = Inr ?r"
    using Cons(3) by (auto simp: noteItem_def)
  have mem: "q \<in> set (om_put k v m) \<Longrightarrow> q \<in> set m \<or> q = (k, v)" for q k v and m :: "(uint256, bool) ord_map"
    by (induction k v m rule: om_put.induct) (auto split: if_splits)
  from Cons(1) [of ?r] Cons(2,3) obtain d where "rfold noteItem delta ?r = Inr d" "om_wf d"
      "\<forall>q \<in> set d. q \<in> set ?r \<or> (\<exists>p \<in> set delta. fst q = fst p \<and> snd q = (fst (snd p) \<noteq> None))"
    by auto
  with step show ?case
    by (intro exI [of _ d]) (auto simp: rbind_def dest!: mem bspec)
qed simp

lemma ccl_compare:
  assumes "ccl_ok U s" "ccl_ok U t"
  shows "\<exists>d. CCLTxSet_compare H s t = Inr d \<and> distinct (map fst d) \<and>
    (\<forall>(k, b) \<in> set d. CCLTxSet_exists s k = b \<and> CCLTxSet_exists t k = (\<not> b))"
proof -
  obtain c delta where r: "compare H s t [] 65536 = (c, delta)" by (rule prod.exhaust)
  have w: "wf_map TnTRANSACTION_NM s" "wf_map TnTRANSACTION_NM t" using assms by (simp_all add: ccl_ok_def)
  note snd = compare_sound [OF w r, simplified]
  have mem: "snd p = (peekItem s (fst p), peekItem t (fst p))" "peekItem s (fst p) \<noteq> peekItem t (fst p)"
    if "p \<in> set delta" for p
  proof -
    have "map_of delta (fst p) = Some (snd p)" using snd(1) that by (simp add: om_wf_def)
    then show "snd p = (peekItem s (fst p), peekItem t (fst p))" "peekItem s (fst p) \<noteq> peekItem t (fst p)"
      using snd(2) by blast+
  qed
  have one: "(peekItem s k = None) \<noteq> (peekItem t k = None)" if "peekItem s k \<noteq> peekItem t k" for k
    using assms that unfolding ccl_ok_iff by (metis option.exhaust)
  have "\<forall>p \<in> set delta. (fst (snd p) = None) \<noteq> (snd (snd p) = None)"
    using mem one by (metis fst_conv snd_conv)
  from noteItem_loop [OF om_wf_Nil this] r obtain d where
    d: "CCLTxSet_compare H s t = Inr d" "om_wf d"
      "\<And>q. q \<in> set d \<Longrightarrow> \<exists>p \<in> set delta. fst q = fst p \<and> snd q = (fst (snd p) \<noteq> None)"
    by (auto simp: CCLTxSet_compare_def)
  have "CCLTxSet_exists s (fst q) = snd q \<and> CCLTxSet_exists t (fst q) = (\<not> snd q)" if "q \<in> set d" for q
    using d(3) [OF that] mem one unfolding exists_peekItem by (metis fst_conv)
  with d show ?thesis by (auto simp: om_wf_def)
qed

lemma ccl_id:
  assumes "ccl_ok U s" "ccl_ok U t" "\<And>k. CCLTxSet_exists s k = CCLTxSet_exists t k"
  shows "CCLTxSet_id H s = CCLTxSet_id H t"
proof -
  have "peekItem s k = peekItem t k" for k
    using assms unfolding ccl_ok_iff exists_peekItem by (metis option.exhaust)
  then have "entries s = entries t"
    using assms entries_peekItem [of TnTRANSACTION_NM] by (simp add: ccl_ok_def)
  moreover have "isInner s = isInner t" "wf_node TnTRANSACTION_NM 0 s" "wf_node TnTRANSACTION_NM 0 t"
    using assms by (simp_all add: ccl_ok_def wf_map_def)
  ultimately show ?thesis using wf_same_entries by (metis CCLTxSet_id_def)
qed

interpretation ccl: tx_set "ccl_ops H" "ccl_ok U" "ccl_okx U" for H U
proof (unfold_locales, goal_cases)
  case (1 s k)
  then show ?case by (simp add: ccl_ops_def exists_peekItem CCLTxSet_find_def)
next
  case (2 s k x)
  then show ?case
    by (auto simp: ccl_ops_def CCLTxSet_find_def ccl_okx_def CCLCxTx_id_def ccl_cx_tx.make_def ccl_ok_iff
        dest: peekItem_key)
next
  case (3 s x)
  from ccl_insert [OF this] show ?case by (auto simp: ccl_ops_def rbind_def)
next
  case (4 s j)
  then show ?case using ccl_erase [OF 4] by (simp add: ccl_ops_def)
next
  case (5 s t)
  from ccl_compare [OF this] show ?case by (simp add: ccl_ops_def)
next
  case (6 s t)
  then show ?case using ccl_id [OF 6(1,2)] by (simp add: ccl_ops_def)
qed

section \<open>Identity of transaction sets\<close>

lemma ccl_ok_empty: "ccl_ok U emptySHAMap"
proof -
  have "entries emptySHAMap = {}" by (simp add: emptySHAMap_def)
  then show ?thesis by (simp add: ccl_ok_def wf_map_def emptySHAMap_def list_all_iff)
qed

text \<open>
  C15: the identity of a transaction set depends only on which transactions it holds.
  Inserting two lists of transactions with the same identifiers, in any order and with any
  repetitions, into the empty set succeeds and gives sets with the same identity.
\<close>

theorem txset_identity:
  assumes "list_all (ccl_okx U) xs" "list_all (ccl_okx U) ys"
    and "CCLCxTx_id ` set xs = CCLCxTx_id ` set ys"
  shows "\<exists>a b. rfold (ts_insert (ccl_ops H)) xs emptySHAMap = Inr a \<and>
               rfold (ts_insert (ccl_ops H)) ys emptySHAMap = Inr b \<and> CCLTxSet_id H a = CCLTxSet_id H b"
  using ccl.build_id [OF ccl_ok_empty assms(1,2), of H] assms(3) by (simp add: ccl_ops_def)

theorem txset_identity_witness:
  "\<exists>a b. rfold (ts_insert (ccl_ops (of_nat \<circ> length)))
            [\<lparr>cx_tx = sample_item 5\<rparr>, \<lparr>cx_tx = sample_item 9\<rparr>] emptySHAMap = Inr a \<and>
         rfold (ts_insert (ccl_ops (of_nat \<circ> length)))
            [\<lparr>cx_tx = sample_item 9\<rparr>, \<lparr>cx_tx = sample_item 5\<rparr>, \<lparr>cx_tx = sample_item 9\<rparr>] emptySHAMap = Inr b \<and>
         CCLTxSet_id (of_nat \<circ> length) a = CCLTxSet_id (of_nat \<circ> length) b"
  by (rule txset_identity [of "Some \<circ> sample_item"]) (auto simp: ccl_okx_def CCLCxTx_id_def)

end
