(* ===== verification/ConsensusProposal.thy ===== *)
theory ConsensusProposal
  imports Prelude
begin

text \<open>
  A position taken in a consensus round (\<open>consensus/ConsensusProposal.h\<close>), with the
  types \<open>CCLCxPeerPos\<close> instantiates the template at: ledgers and transaction sets are
  named by 256-bit hashes, nodes by 160-bit ones.
\<close>

record proposal =
  pr_previousLedger :: uint256
  pr_position :: uint256
  pr_closeTime :: net_time
  pr_time :: net_time
  pr_proposeSeq :: u32
  pr_nodeID :: uint160

definition seqJoin :: u32 where
  "seqJoin = 0"

definition seqLeave :: u32 where
  "seqLeave = 0xffffffff"

definition makeProposal :: "uint256 \<Rightarrow> u32 \<Rightarrow> uint256 \<Rightarrow> net_time \<Rightarrow> net_time \<Rightarrow> uint160 \<Rightarrow> proposal" where
  "makeProposal prevLedger sq position closeTime now nodeID =
     \<lparr>pr_previousLedger = prevLedger, pr_position = position, pr_closeTime = closeTime,
      pr_time = now, pr_proposeSeq = sq, pr_nodeID = nodeID\<rparr>"

definition isInitial :: "proposal \<Rightarrow> bool" where
  "isInitial p \<longleftrightarrow> pr_proposeSeq p = seqJoin"

definition isBowOut :: "proposal \<Rightarrow> bool" where
  "isBowOut p \<longleftrightarrow> pr_proposeSeq p = seqLeave"

definition isStale :: "net_time \<Rightarrow> proposal \<Rightarrow> bool" where
  "isStale cutoff p \<longleftrightarrow> pr_time p \<le> cutoff"

definition changePosition :: "uint256 \<Rightarrow> net_time \<Rightarrow> net_time \<Rightarrow> proposal \<Rightarrow> proposal" where
  "changePosition newPosition newCloseTime now p =
     p\<lparr>pr_position := newPosition, pr_closeTime := newCloseTime, pr_time := now,
       pr_proposeSeq := (if pr_proposeSeq p \<noteq> seqLeave then pr_proposeSeq p + 1 else pr_proposeSeq p)\<rparr>"

definition bowOut :: "net_time \<Rightarrow> proposal \<Rightarrow> proposal" where
  "bowOut now p = p\<lparr>pr_time := now, pr_proposeSeq := seqLeave\<rparr>"

section \<open>Sequence numbers\<close>

datatype proposal_op =
    ChangePosition uint256 net_time net_time
  | BowOut net_time

fun proposal_step :: "proposal_op \<Rightarrow> proposal \<Rightarrow> proposal" where
  "proposal_step (ChangePosition pos ct now) p = changePosition pos ct now p"
| "proposal_step (BowOut now) p = bowOut now p"

lemma seqLeave_minus_1: "seqLeave = - 1"
  by (simp add: seqLeave_def)

lemma seqLeave_max: "s \<le> seqLeave"
  unfolding seqLeave_minus_1 by (rule word_n1_ge)

lemma seq_less_iff: "s < seqLeave \<longleftrightarrow> s \<noteq> seqLeave"
  using seqLeave_max [of s] by (auto simp: order.strict_iff_order)

lemma seq_inc: "s \<noteq> seqLeave \<Longrightarrow> s < s + 1"
proof -
  assume "s \<noteq> seqLeave"
  then have "1 + s \<noteq> 0" unfolding seqLeave_minus_1 by (simp add: eq_neg_iff_add_eq_0 add.commute)
  then have "unat (s + 1) = Suc (unat s)" using unatSuc by (metis add.commute)
  then show ?thesis by (simp add: word_less_nat_alt)
qed

lemma changePosition_seq:
  "pr_proposeSeq (changePosition pos ct now p) = (if isBowOut p then seqLeave else pr_proposeSeq p + 1)"
  by (simp add: changePosition_def isBowOut_def)

lemma proposal_step_mono: "pr_proposeSeq p \<le> pr_proposeSeq (proposal_step op p)"
  by (cases op) (auto simp: changePosition_seq isBowOut_def bowOut_def seqLeave_max intro: less_imp_le seq_inc)

lemma proposal_step_strict: "\<not> isBowOut p \<Longrightarrow> pr_proposeSeq p < pr_proposeSeq (proposal_step op p)"
  by (cases op) (auto simp: changePosition_seq isBowOut_def bowOut_def seq_less_iff intro: seq_inc)

lemma proposal_step_frame:
  "pr_nodeID (proposal_step op p) = pr_nodeID p" "pr_previousLedger (proposal_step op p) = pr_previousLedger p"
  by (cases op; simp add: changePosition_def bowOut_def)+

lemma proposal_steps_mono: "pr_proposeSeq p \<le> pr_proposeSeq (fold proposal_step ops p)"
  by (induction ops arbitrary: p) (auto intro: order_trans [OF proposal_step_mono])

text \<open>
  C18: the sequence numbers of a node's own proposals. Over any run of position changes and
  bow-outs, the proposal keeps its node and its prior ledger and its number never goes
  down; every operation on a proposal that has not left raises the number strictly, so the
  number does not wrap to that of an earlier proposal; and a proposal that has left stays
  left whatever follows.
\<close>

theorem proposal_sequence:
  "pr_proposeSeq p \<le> pr_proposeSeq (fold proposal_step ops p) \<and>
   pr_nodeID (fold proposal_step ops p) = pr_nodeID p \<and>
   pr_previousLedger (fold proposal_step ops p) = pr_previousLedger p \<and>
   (ops = [] \<or> isBowOut p \<or> pr_proposeSeq p < pr_proposeSeq (fold proposal_step ops p)) \<and>
   isBowOut (fold proposal_step ops (bowOut now p))"
proof (intro conjI)
  show "pr_proposeSeq p \<le> pr_proposeSeq (fold proposal_step ops p)" by (rule proposal_steps_mono)
  show "pr_nodeID (fold proposal_step ops p) = pr_nodeID p"
    by (induction ops arbitrary: p) (simp_all add: proposal_step_frame)
  show "pr_previousLedger (fold proposal_step ops p) = pr_previousLedger p"
    by (induction ops arbitrary: p) (simp_all add: proposal_step_frame)
  show "ops = [] \<or> isBowOut p \<or> pr_proposeSeq p < pr_proposeSeq (fold proposal_step ops p)"
    by (cases ops) (auto intro: less_le_trans [OF proposal_step_strict proposal_steps_mono])
  have "seqLeave \<le> pr_proposeSeq (fold proposal_step ops (bowOut now p))"
    using proposal_steps_mono [of "bowOut now p" ops] by (simp add: bowOut_def)
  then show "isBowOut (fold proposal_step ops (bowOut now p))"
    using seqLeave_max by (simp add: isBowOut_def order.antisym)
qed

end
