(* ===== verification/Consensus.thy ===== *)
theory Consensus
  imports DisputedTx TxSet ConsensusProposal
begin

text \<open>
  The consensus engine of \<open>consensus/Consensus.h\<close>. The state of the class template is
  the record \<open>consensus\<close>; each member function is a function from state to state, in
  the order of the file. What the template asks of its transaction sets is the record
  \<open>txset_ops\<close>; what it asks of the class that derives from it (\<open>impl()\<close>) is the
  record \<open>adaptor\<close>: the answers the callbacks give while one operation runs. Calls that
  only tell the application something are appended to \<open>cs_out\<close>. Operations hold the
  recursive lock from start to end, so each is one step. The steady clock is read once per
  operation. Log output and \<open>getJson\<close> are not modelled.
\<close>

section \<open>Data\<close>

datatype phase = Open | Establish | Accepted

datatype cmode = Proposing | Observing | WrongLedger | SwitchedLedger

text \<open>The view the engine has of a ledger (\<open>CCLCxLedger\<close>).\<close>

record ledger =
  lg_id :: uint256
  lg_seq :: u32
  lg_closeTimeResolution :: net_duration
  lg_closeAgree :: bool
  lg_closeTime :: net_time
  lg_parentCloseTime :: net_time

text \<open>A stopwatch: its start on the steady clock, in nanoseconds, and the time read last.\<close>

record stopwatch =
  sw_start :: int
  sw_dur :: millis

definition sw_zero :: stopwatch where
  "sw_zero = \<lparr>sw_start = 0, sw_dur = 0\<rparr>"

definition sw_tick_by :: "millis \<Rightarrow> stopwatch \<Rightarrow> stopwatch" where
  "sw_tick_by fixed w = w\<lparr>sw_dur := sw_dur w + fixed\<rparr>"

definition sw_reset :: "int \<Rightarrow> stopwatch" where
  "sw_reset tp = \<lparr>sw_start = tp, sw_dur = 0\<rparr>"

definition sw_tick :: "int \<Rightarrow> stopwatch \<Rightarrow> stopwatch" where
  "sw_tick tp w = w\<lparr>sw_dur := (tp - sw_start w) sdiv 1000000\<rparr>"

record close_times =
  ct_peers :: "(net_time \<times> int) list"
  ct_self :: net_time

record ('s, 'x) cresult =
  rs_set :: 's
  rs_position :: proposal
  rs_disputes :: "(uint256, 'x disputed_tx) hash_map"
  rs_compares :: "uint256 list"
  rs_roundTime :: stopwatch
  rs_state :: consensus_state

text \<open>The constructor of \<open>Result\<close> asserts that the proposal names the set.\<close>

definition makeResult :: "('s, 'x) txset_ops \<Rightarrow> 's \<Rightarrow> proposal \<Rightarrow> ('s, 'x) cresult res" where
  "makeResult ops s p =
     rassert (ts_id ops s = pr_position p) ''Result''
       (Inr \<lparr>rs_set = s, rs_position = p, rs_disputes = [], rs_compares = [],
             rs_roundTime = sw_zero, rs_state = No\<rparr>)"

datatype ('s, 'x) cevent =
    Propose proposal
  | RelayProposal proposal
  | RelayTx 'x
  | RelaySet 's
  | OnAccept "('s, 'x) cresult" ledger net_duration close_times cmode
  | OnForceAccept "('s, 'x) cresult" ledger net_duration close_times cmode

record ('s, 'x) consensus =
  cs_phase :: phase
  cs_mode :: cmode
  cs_firstRound :: bool
  cs_haveCloseTimeConsensus :: bool
  cs_convergePercent :: int
  cs_openTime :: stopwatch
  cs_closeResolution :: net_duration
  cs_prevRoundTime :: millis
  cs_now :: net_time
  cs_prevCloseTime :: net_time
  cs_prevLedgerID :: uint256
  cs_previousLedger :: ledger
  cs_acquired :: "(uint256, 's) hash_map"
  cs_result :: "('s, 'x) cresult option"
  cs_rawCloseTimes :: close_times
  cs_peerProposals :: "(uint160, proposal) hash_map"
  cs_prevProposers :: nat
  cs_deadNodes :: "uint160 list"
  cs_out :: "('s, 'x) cevent list"

text \<open>
  The callbacks that answer. \<open>ad_onClose\<close> gives the set and the proposal that the
  application's \<open>onClose\<close> builds its result from.
\<close>

record 's adaptor =
  ad_acquireLedger :: "uint256 \<Rightarrow> ledger option"
  ad_acquireTxSet :: "uint256 \<Rightarrow> 's option"
  ad_proposals :: "uint256 \<Rightarrow> proposal list"
  ad_hasOpenTransactions :: bool
  ad_proposersValidated :: "uint256 \<Rightarrow> nat"
  ad_proposersFinished :: "uint256 \<Rightarrow> nat"
  ad_getPrevLedger :: "uint256 \<Rightarrow> ledger \<Rightarrow> cmode \<Rightarrow> uint256"
  ad_onClose :: "ledger \<Rightarrow> net_time \<Rightarrow> cmode \<Rightarrow> 's \<times> proposal"
  ad_clock :: int

type_synonym ('s, 'x) cstep = "('s, 'x) consensus \<Rightarrow> ('s, 'x) consensus res"

definition initConsensus :: "ledger \<Rightarrow> ('s, 'x) consensus" where
  "initConsensus defaultLedger =
     \<lparr>cs_phase = Accepted, cs_mode = Observing, cs_firstRound = True,
      cs_haveCloseTimeConsensus = False, cs_convergePercent = 0, cs_openTime = sw_zero,
      cs_closeResolution = ledgerDefaultTimeResolution,
      cs_prevRoundTime = LEDGER_IDLE_INTERVAL * 1000, cs_now = 0, cs_prevCloseTime = 0,
      cs_prevLedgerID = 0, cs_previousLedger = defaultLedger, cs_acquired = [],
      cs_result = None, cs_rawCloseTimes = \<lparr>ct_peers = [], ct_self = 0\<rparr>, cs_peerProposals = [],
      cs_prevProposers = 0, cs_deadNodes = [], cs_out = []\<rparr>"

definition emit :: "('s, 'x) cevent \<Rightarrow> ('s, 'x) consensus \<Rightarrow> ('s, 'x) consensus" where
  "emit e s = s\<lparr>cs_out := cs_out s @ [e]\<rparr>"

text \<open>\<open>assert(result_)\<close>, then work on the result.\<close>

definition withResult :: "string \<Rightarrow> ('s, 'x) consensus \<Rightarrow> (('s, 'x) cresult \<Rightarrow> 'r res) \<Rightarrow> 'r res" where
  "withResult msg s f = (case cs_result s of None \<Rightarrow> Inl (AssertFailed msg) | Some r \<Rightarrow> f r)"

section \<open>Disputes\<close>

text \<open>Votes of the peers whose positions we hold, on one disputed transaction.\<close>

definition peerVotes :: "('s, 'x) txset_ops \<Rightarrow> (uint256, 's) hash_map \<Rightarrow> (uint160, proposal) hash_map \<Rightarrow>
    uint256 \<Rightarrow> 'x disputed_tx \<Rightarrow> 'x disputed_tx" where
  "peerVotes ops acquired peers txID dtx =
     fold (\<lambda>pit d. case map_of acquired (pr_position (snd pit)) of
                     None \<Rightarrow> d
                   | Some cit \<Rightarrow> setVote (fst pit) (ts_exists ops cit txID) d)
       peers dtx"

text \<open>The body of the loop over the differences.\<close>

definition createDispute :: "('s, 'x) txset_ops \<Rightarrow> 's \<Rightarrow> uint256 \<times> bool \<Rightarrow> ('s, 'x) cstep" where
  "createDispute ops other diff s =
     withResult ''createDisputes'' s (\<lambda>r.
       let ours = ts_find ops (rs_set r) (fst diff); theirs = ts_find ops other (fst diff)
       in rassert ((snd diff \<and> ours \<noteq> None \<and> theirs = None) \<or> (\<not> snd diff \<and> ours = None \<and> theirs \<noteq> None))
            ''createDisputes''
            (let tx = (if snd diff then the ours else the theirs); txID = ts_txid ops tx
             in if map_of (rs_disputes r) txID \<noteq> None then Inr s
                else let dtx = peerVotes ops (cs_acquired s) (cs_peerProposals s) txID
                                 (makeDisputedTx tx (ts_exists ops (rs_set r) txID))
                     in Inr (emit (RelayTx tx) s
                          \<lparr>cs_result := Some (r\<lparr>rs_disputes := fst (hm_emplace txID dtx (rs_disputes r))\<rparr>)\<rparr>)))"

definition createDisputes :: "('s, 'x) txset_ops \<Rightarrow> 's \<Rightarrow> ('s, 'x) cstep" where
  "createDisputes ops other s =
     withResult ''createDisputes'' s (\<lambda>r.
       if ts_id ops other \<in> set (rs_compares r) then Inr s
       else let s1 = s\<lparr>cs_result := Some (r\<lparr>rs_compares := ts_id ops other # rs_compares r\<rparr>)\<rparr>
            in if ts_id ops (rs_set r) = ts_id ops other then Inr s1
               else rbind (ts_compare ops (rs_set r) other)
                      (\<lambda>differences. rfold (createDispute ops other) differences s1))"

definition updateDisputes :: "('s, 'x) txset_ops \<Rightarrow> uint160 \<Rightarrow> 's \<Rightarrow> ('s, 'x) cstep" where
  "updateDisputes ops node other s =
     withResult ''updateDisputes'' s (\<lambda>r.
       rbind (if ts_id ops other \<in> set (rs_compares r) then Inr s else createDisputes ops other s)
         (\<lambda>s1. withResult ''updateDisputes'' s1 (\<lambda>r1.
            Inr (s1\<lparr>cs_result := Some (r1\<lparr>rs_disputes :=
              hm_map (\<lambda>d. setVote node (ts_exists ops other (ts_txid ops (dt_tx d))) d)
                (rs_disputes r1)\<rparr>)\<rparr>))))"

definition leaveConsensus :: "('s, 'x) consensus \<Rightarrow> ('s, 'x) consensus" where
  "leaveConsensus s =
     (if cs_mode s = Proposing then
        (case cs_result s of
           Some r \<Rightarrow>
             if \<not> isBowOut (rs_position r) then
               (let p = bowOut (cs_now s) (rs_position r)
                in emit (Propose p) (s\<lparr>cs_result := Some (r\<lparr>rs_position := p\<rparr>)\<rparr>)\<lparr>cs_mode := Observing\<rparr>)
             else s\<lparr>cs_mode := Observing\<rparr>
         | None \<Rightarrow> s\<lparr>cs_mode := Observing\<rparr>)
      else s)"

section \<open>Messages\<close>

definition gotTxSet :: "('s, 'x) txset_ops \<Rightarrow> net_time \<Rightarrow> 's \<Rightarrow> ('s, 'x) cstep" where
  "gotTxSet ops now txSet s =
     (if cs_phase s = Accepted then Inr s
      else let s1 = s\<lparr>cs_now := now\<rparr>; ident = ts_id ops txSet;
               em = hm_emplace ident txSet (cs_acquired s1)
           in if \<not> snd em then Inr s1
              else let s2 = s1\<lparr>cs_acquired := fst em\<rparr>
                   in case cs_result s2 of
                        None \<Rightarrow> Inr s2
                      | Some r \<Rightarrow>
                          rassert (ident \<noteq> pr_position (rs_position r)) ''gotTxSet''
                            (rfold (\<lambda>p s'. if pr_position (snd p) = ident
                                           then updateDisputes ops (fst p) txSet s' else Inr s')
                               (cs_peerProposals s2) s2))"

text \<open>The parts of \<open>peerProposal\<close> after the proposal was recorded.\<close>

definition recordCloseTime :: "proposal \<Rightarrow> ('s, 'x) consensus \<Rightarrow> ('s, 'x) consensus" where
  "recordCloseTime newProposal s =
     (if isInitial newProposal
      then s\<lparr>cs_rawCloseTimes := (cs_rawCloseTimes s)
             \<lparr>ct_peers := count_inc (pr_closeTime newProposal) (ct_peers (cs_rawCloseTimes s))\<rparr>\<rparr>
      else s)"

definition recordPosition :: "('s, 'x) txset_ops \<Rightarrow> 's adaptor \<Rightarrow> proposal \<Rightarrow> ('s, 'x) cstep" where
  "recordPosition ops ad newProposal s =
     (let s1 = recordCloseTime newProposal s
      in case map_of (cs_acquired s1) (pr_position newProposal) of
           None \<Rightarrow>
             (case ad_acquireTxSet ad (pr_position newProposal) of
                Some txSet \<Rightarrow> gotTxSet ops (cs_now s1) txSet s1
              | None \<Rightarrow> Inr s1)
         | Some txSet \<Rightarrow>
             if cs_result s1 \<noteq> None then updateDisputes ops (pr_nodeID newProposal) txSet s1 else Inr s1)"

definition peerProposal :: "('s, 'x) txset_ops \<Rightarrow> 's adaptor \<Rightarrow> net_time \<Rightarrow> proposal \<Rightarrow>
    ('s, 'x) consensus \<Rightarrow> (('s, 'x) consensus \<times> bool) res" where
  "peerProposal ops ad now newProposal s =
     (let peerID = pr_nodeID newProposal; s1 = s\<lparr>cs_now := now\<rparr>;
          currentPosition = map_of (cs_peerProposals s) peerID
      in if cs_phase s = Accepted then Inr (s, False)
         else if pr_previousLedger newProposal \<noteq> cs_prevLedgerID s then Inr (s1, False)
         else if peerID \<in> set (cs_deadNodes s) then Inr (s1, False)
         else if (case currentPosition of None \<Rightarrow> False
                  | Some cur \<Rightarrow> pr_proposeSeq newProposal \<le> pr_proposeSeq cur) then Inr (s1, False)
         else if isBowOut newProposal then
           Inr (s1\<lparr>cs_result := map_option (\<lambda>r. r\<lparr>rs_disputes := hm_map (unVote peerID) (rs_disputes r)\<rparr>)
                                  (cs_result s),
                  cs_peerProposals := AList.delete peerID (cs_peerProposals s),
                  cs_deadNodes := peerID # cs_deadNodes s\<rparr>, True)
         else rbind (recordPosition ops ad newProposal
                       (s1\<lparr>cs_peerProposals := AList.update peerID newProposal (cs_peerProposals s)\<rparr>))
                (\<lambda>s2. Inr (s2, True)))"

definition playbackProposals :: "('s, 'x) txset_ops \<Rightarrow> 's adaptor \<Rightarrow> ('s, 'x) cstep" where
  "playbackProposals ops ad s =
     rfold (\<lambda>p s'. rbind (peerProposal ops ad (cs_now s') p s')
                    (\<lambda>(s'', accepted). Inr (if accepted then emit (RelayProposal p) s'' else s'')))
       (ad_proposals ad (cs_prevLedgerID s)) s"

section \<open>Closing\<close>

definition closeLedger :: "('s, 'x) txset_ops \<Rightarrow> 's adaptor \<Rightarrow> ('s, 'x) cstep" where
  "closeLedger ops ad s =
     rassert (cs_result s = None) ''closeLedger''
       (let (st, pos) = ad_onClose ad (cs_previousLedger s) (cs_now s) (cs_mode s)
        in rbind (makeResult ops st pos) (\<lambda>r0.
             let r = r0\<lparr>rs_roundTime := sw_reset (ad_clock ad)\<rparr>;
                 em = hm_emplace (ts_id ops (rs_set r)) (rs_set r) (cs_acquired s);
                 s1 = s\<lparr>cs_phase := Establish,
                        cs_rawCloseTimes := (cs_rawCloseTimes s)\<lparr>ct_self := cs_now s\<rparr>,
                        cs_result := Some r, cs_acquired := fst em\<rparr>;
                 s2 = (if snd em then emit (RelaySet (rs_set r)) s1 else s1);
                 s3 = (if cs_mode s2 = Proposing then emit (Propose (rs_position r)) s2 else s2)
             in rfold (\<lambda>p s'. case map_of (cs_acquired s') (pr_position (snd p)) of
                                Some st \<Rightarrow> createDisputes ops st s'
                              | None \<Rightarrow> Inr s')
                  (cs_peerProposals s3) s3))"

definition simulate :: "('s, 'x) txset_ops \<Rightarrow> 's adaptor \<Rightarrow> net_time \<Rightarrow> millis option \<Rightarrow> ('s, 'x) cstep" where
  "simulate ops ad now consensusDelay s =
     rbind (closeLedger ops ad (s\<lparr>cs_now := now\<rparr>)) (\<lambda>s1.
       withResult ''simulate'' s1 (\<lambda>r.
         let delay = (case consensusDelay of None \<Rightarrow> 100 | Some ms \<Rightarrow> ms);
             r' = r\<lparr>rs_roundTime := sw_tick_by delay (rs_roundTime r)\<rparr>;
             s2 = s1\<lparr>cs_result := Some r', cs_prevProposers := length (cs_peerProposals s1),
                      cs_prevRoundTime := sw_dur (rs_roundTime r'), cs_phase := Accepted\<rparr>
         in Inr (emit (OnForceAccept r' (cs_previousLedger s2) (cs_closeResolution s2)
                         (cs_rawCloseTimes s2) (cs_mode s2)) s2)))"

text \<open>
  The time since the last ledger closed. \<open>parentCloseTime() + 1s\<close> is a 64-bit value in
  that comparison, so the sum does not wrap.
\<close>

definition sinceClose :: "('s, 'x) consensus \<Rightarrow> millis" where
  "sinceClose s =
     (let L = cs_previousLedger s;
          previousCloseCorrect = (cs_mode s \<noteq> WrongLedger \<and> lg_closeAgree L \<and>
            uint (lg_closeTime L) \<noteq> uint (lg_parentCloseTime L) + 1);
          lastCloseTime = (if previousCloseCorrect then lg_closeTime L else cs_prevCloseTime s)
      in if cs_now s \<ge> lastCloseTime then uint (cs_now s - lastCloseTime) * 1000
         else - (uint (lastCloseTime - cs_now s) * 1000))"

definition phaseOpen :: "('s, 'x) txset_ops \<Rightarrow> 's adaptor \<Rightarrow> ('s, 'x) cstep" where
  "phaseOpen ops ad s =
     (let s1 = s\<lparr>cs_openTime := sw_tick (ad_clock ad) (cs_openTime s)\<rparr>;
          idleInterval = max LEDGER_IDLE_INTERVAL (uint (2 * lg_closeTimeResolution (cs_previousLedger s)))
      in if shouldCloseLedger (ad_hasOpenTransactions ad) (cs_prevProposers s1)
              (length (cs_peerProposals s1)) (ad_proposersValidated ad (cs_prevLedgerID s1))
              (cs_prevRoundTime s1) (sinceClose s1) (sw_dur (cs_openTime s1)) idleInterval
         then closeLedger ops ad s1 else Inr s1)"

section \<open>Establishing consensus\<close>

definition participantsNeeded :: "int \<Rightarrow> int \<Rightarrow> int" where
  "participantsNeeded participants percent =
     (let result = (participants * percent + percent sdiv 2) sdiv 100
      in if result = 0 then 1 else result)"

text \<open>
  The first loop of \<open>updateOurPositions\<close>: what is left of the peers' proposals, the
  effective close times they vote for, and the disputes without the votes of stale peers.
\<close>

definition freshen :: "net_time \<Rightarrow> net_duration \<Rightarrow> net_time \<Rightarrow> uint160 \<times> proposal \<Rightarrow>
    (uint160, proposal) hash_map \<times> (net_time \<times> int) list \<times> (uint256, 'x disputed_tx) hash_map \<Rightarrow>
    (uint160, proposal) hash_map \<times> (net_time \<times> int) list \<times> (uint256, 'x disputed_tx) hash_map" where
  "freshen peerCutoff resolution prior it acc =
     (case acc of (kept, effCloseTimes, disputes) \<Rightarrow>
        if isStale peerCutoff (snd it)
        then (kept, effCloseTimes, hm_map (unVote (pr_nodeID (snd it))) disputes)
        else (kept @ [it],
              count_inc (effCloseTime (pr_closeTime (snd it)) resolution prior) effCloseTimes,
              disputes))"

text \<open>The second loop: our votes on the disputes and the set changed with them.\<close>

fun voteDisputes :: "('s, 'x) txset_ops \<Rightarrow> int \<Rightarrow> bool \<Rightarrow> 's \<Rightarrow> (uint256, 'x disputed_tx) hash_map \<Rightarrow>
    's option \<Rightarrow> ((uint256, 'x disputed_tx) hash_map \<times> 's option) res" where
  "voteDisputes ops percent proposing ourSet [] mutableSet = Inr ([], mutableSet)"
| "voteDisputes ops percent proposing ourSet ((txID, d) # ds) mutableSet =
     (let (d', changed) = updateVote percent proposing d
      in rbind (if changed then
                  (let m = (case mutableSet of None \<Rightarrow> ourSet | Some m \<Rightarrow> m)
                   in rbind (if dt_ourVote d' then ts_insert ops (dt_tx d') m else Inr (ts_erase ops txID m))
                        (\<lambda>m'. Inr (Some m')))
                else Inr mutableSet)
           (\<lambda>mutableSet'. rbind (voteDisputes ops percent proposing ourSet ds mutableSet')
              (\<lambda>(ds', final). Inr ((txID, d') # ds', final))))"

text \<open>The loop over the effective close times.\<close>

definition closeTimeVote :: "int \<Rightarrow> net_time \<times> int \<Rightarrow> net_time \<times> int \<times> bool \<Rightarrow> net_time \<times> int \<times> bool" where
  "closeTimeVote threshConsensus it acc =
     (case acc of (consensusCloseTime, threshVote, have) \<Rightarrow>
        if snd it \<ge> threshVote
        then (fst it, snd it, have \<or> snd it \<ge> threshConsensus)
        else acc)"

text \<open>
  The close time the network leans to and whether there is consensus on it.
\<close>

definition closeTimeConsensus :: "int \<Rightarrow> bool \<Rightarrow> nat \<Rightarrow> net_time \<Rightarrow> (net_time \<times> int) list \<Rightarrow> net_time \<times> bool" where
  "closeTimeConsensus convergePercent proposing peers ourTime effCloseTimes =
     (if peers = 0 then (ourTime, True)
      else let neededWeight = avalancheThreshold convergePercent;
               effs = (if proposing then count_inc ourTime effCloseTimes else effCloseTimes);
               participants = int peers + (if proposing then 1 else 0);
               threshVote = participantsNeeded participants neededWeight;
               threshConsensus = participantsNeeded participants AV_CT_CONSENSUS_PCT;
               (t, _, have) = fold (closeTimeVote threshConsensus) effs (0, threshVote, False)
           in (t, have))"

definition updateOurPositions :: "('s, 'x) txset_ops \<Rightarrow> ('s, 'x) cstep" where
  "updateOurPositions ops s =
     withResult ''updateOurPositions'' s (\<lambda>r.
       let peerCutoff = cs_now s - PROPOSE_FRESHNESS; ourCutoff = cs_now s - PROPOSE_INTERVAL;
           res = cs_closeResolution s; prior = lg_closeTime (cs_previousLedger s);
           (peers, effCloseTimes, disputes) =
             fold (freshen peerCutoff res prior) (cs_peerProposals s) ([], [], rs_disputes r)
       in rbind (voteDisputes ops (cs_convergePercent s) (cs_mode s = Proposing) (rs_set r) disputes None)
            (\<lambda>(disputes', mutableSet).
               let ourTime = effCloseTime (pr_closeTime (rs_position r)) res prior;
                   (consensusCloseTime, have) =
                     closeTimeConsensus (cs_convergePercent s) (cs_mode s = Proposing) (length peers)
                       ourTime effCloseTimes;
                   ourNewSet = (if mutableSet = None \<and>
                                   (consensusCloseTime \<noteq> ourTime \<or> isStale ourCutoff (rs_position r))
                                then Some (rs_set r) else mutableSet);
                   s1 = s\<lparr>cs_peerProposals := peers, cs_haveCloseTimeConsensus := have,
                          cs_result := Some (r\<lparr>rs_disputes := disputes'\<rparr>)\<rparr>
               in case ourNewSet of
                    None \<Rightarrow> Inr s1
                  | Some st \<Rightarrow>
                      let pos = changePosition (ts_id ops st) consensusCloseTime (cs_now s) (rs_position r);
                          s2 = s1\<lparr>cs_result := Some (r\<lparr>rs_disputes := disputes', rs_set := st, rs_position := pos\<rparr>)\<rparr>
                      in if isBowOut pos then Inr s2
                         else let em = hm_emplace (ts_id ops st) st (cs_acquired s2);
                                  s3 = s2\<lparr>cs_acquired := fst em\<rparr>;
                                  s4 = (if snd em then emit (RelaySet st) s3 else s3)
                              in Inr (if cs_mode s4 = Proposing then emit (Propose pos) s4 else s4)))"

definition haveConsensus :: "('s, 'x) txset_ops \<Rightarrow> 's adaptor \<Rightarrow> ('s, 'x) consensus \<Rightarrow>
    (('s, 'x) consensus \<times> bool) res" where
  "haveConsensus ops ad s =
     withResult ''haveConsensus'' s (\<lambda>r.
       let ourPosition = pr_position (rs_position r);
           agree = length (filter (\<lambda>it. pr_position (snd it) = ourPosition) (cs_peerProposals s));
           disagree = length (filter (\<lambda>it. pr_position (snd it) \<noteq> ourPosition) (cs_peerProposals s));
           state = checkConsensus (cs_prevProposers s) (agree + disagree) agree
                     (ad_proposersFinished ad (cs_prevLedgerID s)) (cs_prevRoundTime s)
                     (sw_dur (rs_roundTime r)) (cs_mode s = Proposing)
       in Inr (s\<lparr>cs_result := Some (r\<lparr>rs_state := state\<rparr>)\<rparr>, state \<noteq> No))"

text \<open>\<open>convergePercent_\<close> is an \<open>int\<close>: the 64-bit quotient is cut to 32 bits.\<close>

definition to_int32 :: "int \<Rightarrow> int" where
  "to_int32 x = sint (word_of_int x :: 32 word)"

text \<open>The end of \<open>phaseEstablish\<close>: accept when both kinds of consensus are there.\<close>

definition concludeEstablish :: "('s, 'x) consensus \<times> bool \<Rightarrow> ('s, 'x) consensus res" where
  "concludeEstablish x =
     (let s = fst x
      in if \<not> snd x \<or> \<not> cs_haveCloseTimeConsensus s then Inr s
         else withResult ''phaseEstablish'' s (\<lambda>r.
           let s1 = s\<lparr>cs_prevProposers := length (cs_peerProposals s),
                      cs_prevRoundTime := sw_dur (rs_roundTime r), cs_phase := Accepted\<rparr>
           in Inr (emit (OnAccept r (cs_previousLedger s1) (cs_closeResolution s1)
                           (cs_rawCloseTimes s1) (cs_mode s1)) s1)))"

definition phaseEstablish :: "('s, 'x) txset_ops \<Rightarrow> 's adaptor \<Rightarrow> ('s, 'x) cstep" where
  "phaseEstablish ops ad s =
     withResult ''phaseEstablish'' s (\<lambda>r.
       let r1 = r\<lparr>rs_roundTime := sw_tick (ad_clock ad) (rs_roundTime r)\<rparr>;
           s1 = s\<lparr>cs_result := Some r1,
                  cs_convergePercent := to_int32 (sw_dur (rs_roundTime r1) * 100 sdiv
                    max (cs_prevRoundTime s) AV_MIN_CONSENSUS_TIME)\<rparr>
       in if sw_dur (rs_roundTime r1) < LEDGER_MIN_CONSENSUS then Inr s1
          else rbind (updateOurPositions ops s1)
                 (\<lambda>s2. rbind (haveConsensus ops ad s2) concludeEstablish))"

section \<open>Rounds\<close>

text \<open>
  \<open>handleWrongLedger\<close>, \<open>checkLedger\<close>, \<open>timerEntry\<close> and \<open>startRoundInternal\<close>
  call each other. The first three take the function that restarts the round; the last
  one ties the knot and spends one unit of fuel per nested round.
\<close>

type_synonym ('s, 'x) restart = "net_time \<Rightarrow> uint256 \<Rightarrow> ledger \<Rightarrow> cmode \<Rightarrow> ('s, 'x) cstep"

definition switchLedger :: "('s, 'x) txset_ops \<Rightarrow> 's adaptor \<Rightarrow> uint256 \<Rightarrow> ('s, 'x) cstep" where
  "switchLedger ops ad lgrId s =
     (if cs_prevLedgerID s \<noteq> lgrId then
        (let s1 = leaveConsensus (s\<lparr>cs_prevLedgerID := lgrId\<rparr>)
         in playbackProposals ops ad
              (s1\<lparr>cs_result := map_option (\<lambda>r. r\<lparr>rs_disputes := [], rs_compares := []\<rparr>) (cs_result s1),
                 cs_peerProposals := [],
                 cs_rawCloseTimes := (cs_rawCloseTimes s1)\<lparr>ct_peers := []\<rparr>,
                 cs_deadNodes := []\<rparr>))
      else Inr s)"

definition handleWrongLedger :: "('s, 'x) txset_ops \<Rightarrow> 's adaptor \<Rightarrow> ('s, 'x) restart \<Rightarrow> uint256 \<Rightarrow>
    ('s, 'x) cstep" where
  "handleWrongLedger ops ad restart lgrId s =
     rassert (lgrId \<noteq> cs_prevLedgerID s \<or> lg_id (cs_previousLedger s) \<noteq> lgrId) ''handleWrongLedger''
       (rbind (switchLedger ops ad lgrId s) (\<lambda>s1.
          if lg_id (cs_previousLedger s1) = cs_prevLedgerID s1 then Inr s1
          else case ad_acquireLedger ad (cs_prevLedgerID s1) of
                 Some newLedger \<Rightarrow> restart (cs_now s1) lgrId newLedger SwitchedLedger s1
               | None \<Rightarrow> Inr (s1\<lparr>cs_mode := WrongLedger\<rparr>)))"

definition checkLedger :: "('s, 'x) txset_ops \<Rightarrow> 's adaptor \<Rightarrow> ('s, 'x) restart \<Rightarrow> ('s, 'x) cstep" where
  "checkLedger ops ad restart s =
     (let netLgr = ad_getPrevLedger ad (cs_prevLedgerID s) (cs_previousLedger s) (cs_mode s)
      in if netLgr \<noteq> cs_prevLedgerID s then handleWrongLedger ops ad restart netLgr s
         else if lg_id (cs_previousLedger s) \<noteq> cs_prevLedgerID s
         then handleWrongLedger ops ad restart netLgr s
         else Inr s)"

definition timerEntryWith :: "('s, 'x) txset_ops \<Rightarrow> 's adaptor \<Rightarrow> ('s, 'x) restart \<Rightarrow> net_time \<Rightarrow>
    ('s, 'x) cstep" where
  "timerEntryWith ops ad restart now s =
     (if cs_phase s = Accepted then Inr s
      else rbind (checkLedger ops ad restart (s\<lparr>cs_now := now\<rparr>)) (\<lambda>s1.
             case cs_phase s1 of
               Open \<Rightarrow> phaseOpen ops ad s1
             | Establish \<Rightarrow> phaseEstablish ops ad s1
             | Accepted \<Rightarrow> Inr s1))"

text \<open>The assignments at the head of \<open>startRoundInternal\<close>.\<close>

definition resetRound :: "'s adaptor \<Rightarrow> net_time \<Rightarrow> uint256 \<Rightarrow> ledger \<Rightarrow> cmode \<Rightarrow>
    ('s, 'x) consensus \<Rightarrow> ('s, 'x) consensus" where
  "resetRound ad now prevLedgerID prevLedger mode s =
     s\<lparr>cs_phase := Open, cs_mode := mode, cs_now := now, cs_prevLedgerID := prevLedgerID,
       cs_previousLedger := prevLedger, cs_result := None, cs_convergePercent := 0,
       cs_haveCloseTimeConsensus := False, cs_openTime := sw_reset (ad_clock ad),
       cs_peerProposals := [], cs_acquired := [],
       cs_rawCloseTimes := \<lparr>ct_peers = [], ct_self = 0\<rparr>, cs_deadNodes := [],
       cs_closeResolution := getNextLedgerTimeResolution (lg_closeTimeResolution prevLedger)
         (lg_closeAgree prevLedger) (lg_seq prevLedger + 1)\<rparr>"

primrec startRoundInternal :: "('s, 'x) txset_ops \<Rightarrow> 's adaptor \<Rightarrow> nat \<Rightarrow> ('s, 'x) restart" where
  "startRoundInternal ops ad 0 = (\<lambda>now prevLedgerID prevLedger mode s. Inl OutOfFuel)"
| "startRoundInternal ops ad (Suc fuel) = (\<lambda>now prevLedgerID prevLedger mode s.
     rassert (getNextLedgerTimeResolution_asserts (lg_closeTimeResolution prevLedger) (lg_seq prevLedger + 1))
       ''getNextLedgerTimeResolution''
       (let s1 = resetRound ad now prevLedgerID prevLedger mode s
        in rbind (if lg_id prevLedger \<noteq> prevLedgerID
                  then handleWrongLedger ops ad (startRoundInternal ops ad fuel) prevLedgerID s1
                  else Inr s1)
             (\<lambda>s2. rbind (playbackProposals ops ad s2) (\<lambda>s3.
                if length (cs_peerProposals s3) > cs_prevProposers s3 div 2
                then timerEntryWith ops ad (startRoundInternal ops ad fuel) (cs_now s3) s3
                else Inr s3))))"

definition timerEntry :: "('s, 'x) txset_ops \<Rightarrow> 's adaptor \<Rightarrow> nat \<Rightarrow> net_time \<Rightarrow> ('s, 'x) cstep" where
  "timerEntry ops ad fuel now = timerEntryWith ops ad (startRoundInternal ops ad fuel) now"

definition startRound :: "('s, 'x) txset_ops \<Rightarrow> 's adaptor \<Rightarrow> nat \<Rightarrow> net_time \<Rightarrow> uint256 \<Rightarrow> ledger \<Rightarrow> bool \<Rightarrow>
    ('s, 'x) cstep" where
  "startRound ops ad fuel now prevLedgerID prevLedger proposing s =
     (let s1 = (if cs_firstRound s
                then s\<lparr>cs_prevCloseTime := lg_closeTime prevLedger, cs_firstRound := False\<rparr>
                else s\<lparr>cs_prevCloseTime := ct_self (cs_rawCloseTimes s)\<rparr>)
      in startRoundInternal ops ad fuel now prevLedgerID prevLedger
           (if proposing then Proposing else Observing) s1)"

end
