(* ===== verification/ConsensusInvariant.thy ===== *)
theory ConsensusInvariant
  imports Consensus
begin

text \<open>
  What holds of the consensus engine in every state it can reach. The invariant is stated
  over an abstract transaction set; the lemmas of the component are proved once in the
  locale \<open>tx_set\<close>, each giving the set of assertions an operation may fail and what
  holds of the state it leaves. The properties at the end are about the wrapped hash trees
  of \<open>TxSet\<close>, through the interpretation there.
\<close>

section \<open>The invariant\<close>

definition dispute_ok :: "('s, 'x) txset_ops \<Rightarrow> ('x \<Rightarrow> bool) \<Rightarrow> uint160 set \<Rightarrow> 's \<Rightarrow> uint256 \<Rightarrow> 'x disputed_tx \<Rightarrow> bool" where
  "dispute_ok ops okx peers st txID d \<longleftrightarrow>
     dispute_wf d \<and> hm_keys (dt_votes d) \<subseteq> peers \<and> okx (dt_tx d) \<and> ts_txid ops (dt_tx d) = txID \<and>
     dt_ourVote d = ts_exists ops st txID"

definition disputes_ok :: "('s, 'x) txset_ops \<Rightarrow> ('x \<Rightarrow> bool) \<Rightarrow> uint160 set \<Rightarrow> 's \<Rightarrow>
    (uint256, 'x disputed_tx) hash_map \<Rightarrow> bool" where
  "disputes_ok ops okx peers st ds \<longleftrightarrow>
     hm_distinct ds \<and> (\<forall>p \<in> set ds. dispute_ok ops okx peers st (fst p) (snd p))"

definition result_ok :: "('s, 'x) txset_ops \<Rightarrow> ('s \<Rightarrow> bool) \<Rightarrow> ('x \<Rightarrow> bool) \<Rightarrow> uint160 set \<Rightarrow> uint256 set \<Rightarrow>
    ('s, 'x) cresult \<Rightarrow> bool" where
  "result_ok ops ok okx peers acquired r \<longleftrightarrow>
     ok (rs_set r) \<and> pr_position (rs_position r) = ts_id ops (rs_set r) \<and>
     (isBowOut (rs_position r) \<or> pr_position (rs_position r) \<in> acquired) \<and>
     disputes_ok ops okx peers (rs_set r) (rs_disputes r)"

definition peers_ok :: "uint256 \<Rightarrow> (uint160, proposal) hash_map \<Rightarrow> uint160 list \<Rightarrow> bool" where
  "peers_ok prevLedgerID peers dead \<longleftrightarrow>
     hm_distinct peers \<and> hm_keys peers \<inter> set dead = {} \<and>
     (\<forall>p \<in> set peers. pr_nodeID (snd p) = fst p \<and> pr_previousLedger (snd p) = prevLedgerID \<and>
        \<not> isBowOut (snd p))"

definition acquired_ok :: "('s, 'x) txset_ops \<Rightarrow> ('s \<Rightarrow> bool) \<Rightarrow> (uint256, 's) hash_map \<Rightarrow> bool" where
  "acquired_ok ops ok acq \<longleftrightarrow> hm_distinct acq \<and> (\<forall>p \<in> set acq. ok (snd p) \<and> ts_id ops (snd p) = fst p)"

definition consensus_inv :: "('s, 'x) txset_ops \<Rightarrow> ('s \<Rightarrow> bool) \<Rightarrow> ('x \<Rightarrow> bool) \<Rightarrow> ('s, 'x) consensus \<Rightarrow> bool" where
  "consensus_inv ops ok okx s \<longleftrightarrow>
     peers_ok (cs_prevLedgerID s) (cs_peerProposals s) (cs_deadNodes s) \<and>
     acquired_ok ops ok (cs_acquired s) \<and>
     count_wf (ct_peers (cs_rawCloseTimes s)) \<and>
     (cs_phase s = Open \<longrightarrow> cs_result s = None) \<and>
     (cs_phase s = Establish \<longrightarrow> cs_result s \<noteq> None) \<and>
     (case cs_result s of None \<Rightarrow> True
      | Some r \<Rightarrow> result_ok ops ok okx (hm_keys (cs_peerProposals s)) (hm_keys (cs_acquired s)) r)"

definition onLedger :: "('s, 'x) consensus \<Rightarrow> bool" where
  "onLedger s \<longleftrightarrow> cs_mode s = WrongLedger \<or> lg_id (cs_previousLedger s) = cs_prevLedgerID s"

text \<open>What dispute handling leaves alone.\<close>

definition result_core :: "('s, 'x) consensus \<Rightarrow> ('s \<times> proposal \<times> stopwatch \<times> consensus_state) option" where
  "result_core s = map_option (\<lambda>r. (rs_set r, rs_position r, rs_roundTime r, rs_state r)) (cs_result s)"

definition same_but_disputes :: "('s, 'x) consensus \<Rightarrow> ('s, 'x) consensus \<Rightarrow> bool" where
  "same_but_disputes s s' \<longleftrightarrow>
     (\<exists>r out. s' = s\<lparr>cs_result := r, cs_out := out\<rparr>) \<and> result_core s' = result_core s"

text \<open>What handling a message leaves alone.\<close>

definition same_round :: "('s, 'x) consensus \<Rightarrow> ('s, 'x) consensus \<Rightarrow> bool" where
  "same_round s s' \<longleftrightarrow>
     cs_phase s' = cs_phase s \<and> cs_mode s' = cs_mode s \<and> cs_prevLedgerID s' = cs_prevLedgerID s \<and>
     cs_previousLedger s' = cs_previousLedger s \<and> cs_prevProposers s' = cs_prevProposers s \<and>
     result_core s' = result_core s"

lemma same_but_disputes_refl [simp]: "same_but_disputes s s"
proof -
  have "s = s\<lparr>cs_result := cs_result s, cs_out := cs_out s\<rparr>" by simp
  then show ?thesis unfolding same_but_disputes_def by blast
qed

lemma same_but_disputes_trans:
  "same_but_disputes s t \<Longrightarrow> same_but_disputes t u \<Longrightarrow> same_but_disputes s u"
  unfolding same_but_disputes_def by (elim conjE exE, intro conjI exI) (simp, simp)

lemma same_round_refl [simp]: "same_round s s"
  by (simp add: same_round_def)

lemma same_round_trans: "same_round s t \<Longrightarrow> same_round t u \<Longrightarrow> same_round s u"
  by (simp add: same_round_def)

lemma same_but_disputes_fields:
  assumes "same_but_disputes s s'"
  shows "cs_peerProposals s' = cs_peerProposals s" "cs_acquired s' = cs_acquired s"
    "cs_deadNodes s' = cs_deadNodes s" "same_round s s'" "cs_now s' = cs_now s"
    "cs_rawCloseTimes s' = cs_rawCloseTimes s"
  using assms unfolding same_but_disputes_def same_round_def by auto

lemma acquired_find: "acquired_ok ops ok acq \<Longrightarrow> map_of acq k = Some t \<Longrightarrow> ok t \<and> ts_id ops t = k"
  by (auto simp: acquired_ok_def dest!: map_of_SomeD)

lemma acquired_emplace:
  "acquired_ok ops ok acq \<Longrightarrow> ok t \<Longrightarrow> ts_id ops t = k \<Longrightarrow> acquired_ok ops ok (fst (hm_emplace k t acq))"
  by (auto simp: acquired_ok_def hm_emplace_set split: if_splits)

lemma disputes_ok_map:
  assumes "disputes_ok ops okx peers st ds"
    and "\<And>k d. dispute_ok ops okx peers st k d \<Longrightarrow> dispute_ok ops okx peers' st k (f d)"
  shows "disputes_ok ops okx peers' st (hm_map f ds)"
  using assms by (auto simp: disputes_ok_def set_hm_map)

lemma dispute_ok_setVote:
  "dispute_ok ops okx peers st k d \<Longrightarrow> p \<in> peers \<Longrightarrow> dispute_ok ops okx peers st k (setVote p v d)"
  by (auto simp: dispute_ok_def voters_setVote)

lemma dispute_ok_unVote:
  "dispute_ok ops okx peers st k d \<Longrightarrow> dispute_ok ops okx (peers - {p}) st k (unVote p d)"
  by (auto simp: dispute_ok_def voters_unVote)

lemma dispute_ok_mono:
  "dispute_ok ops okx peers st k d \<Longrightarrow> peers \<subseteq> peers' \<Longrightarrow> dispute_ok ops okx peers' st k d"
  by (auto simp: dispute_ok_def)

lemma peerVotes_ok:
  assumes "dispute_ok ops okx peers st k d" "hm_keys pps \<subseteq> peers"
  shows "dispute_ok ops okx peers st k (peerVotes ops acq pps txID d)"
  using assms unfolding peerVotes_def
proof (induction pps arbitrary: d)
  case (Cons p pps)
  then show ?case by (auto split: option.splits intro: dispute_ok_setVote)
qed simp

lemma withResult_Some [simp]: "cs_result s = Some r \<Longrightarrow> withResult msg s f = f r"
  by (simp add: withResult_def)

lemma consensus_inv_result:
  "consensus_inv ops ok okx s \<Longrightarrow> cs_result s = Some r \<Longrightarrow>
     result_ok ops ok okx (hm_keys (cs_peerProposals s)) (hm_keys (cs_acquired s)) r"
  by (simp add: consensus_inv_def)

lemma consensus_inv_set_result:
  assumes "consensus_inv ops ok okx s" "cs_result s = Some r"
    and "result_ok ops ok okx (hm_keys (cs_peerProposals s)) (hm_keys (cs_acquired s)) r'"
  shows "consensus_inv ops ok okx (s\<lparr>cs_result := Some r'\<rparr>)"
  using assms by (simp add: consensus_inv_def)

lemma emit_fields [simp]:
  "cs_phase (emit e s) = cs_phase s" "cs_mode (emit e s) = cs_mode s"
  "cs_now (emit e s) = cs_now s" "cs_prevLedgerID (emit e s) = cs_prevLedgerID s"
  "cs_previousLedger (emit e s) = cs_previousLedger s" "cs_acquired (emit e s) = cs_acquired s"
  "cs_result (emit e s) = cs_result s" "cs_rawCloseTimes (emit e s) = cs_rawCloseTimes s"
  "cs_peerProposals (emit e s) = cs_peerProposals s" "cs_prevProposers (emit e s) = cs_prevProposers s"
  "cs_deadNodes (emit e s) = cs_deadNodes s" "cs_out (emit e s) = cs_out s @ [e]"
  "cs_closeResolution (emit e s) = cs_closeResolution s" "cs_prevRoundTime (emit e s) = cs_prevRoundTime s"
  "cs_haveCloseTimeConsensus (emit e s) = cs_haveCloseTimeConsensus s"
  by (simp_all add: emit_def)

lemma consensus_inv_emit [simp]: "consensus_inv ops ok okx (emit e s) \<longleftrightarrow> consensus_inv ops ok okx s"
  by (cases "cs_result s") (simp_all add: consensus_inv_def)

lemma same_but_disputes_set:
  assumes "cs_result s = Some r" "rs_set r' = rs_set r" "rs_position r' = rs_position r"
    "rs_roundTime r' = rs_roundTime r" "rs_state r' = rs_state r"
  shows "same_but_disputes s (s\<lparr>cs_result := Some r'\<rparr>)"
    "same_but_disputes s (emit e s\<lparr>cs_result := Some r'\<rparr>)"
proof -
  have "s\<lparr>cs_result := Some r'\<rparr> = s\<lparr>cs_result := Some r', cs_out := cs_out s\<rparr>" by simp
  then have "\<exists>q out. s\<lparr>cs_result := Some r'\<rparr> = s\<lparr>cs_result := q, cs_out := out\<rparr>" by (intro exI)
  with assms show "same_but_disputes s (s\<lparr>cs_result := Some r'\<rparr>)"
    unfolding same_but_disputes_def result_core_def by simp
  have "emit e s\<lparr>cs_result := Some r'\<rparr> = s\<lparr>cs_result := Some r', cs_out := cs_out s @ [e]\<rparr>"
    by (simp add: emit_def)
  then have "\<exists>q out. emit e s\<lparr>cs_result := Some r'\<rparr> = s\<lparr>cs_result := q, cs_out := out\<rparr>" by (intro exI)
  with assms show "same_but_disputes s (emit e s\<lparr>cs_result := Some r'\<rparr>)"
    unfolding same_but_disputes_def result_core_def by simp
qed

context tx_set
begin

abbreviation inv :: "('s, 'x) consensus \<Rightarrow> bool" where
  "inv \<equiv> consensus_inv ops ok okx"

lemma createDispute_ok:
  assumes "inv s" "cs_result s = Some r" "ok other"
    and "ts_exists ops (rs_set r) (fst diff) = snd diff" "ts_exists ops other (fst diff) = (\<not> snd diff)"
  shows "rok {} (\<lambda>s'. inv s' \<and> same_but_disputes s s') (createDispute ops other diff s)"
proof -
  note r = consensus_inv_result [OF assms(1,2), unfolded result_ok_def]
  let ?ours = "ts_find ops (rs_set r) (fst diff)" and ?theirs = "ts_find ops other (fst diff)"
  define tx where "tx = (if snd diff then the ?ours else the ?theirs)"
  have f: "ts_exists ops (rs_set r) (fst diff) \<longleftrightarrow> ?ours \<noteq> None" "ts_exists ops other (fst diff) \<longleftrightarrow> ?theirs \<noteq> None"
    using find_exists r assms(3) by blast+
  then have a: "(snd diff \<and> ?ours \<noteq> None \<and> ?theirs = None) \<or> (\<not> snd diff \<and> ?ours = None \<and> ?theirs \<noteq> None)"
    using assms(4,5) by auto
  have tx: "okx tx" "ts_txid ops tx = fst diff"
    using a find_ok [of "rs_set r" "fst diff"] find_ok [OF assms(3), of "fst diff"] r
    by (auto simp: tx_def split: if_splits)
  let ?k = "ts_txid ops tx"
  let ?d = "peerVotes ops (cs_acquired s) (cs_peerProposals s) ?k (makeDisputedTx tx (ts_exists ops (rs_set r) ?k))"
  let ?r = "r\<lparr>rs_disputes := fst (hm_emplace ?k ?d (rs_disputes r))\<rparr>"
  have step: "createDispute ops other diff s =
      (if map_of (rs_disputes r) ?k \<noteq> None then Inr s else Inr (emit (RelayTx tx) s\<lparr>cs_result := Some ?r\<rparr>))"
    using a assms(2) unfolding createDispute_def withResult_Some [OF assms(2)] tx_def [symmetric] Let_def
    by simp
  have "dispute_ok ops okx (hm_keys (cs_peerProposals s)) (rs_set r) ?k (makeDisputedTx tx (ts_exists ops (rs_set r) ?k))"
    using tx(1) by (simp add: dispute_ok_def)
  then have "dispute_ok ops okx (hm_keys (cs_peerProposals s)) (rs_set r) ?k ?d"
    by (rule peerVotes_ok) simp
  then have "disputes_ok ops okx (hm_keys (cs_peerProposals s)) (rs_set r) (fst (hm_emplace ?k ?d (rs_disputes r)))"
    using r by (auto simp: disputes_ok_def hm_emplace_set split: if_splits)
  then have "inv (emit (RelayTx tx) s\<lparr>cs_result := Some ?r\<rparr>)"
    using assms(1,2) r by (intro consensus_inv_set_result) (auto simp: result_ok_def)
  moreover have "same_but_disputes s (emit (RelayTx tx) s\<lparr>cs_result := Some ?r\<rparr>)"
    by (rule same_but_disputes_set(2) [OF assms(2)]) simp_all
  ultimately show ?thesis using assms(1) by (simp add: step)
qed

lemma same_core:
  assumes "same_but_disputes s s'" "cs_result s = Some r"
  obtains r' where "cs_result s' = Some r'" "rs_set r' = rs_set r" "rs_position r' = rs_position r"
    "rs_roundTime r' = rs_roundTime r" "rs_state r' = rs_state r"
  using assms by (auto simp: same_but_disputes_def result_core_def)

lemma createDisputes_ok:
  assumes "inv s" "cs_result s = Some r" "ok other"
  shows "rok {} (\<lambda>s'. inv s' \<and> same_but_disputes s s') (createDisputes ops other s)"
proof (cases "ts_id ops other \<in> set (rs_compares r)")
  case True
  then show ?thesis using assms by (simp add: createDisputes_def)
next
  case False
  let ?r = "r\<lparr>rs_compares := ts_id ops other # rs_compares r\<rparr>"
  let ?s = "s\<lparr>cs_result := Some ?r\<rparr>"
  have s1: "inv ?s" "same_but_disputes s ?s" "cs_result ?s = Some ?r"
    using consensus_inv_result [OF assms(1,2)] same_but_disputes_set(1) [OF assms(2), of ?r]
    by (auto intro!: consensus_inv_set_result [OF assms(1,2)] simp: result_ok_def)
  have "ok (rs_set r)" using consensus_inv_result [OF assms(1,2)] by (simp add: result_ok_def)
  from compare_ok [OF this assms(3)] obtain d where d: "ts_compare ops (rs_set r) other = Inr d"
    "\<forall>(k, b) \<in> set d. ts_exists ops (rs_set r) k = b \<and> ts_exists ops other k = (\<not> b)" by blast
  have "rok {} (\<lambda>s'. inv s' \<and> same_but_disputes ?s s') (rfold (createDispute ops other) d ?s)"
  proof (rule rok_fold)
    show "inv ?s \<and> same_but_disputes ?s ?s" using s1 by simp
    fix x t assume x: "x \<in> set d" and t: "inv t \<and> same_but_disputes ?s t"
    then obtain r' where r': "cs_result t = Some r'" "rs_set r' = rs_set r"
      using same_core [OF _ s1(3), of t] by auto
    have "ts_exists ops (rs_set r') (fst x) = snd x" "ts_exists ops other (fst x) = (\<not> snd x)"
      using d(2) x r'(2) by (auto split: prod.splits)
    from createDispute_ok [OF _ r'(1) assms(3) this] t
    show "rok {} (\<lambda>s'. inv s' \<and> same_but_disputes ?s s') (createDispute ops other x t)"
      by (auto elim!: rok_mono intro: same_but_disputes_trans)
  qed
  then have "rok {} (\<lambda>s'. inv s' \<and> same_but_disputes s s') (rfold (createDispute ops other) d ?s)"
    by (rule rok_mono) (use same_but_disputes_trans [OF s1(2)] in auto)
  then show ?thesis
    using assms(2) False s1 d(1) by (simp add: createDisputes_def Let_def)
qed

lemma updateDisputes_ok:
  assumes "inv s" "cs_result s = Some r" "ok other" "node \<in> hm_keys (cs_peerProposals s)"
  shows "rok {} (\<lambda>s'. inv s' \<and> same_but_disputes s s') (updateDisputes ops node other s)"
proof -
  have "rok {} (\<lambda>s'. inv s' \<and> same_but_disputes s s')
      (if ts_id ops other \<in> set (rs_compares r) then Inr s else createDisputes ops other s)"
    using assms(1) createDisputes_ok [OF assms(1-3)] by simp
  then show ?thesis
    unfolding updateDisputes_def withResult_Some [OF assms(2)]
  proof (rule rok_bind)
    fix s1 assume s1: "inv s1 \<and> same_but_disputes s s1"
    then obtain r1 where r1: "cs_result s1 = Some r1" using same_core [OF _ assms(2)] by blast
    let ?f = "\<lambda>d. setVote node (ts_exists ops other (ts_txid ops (dt_tx d))) d"
    let ?r = "r1\<lparr>rs_disputes := hm_map ?f (rs_disputes r1)\<rparr>"
    have n: "node \<in> hm_keys (cs_peerProposals s1)"
      using assms(4) same_but_disputes_fields(1) [of s s1] s1 by simp
    have ro: "result_ok ops ok okx (hm_keys (cs_peerProposals s1)) (hm_keys (cs_acquired s1)) ?r"
      using consensus_inv_result [OF _ r1] s1 n
      by (auto simp: result_ok_def intro!: disputes_ok_map dispute_ok_setVote)
    have "inv (s1\<lparr>cs_result := Some ?r\<rparr>)"
      using s1 consensus_inv_set_result [OF _ r1 ro] by blast
    moreover have "same_but_disputes s (s1\<lparr>cs_result := Some ?r\<rparr>)"
      using s1 same_but_disputes_set(1) [OF r1, of ?r] by (auto intro: same_but_disputes_trans)
    ultimately show "rok {} (\<lambda>s'. inv s' \<and> same_but_disputes s s')
       (withResult ''updateDisputes'' s1
         (\<lambda>r1. Inr (s1\<lparr>cs_result := Some (r1\<lparr>rs_disputes := hm_map ?f (rs_disputes r1)\<rparr>)\<rparr>)))"
      by (simp add: r1)
  qed
qed

end

text \<open>
  What the engine relies on in its application: sets come with the identity they were
  asked for, a closed ledger gives a consistent initial position, and an acquired ledger
  is the one requested and has a usable close time resolution.
\<close>

definition ledger_ok :: "ledger \<Rightarrow> bool" where
  "ledger_ok L \<longleftrightarrow> getNextLedgerTimeResolution_asserts (lg_closeTimeResolution L) (lg_seq L + 1)"

definition adaptor_ok :: "('s, 'x) txset_ops \<Rightarrow> ('s \<Rightarrow> bool) \<Rightarrow> 's adaptor \<Rightarrow> bool" where
  "adaptor_ok ops ok ad \<longleftrightarrow>
     (\<forall>k t. ad_acquireTxSet ad k = Some t \<longrightarrow> ok t \<and> ts_id ops t = k) \<and>
     (\<forall>L now m st pos. ad_onClose ad L now m = (st, pos) \<longrightarrow> ok st \<and> ts_id ops st = pr_position pos) \<and>
     (\<forall>k L. ad_acquireLedger ad k = Some L \<longrightarrow> lg_id L = k \<and> ledger_ok L)"

definition bowedOut :: "('s, 'x) consensus \<Rightarrow> bool" where
  "bowedOut s \<longleftrightarrow> (case cs_result s of None \<Rightarrow> False | Some r \<Rightarrow> isBowOut (rs_position r))"

abbreviation gotTxSet_assert :: error where
  "gotTxSet_assert \<equiv> AssertFailed ''gotTxSet''"

lemma same_round_bowedOut: "same_round s s' \<Longrightarrow> bowedOut s' = bowedOut s"
  by (cases "cs_result s"; cases "cs_result s'")
    (auto simp: same_round_def result_core_def bowedOut_def)

lemma consensus_inv_now [simp]: "consensus_inv ops ok okx (s\<lparr>cs_now := n\<rparr>) \<longleftrightarrow> consensus_inv ops ok okx s"
  by (cases "cs_result s") (simp_all add: consensus_inv_def)

lemma result_core_now [simp]: "result_core (s\<lparr>cs_now := n\<rparr>) = result_core s"
  by (simp add: result_core_def)

lemma consensus_inv_acquired:
  assumes "consensus_inv ops ok okx s" "acquired_ok ops ok acq" "hm_keys (cs_acquired s) \<subseteq> hm_keys acq"
  shows "consensus_inv ops ok okx (s\<lparr>cs_acquired := acq\<rparr>)"
  using assms by (cases "cs_result s") (auto simp: consensus_inv_def result_ok_def)

context tx_set
begin

lemma gotTxSet_ok:
  assumes "inv s" "ok txSet" "bowedOut s \<longrightarrow> gotTxSet_assert \<in> E"
  shows "rok E (\<lambda>s'. inv s' \<and> same_round s s' \<and> cs_peerProposals s' = cs_peerProposals s)
    (gotTxSet ops now txSet s)"
proof -
  let ?k = "ts_id ops txSet" let ?s1 = "s\<lparr>cs_now := now\<rparr>"
  let ?em = "hm_emplace ?k txSet (cs_acquired s)"
  let ?s2 = "?s1\<lparr>cs_acquired := fst ?em\<rparr>"
  have i1: "inv ?s1" "same_round s ?s1" using assms(1) by (simp_all add: same_round_def)
  have i2: "inv ?s2" "same_round s ?s2"
    using assms(1,2) by (auto intro!: consensus_inv_acquired acquired_emplace simp: same_round_def result_core_def)
      (simp add: consensus_inv_def)
  consider "cs_phase s = Accepted \<or> \<not> snd ?em" | "cs_phase s \<noteq> Accepted" "snd ?em" "cs_result s = None"
    | r where "cs_phase s \<noteq> Accepted" "snd ?em" "cs_result s = Some r" by (cases "cs_result s") auto
  then show ?thesis
  proof cases
    case 1
    then show ?thesis using assms(1) i1 by (auto simp: gotTxSet_def Let_def)
  next
    case 2
    then show ?thesis using i2 by (simp add: gotTxSet_def Let_def)
  next
    case (3 r)
    have new: "?k \<notin> hm_keys (cs_acquired s)" using 3(2) by (simp add: hm_emplace_snd)
    have pos: "pr_position (rs_position r) \<in> hm_keys (cs_acquired s) \<or> bowedOut s"
      using consensus_inv_result [OF assms(1) 3(3)] 3(3) by (auto simp: result_ok_def bowedOut_def)
    let ?loop = "rfold (\<lambda>p s'. if pr_position (snd p) = ?k then updateDisputes ops (fst p) txSet s' else Inr s')
      (cs_peerProposals s) ?s2"
    have "rok {} (\<lambda>s'. inv s' \<and> same_but_disputes ?s2 s') ?loop"
    proof (rule rok_fold)
      show "inv ?s2 \<and> same_but_disputes ?s2 ?s2" using i2 by simp
      fix p t assume p: "p \<in> set (cs_peerProposals s)" and t: "inv t \<and> same_but_disputes ?s2 t"
      have res2: "cs_result ?s2 = Some r" using 3(3) by simp
      from t obtain r' where r': "cs_result t = Some r'" using same_core [OF _ res2, of t] by blast
      have "cs_peerProposals t = cs_peerProposals s" using same_but_disputes_fields(1) [of ?s2 t] t by simp
      then have "fst p \<in> hm_keys (cs_peerProposals t)" using p by (simp add: hm_keys_def)
      from updateDisputes_ok [OF _ r' assms(2) this] t
      show "rok {} (\<lambda>s'. inv s' \<and> same_but_disputes ?s2 s')
          (if pr_position (snd p) = ?k then updateDisputes ops (fst p) txSet t else Inr t)"
        by (auto elim!: rok_mono intro: same_but_disputes_trans)
    qed
    then have "rok E (\<lambda>s'. inv s' \<and> same_round s s' \<and> cs_peerProposals s' = cs_peerProposals s) ?loop"
      by (rule rok_mono) (use same_but_disputes_fields [of ?s2] same_round_trans [OF i2(2)] in auto)
    moreover have "gotTxSet ops now txSet s = rassert (?k \<noteq> pr_position (rs_position r)) ''gotTxSet'' ?loop"
      using 3 by (simp add: gotTxSet_def Let_def)
    ultimately show ?thesis using pos new assms(3) by (auto simp: rassert_def)
  qed
qed

end

lemma peers_ok_update:
  assumes "peers_ok prev peers dead" "pr_previousLedger p = prev" "pr_nodeID p \<notin> set dead" "\<not> isBowOut p"
  shows "peers_ok prev (AList.update (pr_nodeID p) p peers) dead"
  using assms by (auto simp: peers_ok_def set_hm_update)

lemma peers_ok_delete:
  "peers_ok prev peers dead \<Longrightarrow> peers_ok prev (AList.delete n peers) (n # dead)"
  by (auto simp: peers_ok_def AList.delete_eq hm_keys_def hm_distinct_def distinct_map inj_on_def)

lemma consensus_inv_add_peer:
  assumes "consensus_inv ops ok okx s" "peers_ok (cs_prevLedgerID s) peers (cs_deadNodes s)"
    "hm_keys (cs_peerProposals s) \<subseteq> hm_keys peers"
  shows "consensus_inv ops ok okx (s\<lparr>cs_peerProposals := peers\<rparr>)"
  using assms by (cases "cs_result s")
    (auto simp: consensus_inv_def result_ok_def disputes_ok_def intro: dispute_ok_mono)

lemma consensus_inv_bow_out:
  assumes "consensus_inv ops ok okx s"
  shows "consensus_inv ops ok okx
    (s\<lparr>cs_result := map_option (\<lambda>r. r\<lparr>rs_disputes := hm_map (unVote n) (rs_disputes r)\<rparr>) (cs_result s),
       cs_peerProposals := AList.delete n (cs_peerProposals s), cs_deadNodes := n # cs_deadNodes s\<rparr>)"
  using assms by (cases "cs_result s")
    (auto simp: consensus_inv_def result_ok_def intro!: peers_ok_delete disputes_ok_map dispute_ok_unVote)

lemma recordCloseTime_ok:
  "consensus_inv ops ok okx s \<Longrightarrow> consensus_inv ops ok okx (recordCloseTime p s)"
  "same_round s (recordCloseTime p s)"
  "cs_peerProposals (recordCloseTime p s) = cs_peerProposals s"
  "cs_result (recordCloseTime p s) = cs_result s"
  "cs_acquired (recordCloseTime p s) = cs_acquired s"
  by (cases "cs_result s"; auto simp: recordCloseTime_def consensus_inv_def same_round_def result_core_def)+

context tx_set
begin

lemma recordPosition_ok:
  assumes "inv s" "adaptor_ok ops ok ad" "bowedOut s \<longrightarrow> gotTxSet_assert \<in> E"
    "pr_nodeID p \<in> hm_keys (cs_peerProposals s)"
  shows "rok E (\<lambda>s'. inv s' \<and> same_round s s') (recordPosition ops ad p s)"
proof -
  let ?s1 = "recordCloseTime p s"
  note s1 = recordCloseTime_ok
  have i1: "inv ?s1" "same_round s ?s1" using assms(1) s1 by blast+
  note eq = recordPosition_def [of ops ad p s, unfolded Let_def]
  show ?thesis
  proof (cases "map_of (cs_acquired ?s1) (pr_position p)")
    case None
    show ?thesis
    proof (cases "ad_acquireTxSet ad (pr_position p)")
      case (Some t)
      have "ok t" using assms(2) Some by (auto simp: adaptor_ok_def)
      have "bowedOut ?s1 \<longrightarrow> gotTxSet_assert \<in> E" using assms(3) same_round_bowedOut [OF i1(2)] by simp
      from gotTxSet_ok [OF i1(1) \<open>ok t\<close> this] have "rok E (\<lambda>s'. inv s' \<and> same_round s s') (gotTxSet ops (cs_now ?s1) t ?s1)"
        by (rule rok_mono) (auto intro: same_round_trans [OF i1(2)])
      then show ?thesis using None Some eq by simp
    qed (use None eq i1 in simp)
  next
    case (Some t)
    have t: "ok t" using acquired_find [OF _ Some, of ops ok] i1(1) by (simp add: consensus_inv_def)
    show ?thesis
    proof (cases "cs_result ?s1")
      case (Some r)
      have "pr_nodeID p \<in> hm_keys (cs_peerProposals ?s1)" using assms(4) by (simp add: s1(3))
      from updateDisputes_ok [OF i1(1) Some t this]
      have "rok E (\<lambda>s'. inv s' \<and> same_round s s') (updateDisputes ops (pr_nodeID p) t ?s1)"
        by (rule rok_mono) (auto intro: same_round_trans [OF i1(2)] same_but_disputes_fields(4))
      then show ?thesis using \<open>map_of _ _ = Some t\<close> Some eq by simp
    qed (use Some eq i1 in simp)
  qed
qed

lemma peerProposal_ok:
  assumes "inv s" "adaptor_ok ops ok ad" "bowedOut s \<longrightarrow> gotTxSet_assert \<in> E"
  shows "rok E (\<lambda>x. inv (fst x) \<and> same_round s (fst x)) (peerProposal ops ad now p s)"
proof -
  let ?n = "pr_nodeID p" let ?s1 = "s\<lparr>cs_now := now\<rparr>"
  have r1: "same_round s ?s1" by (simp add: same_round_def)
  define stale where "stale \<longleftrightarrow> (case map_of (cs_peerProposals s) ?n of None \<Rightarrow> False
                  | Some cur \<Rightarrow> pr_proposeSeq p \<le> pr_proposeSeq cur)"
  consider "cs_phase s = Accepted \<or> pr_previousLedger p \<noteq> cs_prevLedgerID s \<or> ?n \<in> set (cs_deadNodes s) \<or> stale"
    | "cs_phase s \<noteq> Accepted" "pr_previousLedger p = cs_prevLedgerID s" "?n \<notin> set (cs_deadNodes s)" "\<not> stale" "isBowOut p"
    | "cs_phase s \<noteq> Accepted" "pr_previousLedger p = cs_prevLedgerID s" "?n \<notin> set (cs_deadNodes s)" "\<not> stale" "\<not> isBowOut p"
    by blast
  then show ?thesis
  proof cases
    case 1
    then have "\<exists>t. t \<in> {s, ?s1} \<and> peerProposal ops ad now p s = Inr (t, False)"
      unfolding peerProposal_def Let_def stale_def [symmetric] by auto
    then show ?thesis using assms(1) r1 by auto
  next
    case 2
    let ?s2 = "?s1\<lparr>cs_result := map_option (\<lambda>r. r\<lparr>rs_disputes := hm_map (unVote ?n) (rs_disputes r)\<rparr>) (cs_result s),
                  cs_peerProposals := AList.delete ?n (cs_peerProposals s),
                  cs_deadNodes := ?n # cs_deadNodes s\<rparr>"
    have "peerProposal ops ad now p s = Inr (?s2, True)"
      using 2 unfolding peerProposal_def Let_def stale_def [symmetric] by simp
    moreover have "inv ?s2" using consensus_inv_bow_out [of ops ok okx ?s1 ?n] assms(1) by simp
    moreover have "same_round s ?s2" by (cases "cs_result s") (simp_all add: same_round_def result_core_def)
    ultimately show ?thesis by simp
  next
    case 3
    let ?s2 = "?s1\<lparr>cs_peerProposals := AList.update ?n p (cs_peerProposals s)\<rparr>"
    have "peerProposal ops ad now p s = rbind (recordPosition ops ad p ?s2) (\<lambda>s2. Inr (s2, True))"
      using 3 unfolding peerProposal_def Let_def stale_def [symmetric] by simp
    moreover have "inv ?s2"
    proof (rule consensus_inv_add_peer)
      show "inv ?s1" using assms(1) by simp
      show "peers_ok (cs_prevLedgerID ?s1) (AList.update ?n p (cs_peerProposals s)) (cs_deadNodes ?s1)"
        using assms(1) 3 by (auto intro!: peers_ok_update simp: consensus_inv_def)
    qed auto
    moreover have r2: "same_round s ?s2" by (simp add: same_round_def result_core_def)
    moreover have "bowedOut ?s2 \<longrightarrow> gotTxSet_assert \<in> E" using assms(3) same_round_bowedOut [OF r2] by simp
    ultimately show ?thesis
      using recordPosition_ok [OF _ assms(2), of ?s2 E p]
      by (auto intro!: rok_bind [where P = "\<lambda>s'. inv s' \<and> same_round ?s2 s'"] intro: same_round_trans)
  qed
qed

lemma playbackProposals_ok:
  assumes "inv s" "adaptor_ok ops ok ad" "bowedOut s \<longrightarrow> gotTxSet_assert \<in> E"
  shows "rok E (\<lambda>s'. inv s' \<and> same_round s s') (playbackProposals ops ad s)"
  unfolding playbackProposals_def
proof (rule rok_fold)
  show "inv s \<and> same_round s s" using assms by simp
  fix p t assume t: "inv t \<and> same_round s t"
  then have "bowedOut t \<longrightarrow> gotTxSet_assert \<in> E" using assms(3) same_round_bowedOut by blast
  from peerProposal_ok [OF _ assms(2) this] t
  show "rok E (\<lambda>s'. inv s' \<and> same_round s s')
     (rbind (peerProposal ops ad (cs_now t) p t)
       (\<lambda>(s'', accepted). Inr (if accepted then emit (RelayProposal p) s'' else s'')))"
    by (auto intro!: rok_bind [where P = "\<lambda>x. inv (fst x) \<and> same_round t (fst x)"]
        simp: same_round_def result_core_def)
qed

end

definition same_ledger :: "('s, 'x) consensus \<Rightarrow> ('s, 'x) consensus \<Rightarrow> bool" where
  "same_ledger s s' \<longleftrightarrow> cs_mode s' = cs_mode s \<and> cs_prevLedgerID s' = cs_prevLedgerID s \<and>
     cs_previousLedger s' = cs_previousLedger s"

lemma same_ledger_refl [simp]: "same_ledger s s"
  by (simp add: same_ledger_def)

lemma same_ledger_trans: "same_ledger s t \<Longrightarrow> same_ledger t u \<Longrightarrow> same_ledger s u"
  by (simp add: same_ledger_def)

lemma same_round_ledger: "same_round s t \<Longrightarrow> same_ledger s t"
  by (simp add: same_ledger_def same_round_def)

section \<open>Freshness of the peers\<close>

lemma freshen_simps:
  "isStale cutoff (snd it) \<Longrightarrow>
     freshen cutoff res prior it (kept, ecs, ds) = (kept, ecs, hm_map (unVote (pr_nodeID (snd it))) ds)"
  "\<not> isStale cutoff (snd it) \<Longrightarrow>
     freshen cutoff res prior it (kept, ecs, ds) =
       (kept @ [it], count_inc (effCloseTime (pr_closeTime (snd it)) res prior) ecs, ds)"
  by (simp_all add: freshen_def)

lemma freshen_fold:
  assumes "fold (freshen cutoff res prior) pps (kept, ecs, ds) = (kept', ecs', ds')"
    "hm_distinct (kept @ pps)" "\<forall>p \<in> set pps. pr_nodeID (snd p) = fst p"
    "disputes_ok ops okx (hm_keys kept \<union> hm_keys pps) st ds" "count_wf ecs"
  shows "kept' = kept @ filter (\<lambda>p. \<not> isStale cutoff (snd p)) pps \<and> count_wf ecs' \<and>
    disputes_ok ops okx (hm_keys kept') st ds'"
  using assms
proof (induction pps arbitrary: kept ecs ds)
  case (Cons p pps)
  show ?case
  proof (cases "isStale cutoff (snd p)")
    case True
    have eq: "hm_keys kept \<union> hm_keys pps = (hm_keys kept \<union> hm_keys (p # pps)) - {pr_nodeID (snd p)}"
      using Cons(3,4) by auto
    have "disputes_ok ops okx (hm_keys kept \<union> hm_keys pps) st (hm_map (unVote (pr_nodeID (snd p))) ds)"
      unfolding eq by (rule disputes_ok_map [OF Cons(5)]) (rule dispute_ok_unVote)
    moreover have "fold (freshen cutoff res prior) pps (kept, ecs, hm_map (unVote (pr_nodeID (snd p))) ds) = (kept', ecs', ds')"
      using Cons(2) True by (simp add: freshen_simps)
    ultimately show ?thesis
      using Cons(1) [of kept ecs "hm_map (unVote (pr_nodeID (snd p))) ds"] Cons(3,4,6) True by auto
  next
    case False
    let ?ecs = "count_inc (effCloseTime (pr_closeTime (snd p)) res prior) ecs"
    have "hm_keys kept \<union> hm_keys (p # pps) = hm_keys (kept @ [p]) \<union> hm_keys pps" by auto
    then have "disputes_ok ops okx (hm_keys (kept @ [p]) \<union> hm_keys pps) st ds" using Cons(5) by simp
    moreover have "fold (freshen cutoff res prior) pps (kept @ [p], ?ecs, ds) = (kept', ecs', ds')"
      using Cons(2) False by (simp add: freshen_simps)
    ultimately show ?thesis
      using Cons(1) [of "kept @ [p]" ?ecs ds] Cons(3,4,6) False by auto
  qed
qed simp

definition cur :: "'s \<Rightarrow> 's option \<Rightarrow> 's" where
  "cur st ms = (case ms of None \<Rightarrow> st | Some m \<Rightarrow> m)"

lemma cur_simps [simp]: "cur st None = st" "cur st (Some m) = m"
  by (simp_all add: cur_def)

context tx_set
begin

lemma voteDisputes_ok:
  assumes "disputes_ok ops okx peers (cur st ms) ds" "ok (cur st ms)"
  shows "\<exists>ds' ms'. voteDisputes ops percent proposing st ds ms = Inr (ds', ms') \<and>
    disputes_ok ops okx peers (cur st ms') ds' \<and> ok (cur st ms') \<and> hm_keys ds' = hm_keys ds \<and>
    (\<forall>k. k \<notin> hm_keys ds \<longrightarrow> ts_exists ops (cur st ms') k = ts_exists ops (cur st ms) k)"
  using assms
proof (induction ds arbitrary: ms)
  case (Cons p ds)
  obtain k d where p: "p = (k, d)" by (rule prod.exhaust)
  obtain d' changed where u: "updateVote percent proposing d = (d', changed)" by (rule prod.exhaust)
  have d: "dispute_ok ops okx peers (cur st ms) k d" "k \<notin> hm_keys ds"
    using Cons(2) by (auto simp: disputes_ok_def p)
  have d': "dispute_wf d'" "dt_votes d' = dt_votes d" "dt_tx d' = dt_tx d" "changed \<longleftrightarrow> dt_ourVote d' \<noteq> dt_ourVote d"
    using dispute_wf_updateVote [of d percent proposing] dispute_frame(5,6) [of percent proposing d]
      updateVote_flips [of percent proposing d] d(1) by (simp_all add: u dispute_ok_def)
  have tx: "okx (dt_tx d')" "ts_txid ops (dt_tx d') = k" "dt_ourVote d = ts_exists ops (cur st ms) k"
    using d(1) d'(3) by (simp_all add: dispute_ok_def)
  have "\<exists>ms1. (if changed then
                  (let m = (case ms of None \<Rightarrow> st | Some m \<Rightarrow> m)
                   in rbind (if dt_ourVote d' then ts_insert ops (dt_tx d') m else Inr (ts_erase ops k m))
                        (\<lambda>m'. Inr (Some m')))
                else Inr ms) = Inr ms1 \<and> ok (cur st ms1) \<and>
      (\<forall>j. ts_exists ops (cur st ms1) j = (if j = k then dt_ourVote d' else ts_exists ops (cur st ms) j))"
  proof (cases changed)
    case False
    then show ?thesis using Cons(3) d'(4) tx(3) by auto
  next
    case True
    show ?thesis
    proof (cases "dt_ourVote d'")
      case yes: True
      from insert_ok [OF Cons(3) tx(1)] obtain m' where "ts_insert ops (dt_tx d') (cur st ms) = Inr m'" "ok m'"
        "\<forall>j. ts_exists ops m' j \<longleftrightarrow> j = k \<or> ts_exists ops (cur st ms) j" using tx(2) by auto
      then show ?thesis using True yes by (intro exI [of _ "Some m'"]) (auto simp: Let_def cur_def [symmetric])
    next
      case False
      then show ?thesis using True erase_ok [OF Cons(3), of k]
        by (intro exI [of _ "Some (ts_erase ops k (cur st ms))"]) (auto simp: Let_def cur_def [symmetric])
    qed
  qed
  then obtain ms1 where ms1: "(if changed then
                  (let m = (case ms of None \<Rightarrow> st | Some m \<Rightarrow> m)
                   in rbind (if dt_ourVote d' then ts_insert ops (dt_tx d') m else Inr (ts_erase ops k m))
                        (\<lambda>m'. Inr (Some m')))
                else Inr ms) = Inr ms1" "ok (cur st ms1)"
      "\<And>j. ts_exists ops (cur st ms1) j = (if j = k then dt_ourVote d' else ts_exists ops (cur st ms) j)"
    by blast
  have "disputes_ok ops okx peers (cur st ms1) ds"
    using Cons(2) d(2) by (auto simp: disputes_ok_def p dispute_ok_def ms1(3) hm_keys_def image_iff)
  from Cons(1) [OF this ms1(2)] obtain ds' ms' where ds':
    "voteDisputes ops percent proposing st ds ms1 = Inr (ds', ms')"
    "disputes_ok ops okx peers (cur st ms') ds'" "ok (cur st ms')" "hm_keys ds' = hm_keys ds"
    "\<And>j. j \<notin> hm_keys ds \<Longrightarrow> ts_exists ops (cur st ms') j = ts_exists ops (cur st ms1) j" by blast
  have "voteDisputes ops percent proposing st (p # ds) ms = Inr ((k, d') # ds', ms')"
    unfolding p voteDisputes.simps u prod.case Let_def [of "(d', changed)"] ms1(1) rbind_simps ds'(1) by simp
  moreover have "dispute_ok ops okx peers (cur st ms') k d'"
    using d d' tx ds'(5) [OF d(2)] ms1(3) by (simp add: dispute_ok_def)
  then have "disputes_ok ops okx peers (cur st ms') ((k, d') # ds')"
    using ds'(2,4) d(2) by (simp add: disputes_ok_def)
  ultimately show ?case using ds' ms1(3) by (auto simp: p)
qed simp

end

lemma peers_ok_filter: "peers_ok prev peers dead \<Longrightarrow> peers_ok prev (filter P peers) dead"
  by (auto simp: peers_ok_def hm_keys_def hm_distinct_def distinct_map inj_on_def)

context tx_set
begin

lemma updateOurPositions_ok:
  assumes "inv s" "cs_result s = Some r"
  shows "rok {} (\<lambda>s'. inv s' \<and> same_ledger s s' \<and> cs_phase s' = cs_phase s \<and> cs_result s' \<noteq> None)
    (updateOurPositions ops s)"
proof -
  note ro = consensus_inv_result [OF assms, unfolded result_ok_def]
  have pk: "peers_ok (cs_prevLedgerID s) (cs_peerProposals s) (cs_deadNodes s)"
    and acq: "acquired_ok ops ok (cs_acquired s)" and cw: "count_wf (ct_peers (cs_rawCloseTimes s))"
    and ph: "cs_phase s \<noteq> Open"
    using assms by (auto simp: consensus_inv_def)
  let ?res = "cs_closeResolution s" and ?prior = "lg_closeTime (cs_previousLedger s)"
  obtain peers ecs ds where fold: "fold (freshen (cs_now s - PROPOSE_FRESHNESS) ?res ?prior) (cs_peerProposals s)
      ([], [], rs_disputes r) = (peers, ecs, ds)" by (metis prod.exhaust)
  have fr: "peers = filter (\<lambda>p. \<not> isStale (cs_now s - PROPOSE_FRESHNESS) (snd p)) (cs_peerProposals s)"
      "disputes_ok ops okx (hm_keys peers) (rs_set r) ds"
    using freshen_fold [OF fold, of ops okx "rs_set r"] pk ro by (auto simp: peers_ok_def)
  have pk': "peers_ok (cs_prevLedgerID s) peers (cs_deadNodes s)"
    unfolding fr(1) by (rule peers_ok_filter [OF pk])
  from voteDisputes_ok [of "hm_keys peers" "rs_set r" None ds "cs_convergePercent s" "cs_mode s = Proposing"] fr(2) ro
  obtain ds' ms where v: "voteDisputes ops (cs_convergePercent s) (cs_mode s = Proposing) (rs_set r) ds None = Inr (ds', ms)"
    "disputes_ok ops okx (hm_keys peers) (cur (rs_set r) ms) ds'" "ok (cur (rs_set r) ms)" by auto
  let ?ourTime = "effCloseTime (pr_closeTime (rs_position r)) ?res ?prior"
  obtain t have' where ct: "closeTimeConsensus (cs_convergePercent s) (cs_mode s = Proposing) (length peers) ?ourTime ecs = (t, have')"
    by (metis prod.exhaust)
  let ?s1 = "s\<lparr>cs_peerProposals := peers, cs_haveCloseTimeConsensus := have', cs_result := Some (r\<lparr>rs_disputes := ds'\<rparr>)\<rparr>"
  define new where "new = (if ms = None \<and> (t \<noteq> ?ourTime \<or> isStale (cs_now s - PROPOSE_INTERVAL) (rs_position r))
      then Some (rs_set r) else ms)"
  have res: "updateOurPositions ops s = (case new of
                    None \<Rightarrow> Inr ?s1
                  | Some st \<Rightarrow>
                      let pos = changePosition (ts_id ops st) t (cs_now s) (rs_position r);
                          s2 = ?s1\<lparr>cs_result := Some (r\<lparr>rs_disputes := ds', rs_set := st, rs_position := pos\<rparr>)\<rparr>
                      in if isBowOut pos then Inr s2
                         else let em = hm_emplace (ts_id ops st) st (cs_acquired s2);
                                  s3 = s2\<lparr>cs_acquired := fst em\<rparr>;
                                  s4 = (if snd em then emit (RelaySet st) s3 else s3)
                              in Inr (if cs_mode s4 = Proposing then emit (Propose pos) s4 else s4))"
    unfolding updateOurPositions_def withResult_Some [OF assms(2)] fold v(1) Let_def new_def ct
    by (simp only: prod.case rbind_simps fold v(1) ct)
  show ?thesis
  proof (cases new)
    case None
    then have "ms = None" by (auto simp: new_def split: if_splits)
    then have "inv ?s1"
      using pk' acq cw ph v(2) ro by (auto simp: consensus_inv_def result_ok_def)
    then show ?thesis using None res by (simp add: same_ledger_def)
  next
    case (Some st)
    then have st: "st = cur (rs_set r) ms" by (auto simp: new_def split: if_splits)
    let ?pos = "changePosition (ts_id ops st) t (cs_now s) (rs_position r)"
    let ?r2 = "r\<lparr>rs_disputes := ds', rs_set := st, rs_position := ?pos\<rparr>"
    let ?s2 = "?s1\<lparr>cs_result := Some ?r2\<rparr>"
    let ?em = "hm_emplace (ts_id ops st) st (cs_acquired s)"
    have pos: "pr_position ?pos = ts_id ops st" by (simp add: changePosition_def)
    have i3: "inv (?s2\<lparr>cs_acquired := fst ?em\<rparr>)"
      using pk' acq cw ph v(2,3) st pos
      by (auto simp: consensus_inv_def result_ok_def intro!: acquired_emplace)
    have "isBowOut ?pos \<Longrightarrow> inv ?s2"
      using pk' acq cw ph v(2,3) st pos by (auto simp: consensus_inv_def result_ok_def)
    then show ?thesis
      using i3 by (auto simp: res Some Let_def same_ledger_def)
  qed
qed

lemma haveConsensus_ok:
  assumes "inv s" "cs_result s = Some r"
  shows "rok {} (\<lambda>x. inv (fst x) \<and> same_ledger s (fst x) \<and> cs_phase (fst x) = cs_phase s \<and> cs_result (fst x) \<noteq> None)
    (haveConsensus ops ad s)"
  using assms consensus_inv_result [OF assms]
  by (auto simp: haveConsensus_def Let_def same_ledger_def result_ok_def intro!: consensus_inv_set_result)

lemma concludeEstablish_ok:
  assumes "inv (fst x)" "cs_result (fst x) = Some r"
  shows "rok {} (\<lambda>s'. inv s' \<and> same_ledger (fst x) s') (concludeEstablish x)"
  using assms by (auto simp: concludeEstablish_def Let_def consensus_inv_def same_ledger_def)

lemma phaseEstablish_ok:
  assumes "inv s" "cs_result s = Some r"
  shows "rok {} (\<lambda>s'. inv s' \<and> same_ledger s s') (phaseEstablish ops ad s)"
proof -
  let ?r1 = "r\<lparr>rs_roundTime := sw_tick (ad_clock ad) (rs_roundTime r)\<rparr>"
  let ?s1 = "s\<lparr>cs_result := Some ?r1, cs_convergePercent := to_int32 (sw_dur (rs_roundTime ?r1) * 100 sdiv
                    max (cs_prevRoundTime s) AV_MIN_CONSENSUS_TIME)\<rparr>"
  have i1: "inv ?s1" using assms by (auto simp: consensus_inv_def result_ok_def)
  have r1: "cs_result ?s1 = Some ?r1" by simp
  have l1: "same_ledger s ?s1" by (simp add: same_ledger_def)
  have "rok {} (\<lambda>s'. inv s' \<and> same_ledger s s')
     (rbind (updateOurPositions ops ?s1) (\<lambda>s2. rbind (haveConsensus ops ad s2) concludeEstablish))"
  proof (rule rok_bind [OF updateOurPositions_ok [OF i1 r1]])
    fix s2 assume s2: "inv s2 \<and> same_ledger ?s1 s2 \<and> cs_phase s2 = cs_phase ?s1 \<and> cs_result s2 \<noteq> None"
    then obtain r2 where r2: "inv s2" "cs_result s2 = Some r2" by auto
    have l2: "same_ledger s s2" using s2 same_ledger_trans [OF l1] by blast
    show "rok {} (\<lambda>s'. inv s' \<and> same_ledger s s') (rbind (haveConsensus ops ad s2) concludeEstablish)"
    proof (rule rok_bind [OF haveConsensus_ok [OF r2]])
      fix x :: "('s, 'x) consensus \<times> bool"
      assume x: "inv (fst x) \<and> same_ledger s2 (fst x) \<and> cs_phase (fst x) = cs_phase s2 \<and> cs_result (fst x) \<noteq> None"
      then obtain r3 where "inv (fst x)" "cs_result (fst x) = Some r3" by auto
      then show "rok {} (\<lambda>s'. inv s' \<and> same_ledger s s') (concludeEstablish x)"
        by (rule rok_mono [OF concludeEstablish_ok]) (use x same_ledger_trans [OF same_ledger_trans [OF l2]] in auto)
    qed
  qed
  then show ?thesis
    using i1 l1 unfolding phaseEstablish_def withResult_Some [OF assms(2)] Let_def by simp
qed

end

definition good :: "('s, 'x) txset_ops \<Rightarrow> ('s \<Rightarrow> bool) \<Rightarrow> ('x \<Rightarrow> bool) \<Rightarrow> ('s, 'x) consensus \<Rightarrow> bool" where
  "good ops ok okx s \<longleftrightarrow> consensus_inv ops ok okx s \<and> (cs_phase s = Accepted \<or> onLedger s)"

text \<open>
  The network's view of the prior ledger, asked again about its own answer, stays with it.
\<close>

definition settled :: "'s adaptor \<Rightarrow> uint256 \<Rightarrow> bool" where
  "settled ad k \<longleftrightarrow> (\<forall>L m. ad_getPrevLedger ad k L m = k)"

definition adaptor_stable :: "'s adaptor \<Rightarrow> bool" where
  "adaptor_stable ad \<longleftrightarrow> (\<forall>k L m. settled ad (ad_getPrevLedger ad k L m))"

lemma same_ledger_onLedger: "same_ledger s s' \<Longrightarrow> onLedger s' = onLedger s"
  by (simp add: same_ledger_def onLedger_def)

context tx_set
begin

abbreviation gd :: "('s, 'x) consensus \<Rightarrow> bool" where
  "gd \<equiv> good ops ok okx"

lemma closeLedger_ok:
  assumes "inv s" "cs_result s = None" "adaptor_ok ops ok ad"
  shows "rok {} (\<lambda>s'. inv s' \<and> same_ledger s s' \<and> cs_phase s' = Establish \<and> cs_result s' \<noteq> None) (closeLedger ops ad s)"
proof -
  obtain st pos where oc: "ad_onClose ad (cs_previousLedger s) (cs_now s) (cs_mode s) = (st, pos)" by (rule prod.exhaust)
  have st: "ok st" "ts_id ops st = pr_position pos" using assms(3) oc by (auto simp: adaptor_ok_def)
  let ?r = "\<lparr>rs_set = st, rs_position = pos, rs_disputes = [], rs_compares = [],
             rs_roundTime = sw_reset (ad_clock ad), rs_state = No\<rparr>"
  let ?em = "hm_emplace (ts_id ops st) st (cs_acquired s)"
  let ?s1 = "s\<lparr>cs_phase := Establish, cs_rawCloseTimes := (cs_rawCloseTimes s)\<lparr>ct_self := cs_now s\<rparr>,
               cs_result := Some ?r, cs_acquired := fst ?em\<rparr>"
  let ?s2 = "if snd ?em then emit (RelaySet st) ?s1 else ?s1"
  let ?s3 = "if cs_mode ?s2 = Proposing then emit (Propose pos) ?s2 else ?s2"
  have i1: "inv ?s1"
    using assms(1) st by (auto simp: consensus_inv_def result_ok_def disputes_ok_def intro!: acquired_emplace)
  then have i3: "inv ?s3" by simp
  have r3: "cs_result ?s3 = Some ?r" by simp
  have f3: "same_ledger s ?s3" "cs_phase ?s3 = Establish" by (auto simp: same_ledger_def)
  let ?body = "\<lambda>p s'. case map_of (cs_acquired s') (pr_position (snd p)) of
                                Some st \<Rightarrow> createDisputes ops st s'
                              | None \<Rightarrow> Inr s'"
  have "rok {} (\<lambda>s'. inv s' \<and> same_but_disputes ?s3 s') (rfold ?body (cs_peerProposals ?s3) ?s3)"
  proof (rule rok_fold)
    show "inv ?s3 \<and> same_but_disputes ?s3 ?s3" using i3 by simp
    fix p t assume t: "inv t \<and> same_but_disputes ?s3 t"
    then obtain r' where r': "cs_result t = Some r'" using same_core [OF _ r3] by blast
    show "rok {} (\<lambda>s'. inv s' \<and> same_but_disputes ?s3 s') (?body p t)"
    proof (cases "map_of (cs_acquired t) (pr_position (snd p))")
      case None
      then show ?thesis using t by simp
    next
      case (Some u)
      have "ok u" using acquired_find [OF _ Some, of ops ok] t by (simp add: consensus_inv_def)
      from createDisputes_ok [OF _ r' this] t
      have "rok {} (\<lambda>s'. inv s' \<and> same_but_disputes ?s3 s') (createDisputes ops u t)"
        by (auto elim!: rok_mono intro: same_but_disputes_trans)
      then show ?thesis using Some by simp
    qed
  qed
  then have "rok {} (\<lambda>s'. inv s' \<and> same_ledger s s' \<and> cs_phase s' = Establish \<and> cs_result s' \<noteq> None)
      (rfold ?body (cs_peerProposals ?s3) ?s3)"
  proof (rule rok_mono)
    fix t assume t: "inv t \<and> same_but_disputes ?s3 t"
    then have "same_round ?s3 t" using same_but_disputes_fields(4) by blast
    then have "same_ledger s t" "cs_phase t = Establish"
      using same_ledger_trans [OF f3(1) same_round_ledger] f3(2) by (auto simp: same_round_def)
    moreover have "cs_result t \<noteq> None" using t same_core [OF _ r3] by blast
    ultimately show "inv t \<and> same_ledger s t \<and> cs_phase t = Establish \<and> cs_result t \<noteq> None" using t by blast
  qed simp
  moreover have "closeLedger ops ad s = rfold ?body (cs_peerProposals ?s3) ?s3"
    using assms(2) oc st(2) by (simp add: closeLedger_def makeResult_def Let_def)
  ultimately show ?thesis by (simp only:)
qed

lemma phaseOpen_ok:
  assumes "inv s" "cs_result s = None" "adaptor_ok ops ok ad"
  shows "rok {} (\<lambda>s'. inv s' \<and> same_ledger s s') (phaseOpen ops ad s)"
proof -
  let ?s1 = "s\<lparr>cs_openTime := sw_tick (ad_clock ad) (cs_openTime s)\<rparr>"
  have i1: "inv ?s1" "same_ledger s ?s1" "cs_result ?s1 = None"
    using assms by (simp_all add: consensus_inv_def same_ledger_def)
  have "rok {} (\<lambda>s'. inv s' \<and> same_ledger s s') (closeLedger ops ad ?s1)"
    by (rule rok_mono [OF closeLedger_ok [OF i1(1,3) assms(3)]]) (use same_ledger_trans [OF i1(2)] in auto)
  with i1 show ?thesis unfolding phaseOpen_def Let_def by simp
qed

lemma simulate_ok:
  assumes "inv s" "cs_result s = None" "adaptor_ok ops ok ad"
  shows "rok {} (\<lambda>s'. inv s' \<and> cs_phase s' = Accepted) (simulate ops ad now delay s)"
  unfolding simulate_def
proof (rule rok_bind [OF closeLedger_ok [OF _ _ assms(3)]])
  show "inv (s\<lparr>cs_now := now\<rparr>)" "cs_result (s\<lparr>cs_now := now\<rparr>) = None" using assms by simp_all
  fix t assume t: "inv t \<and> same_ledger (s\<lparr>cs_now := now\<rparr>) t \<and> cs_phase t = Establish \<and> cs_result t \<noteq> None"
  then obtain r where r: "cs_result t = Some r" by auto
  then show "rok {} (\<lambda>s'. inv s' \<and> cs_phase s' = Accepted)
      (withResult ''simulate'' t (\<lambda>r.
         let delay = (case delay of None \<Rightarrow> 100 | Some ms \<Rightarrow> ms);
             r' = r\<lparr>rs_roundTime := sw_tick_by delay (rs_roundTime r)\<rparr>;
             s2 = t\<lparr>cs_result := Some r', cs_prevProposers := length (cs_peerProposals t),
                      cs_prevRoundTime := sw_dur (rs_roundTime r'), cs_phase := Accepted\<rparr>
         in Inr (emit (OnForceAccept r' (cs_previousLedger s2) (cs_closeResolution s2)
                         (cs_rawCloseTimes s2) (cs_mode s2)) s2)))"
    using t by (auto simp: Let_def consensus_inv_def result_ok_def)
qed

end

lemma consensus_inv_mode [simp]:
  "consensus_inv ops ok okx (s\<lparr>cs_mode := m\<rparr>) \<longleftrightarrow> consensus_inv ops ok okx s"
  by (cases "cs_result s") (simp_all add: consensus_inv_def)

lemma consensus_inv_Establish:
  "consensus_inv ops ok okx s \<Longrightarrow> cs_phase s = Establish \<Longrightarrow> \<exists>r. cs_result s = Some r"
  by (auto simp: consensus_inv_def)

lemma leaveConsensus_frame:
  "cs_phase (leaveConsensus s) = cs_phase s" "cs_prevLedgerID (leaveConsensus s) = cs_prevLedgerID s"
  "cs_previousLedger (leaveConsensus s) = cs_previousLedger s" "cs_acquired (leaveConsensus s) = cs_acquired s"
  "cs_result (leaveConsensus s) = None \<longleftrightarrow> cs_result s = None"
  "cs_peerProposals (leaveConsensus s) = cs_peerProposals s"
  "cs_rawCloseTimes (leaveConsensus s) = cs_rawCloseTimes s"
  "cs_deadNodes (leaveConsensus s) = cs_deadNodes s"
  by (auto simp: leaveConsensus_def Let_def split: option.splits)

lemma leaveConsensus_result:
  assumes "cs_result s = Some r"
  shows "\<exists>p. cs_result (leaveConsensus s) = Some (r\<lparr>rs_position := p\<rparr>) \<and>
    pr_position p = pr_position (rs_position r) \<and> (isBowOut p \<or> p = rs_position r)"
proof (cases "cs_mode s = Proposing \<and> \<not> isBowOut (rs_position r)")
  case True
  with assms have "cs_result (leaveConsensus s) = Some (r\<lparr>rs_position := bowOut (cs_now s) (rs_position r)\<rparr>)"
    by (simp add: leaveConsensus_def Let_def)
  then show ?thesis by (auto simp: bowOut_def isBowOut_def)
next
  case False
  with assms have "cs_result (leaveConsensus s) = Some (r\<lparr>rs_position := rs_position r\<rparr>)"
    by (auto simp: leaveConsensus_def)
  then show ?thesis by blast
qed

context tx_set
begin

lemma switchLedger_ok:
  assumes "inv s" "adaptor_ok ops ok ad" "gotTxSet_assert \<in> E"
  shows "rok E (\<lambda>s'. inv s' \<and> cs_prevLedgerID s' = k \<and> cs_previousLedger s' = cs_previousLedger s \<and>
      cs_phase s' = cs_phase s) (switchLedger ops ad k s)"
proof (cases "cs_prevLedgerID s = k")
  case True
  then show ?thesis using assms(1) by (simp add: switchLedger_def)
next
  case False
  let ?s0 = "s\<lparr>cs_prevLedgerID := k\<rparr>"
  let ?s1 = "leaveConsensus ?s0"
  let ?s2 = "?s1\<lparr>cs_result := map_option (\<lambda>r. r\<lparr>rs_disputes := [], rs_compares := []\<rparr>) (cs_result ?s1),
                 cs_peerProposals := [],
                 cs_rawCloseTimes := (cs_rawCloseTimes ?s1)\<lparr>ct_peers := []\<rparr>, cs_deadNodes := []\<rparr>"
  have i2: "inv ?s2"
  proof (cases "cs_result s")
    case None
    then show ?thesis using assms(1) leaveConsensus_frame [of ?s0]
      by (auto simp: consensus_inv_def peers_ok_def)
  next
    case (Some r)
    then obtain p where "cs_result ?s1 = Some (r\<lparr>rs_position := p\<rparr>)" "pr_position p = pr_position (rs_position r)"
      "isBowOut p \<or> p = rs_position r" using leaveConsensus_result [of ?s0 r] by auto
    with Some assms(1) leaveConsensus_frame [of ?s0] show ?thesis
      by (auto simp: consensus_inv_def peers_ok_def result_ok_def disputes_ok_def)
  qed
  have "rok E (\<lambda>s'. inv s' \<and> same_round ?s2 s') (playbackProposals ops ad ?s2)"
    using i2 assms(2,3) by (intro playbackProposals_ok) auto
  then have "rok E (\<lambda>s'. inv s' \<and> cs_prevLedgerID s' = k \<and> cs_previousLedger s' = cs_previousLedger s \<and>
      cs_phase s' = cs_phase s) (playbackProposals ops ad ?s2)"
    by (rule rok_mono) (auto simp: same_round_def leaveConsensus_frame)
  then show ?thesis using False by (simp add: switchLedger_def Let_def)
qed

lemma handleWrongLedger_ok:
  assumes "inv s" "adaptor_ok ops ok ad" "gotTxSet_assert \<in> E"
    and "k \<noteq> cs_prevLedgerID s \<or> lg_id (cs_previousLedger s) \<noteq> k"
    and restart: "\<And>now L m t. lg_id L = k \<Longrightarrow> ledger_ok L \<Longrightarrow> rok E gd (restart now k L m t)"
  shows "rok E gd (handleWrongLedger ops ad restart k s)"
  unfolding handleWrongLedger_def
proof (intro rok_assert assms(4), rule rok_bind [OF switchLedger_ok [OF assms(1-3), of k]])
  fix t assume t: "inv t \<and> cs_prevLedgerID t = k \<and> cs_previousLedger t = cs_previousLedger s \<and> cs_phase t = cs_phase s"
  show "rok E gd (if lg_id (cs_previousLedger t) = cs_prevLedgerID t then Inr t
          else case ad_acquireLedger ad (cs_prevLedgerID t) of
                 Some newLedger \<Rightarrow> restart (cs_now t) k newLedger SwitchedLedger t
               | None \<Rightarrow> Inr (t\<lparr>cs_mode := WrongLedger\<rparr>))"
  proof (cases "ad_acquireLedger ad (cs_prevLedgerID t)")
    case None
    then show ?thesis using t by (auto simp: good_def onLedger_def)
  next
    case (Some L)
    then have "lg_id L = k" "ledger_ok L" using assms(2) t by (auto simp: adaptor_ok_def)
    then show ?thesis using Some t restart by (auto simp: good_def onLedger_def)
  qed
qed

lemma checkLedger_ok:
  assumes "inv s" "adaptor_ok ops ok ad" "gotTxSet_assert \<in> E"
    and "\<And>j M n. Q (ad_getPrevLedger ad j M n)"
    and restart: "\<And>now k L m t. Q k \<Longrightarrow> lg_id L = k \<Longrightarrow> ledger_ok L \<Longrightarrow> rok E gd (restart now k L m t)"
  shows "rok E gd (checkLedger ops ad restart s)"
proof -
  let ?k = "ad_getPrevLedger ad (cs_prevLedgerID s) (cs_previousLedger s) (cs_mode s)"
  have h: "?k \<noteq> cs_prevLedgerID s \<or> lg_id (cs_previousLedger s) \<noteq> ?k \<Longrightarrow>
      rok E gd (handleWrongLedger ops ad restart ?k s)"
    using handleWrongLedger_ok [OF assms(1-3), of ?k restart] restart assms(4) by blast
  show ?thesis
    using h assms(1) by (auto simp: checkLedger_def Let_def good_def onLedger_def)
qed

lemma checkLedger_settled:
  assumes "settled ad (cs_prevLedgerID s)" "lg_id (cs_previousLedger s) = cs_prevLedgerID s"
  shows "checkLedger ops ad restart s = Inr s"
  using assms by (simp add: checkLedger_def settled_def Let_def)

lemma timerEntryWith_ok:
  assumes "gd s" "adaptor_ok ops ok ad"
    and "cs_phase s \<noteq> Accepted \<Longrightarrow> rok E gd (checkLedger ops ad restart (s\<lparr>cs_now := now\<rparr>))"
  shows "rok E gd (timerEntryWith ops ad restart now s)"
proof (cases "cs_phase s = Accepted")
  case True
  then show ?thesis using assms(1) by (simp add: timerEntryWith_def)
next
  case False
  have "rok E gd (case cs_phase t of Open \<Rightarrow> phaseOpen ops ad t | Establish \<Rightarrow> phaseEstablish ops ad t | Accepted \<Rightarrow> Inr t)"
    if "gd t" for t
  proof (cases "cs_phase t")
    case Open
    then have "cs_result t = None" "inv t" "onLedger t" using that by (auto simp: good_def consensus_inv_def)
    then show ?thesis
      using Open rok_mono [OF phaseOpen_ok [of t ad], of gd E] assms(2) same_ledger_onLedger
      by (auto simp: good_def)
  next
    case Establish
    with that have g: "inv t" "onLedger t" by (auto simp: good_def)
    then obtain r where "cs_result t = Some r" using consensus_inv_Establish [OF _ Establish] by blast
    with g show ?thesis
      using Establish rok_mono [OF phaseEstablish_ok [of t r ad], of gd E] same_ledger_onLedger
      by (auto simp: good_def)
  qed (use that in simp)
  with False assms(3) show ?thesis
    unfolding timerEntryWith_def by (auto intro!: rok_bind [where P = gd])
qed

lemma resetRound_inv: "inv (resetRound ad now k L m s)"
  by (simp add: resetRound_def consensus_inv_def peers_ok_def acquired_ok_def)

lemma resetRound_frame:
  "cs_prevLedgerID (resetRound ad now k L m s) = k" "cs_previousLedger (resetRound ad now k L m s) = L"
  "cs_result (resetRound ad now k L m s) = None" "cs_phase (resetRound ad now k L m s) = Open"
  by (simp_all add: resetRound_def)

lemma startRoundInternal_step:
  assumes "adaptor_ok ops ok ad" "gotTxSet_assert \<in> E" "ledger_ok L"
    and wrong: "\<And>t. lg_id L \<noteq> k \<Longrightarrow> inv t \<Longrightarrow> cs_prevLedgerID t = k \<Longrightarrow> cs_previousLedger t = L \<Longrightarrow>
       rok E gd (handleWrongLedger ops ad (startRoundInternal ops ad n) k t)"
    and check: "\<And>t. gd t \<Longrightarrow> (lg_id L = k \<Longrightarrow> cs_prevLedgerID t = k \<and> cs_previousLedger t = L) \<Longrightarrow>
       rok E gd (checkLedger ops ad (startRoundInternal ops ad n) t)"
  shows "rok E gd (startRoundInternal ops ad (Suc n) now k L m s)"
proof -
  let ?s1 = "resetRound ad now k L m s"
  let ?Q = "\<lambda>t. gd t \<and> (lg_id L = k \<longrightarrow> cs_prevLedgerID t = k \<and> cs_previousLedger t = L)"
  have "rok E ?Q (if lg_id L \<noteq> k then handleWrongLedger ops ad (startRoundInternal ops ad n) k ?s1 else Inr ?s1)"
  proof (cases "lg_id L = k")
    case True
    then show ?thesis by (simp add: resetRound_inv resetRound_frame good_def onLedger_def)
  next
    case False
    then show ?thesis using wrong [of ?s1] by (simp add: resetRound_inv resetRound_frame)
  qed
  moreover have "rok E gd (rbind (playbackProposals ops ad t) (\<lambda>t.
      if length (cs_peerProposals t) > cs_prevProposers t div 2
      then timerEntryWith ops ad (startRoundInternal ops ad n) (cs_now t) t else Inr t))" if "?Q t" for t
  proof (rule rok_bind [OF playbackProposals_ok [of t ad E]])
    show "inv t" using that by (simp add: good_def)
    fix u assume "inv u \<and> same_round t u"
    then have u: "?Q u" using that by (auto simp: good_def onLedger_def same_round_def)
    then show "rok E gd (if length (cs_peerProposals u) > cs_prevProposers u div 2
      then timerEntryWith ops ad (startRoundInternal ops ad n) (cs_now u) u else Inr u)"
      using assms(1) check [of u] by (auto intro: timerEntryWith_ok)
  qed (use assms(1,2) in auto)
  ultimately show ?thesis
    using assms(3) by (auto simp: Let_def ledger_ok_def intro!: rok_assert intro: rok_bind)
qed

lemma startRoundInternal_partial:
  assumes "adaptor_ok ops ok ad" "gotTxSet_assert \<in> E" "OutOfFuel \<in> E" "ledger_ok L"
  shows "rok E gd (startRoundInternal ops ad n now k L m s)"
  using assms(4)
proof (induction n arbitrary: now k L m s)
  case 0
  then show ?case using assms(3) by simp
next
  case (Suc n)
  show ?case
    by (intro startRoundInternal_step checkLedger_ok [where Q = "\<lambda>_. True"] handleWrongLedger_ok assms(1,2) Suc)
      (simp_all add: good_def)
qed

text \<open>
  A round on a ledger the network is settled on starts with one unit of fuel; a round on
  a ledger the caller has but the network has left needs one more, and a round on a
  ledger identifier without its ledger a third.
\<close>

lemma startRoundInternal_settled:
  assumes "adaptor_ok ops ok ad" "gotTxSet_assert \<in> E" "ledger_ok L" "settled ad k" "lg_id L = k"
  shows "rok E gd (startRoundInternal ops ad (Suc n) now k L m s)"
  using assms by (intro startRoundInternal_step) (auto simp: checkLedger_settled)

lemma startRoundInternal_have:
  assumes "adaptor_ok ops ok ad" "gotTxSet_assert \<in> E" "ledger_ok L" "adaptor_stable ad" "lg_id L = k"
  shows "rok E gd (startRoundInternal ops ad (Suc (Suc n)) now k L m s)"
  using assms
  by (intro startRoundInternal_step checkLedger_ok [where Q = "settled ad"] startRoundInternal_settled) (auto simp: good_def adaptor_stable_def)

lemma startRoundInternal_ok:
  assumes "adaptor_ok ops ok ad" "gotTxSet_assert \<in> E" "ledger_ok L" "adaptor_stable ad"
  shows "rok E gd (startRoundInternal ops ad (Suc (Suc (Suc n))) now k L m s)"
  using assms
  by (intro startRoundInternal_step checkLedger_ok [where Q = "settled ad"] startRoundInternal_settled
      handleWrongLedger_ok startRoundInternal_have) (auto simp: good_def adaptor_stable_def)

lemma timerEntry_ok:
  assumes "gd s" "adaptor_ok ops ok ad" "gotTxSet_assert \<in> E" "adaptor_stable ad"
  shows "rok E gd (timerEntry ops ad (Suc n) now s)"
  unfolding timerEntry_def using assms
  by (intro timerEntryWith_ok checkLedger_ok [where Q = "settled ad"] startRoundInternal_settled) (auto simp: good_def adaptor_stable_def)

lemma timerEntry_partial:
  assumes "gd s" "adaptor_ok ops ok ad" "gotTxSet_assert \<in> E" "OutOfFuel \<in> E"
  shows "rok E gd (timerEntry ops ad n now s)"
  unfolding timerEntry_def using assms
  by (intro timerEntryWith_ok checkLedger_ok [where Q = "\<lambda>_. True"] startRoundInternal_partial) (auto simp: good_def)

lemma startRound_ok:
  assumes "adaptor_ok ops ok ad" "gotTxSet_assert \<in> E" "ledger_ok L" "adaptor_stable ad"
  shows "rok E gd (startRound ops ad (Suc (Suc (Suc n))) now k L b s)"
  unfolding startRound_def Let_def using assms by (intro startRoundInternal_ok)

end

section \<open>Runs\<close>

text \<open>
  The states a node can be in: the calls of the application, of its peers and of the timer
  come in any order, each with the answers the callbacks give at that moment.
\<close>

inductive consensus_reach :: "('s, 'x) txset_ops \<Rightarrow> ('s \<Rightarrow> bool) \<Rightarrow> ('s, 'x) consensus \<Rightarrow> bool"
  for ops :: "('s, 'x) txset_ops" and ok :: "'s \<Rightarrow> bool" where
  reach_init: "consensus_reach ops ok (initConsensus L)"
| reach_startRound: "consensus_reach ops ok s \<Longrightarrow> adaptor_ok ops ok ad \<Longrightarrow> ledger_ok L \<Longrightarrow>
    startRound ops ad fuel now k L proposing s = Inr s' \<Longrightarrow> consensus_reach ops ok s'"
| reach_peerProposal: "consensus_reach ops ok s \<Longrightarrow> adaptor_ok ops ok ad \<Longrightarrow>
    peerProposal ops ad now p s = Inr (s', accepted) \<Longrightarrow> consensus_reach ops ok s'"
| reach_timerEntry: "consensus_reach ops ok s \<Longrightarrow> adaptor_ok ops ok ad \<Longrightarrow>
    timerEntry ops ad fuel now s = Inr s' \<Longrightarrow> consensus_reach ops ok s'"
| reach_gotTxSet: "consensus_reach ops ok s \<Longrightarrow> ok st \<Longrightarrow>
    gotTxSet ops now st s = Inr s' \<Longrightarrow> consensus_reach ops ok s'"
| reach_simulate: "consensus_reach ops ok s \<Longrightarrow> adaptor_ok ops ok ad \<Longrightarrow>
    simulate ops ad now delay s = Inr s' \<Longrightarrow> consensus_reach ops ok s'"

lemma simulate_result: "simulate ops ad now delay s = Inr s' \<Longrightarrow> cs_result s = None"
  by (auto simp: simulate_def closeLedger_def rassert_def rbind_def split: if_splits)

lemma rok_Inr: "rok E P m \<Longrightarrow> m = Inr x \<Longrightarrow> P x"
  by simp

lemma same_round_good:
  "same_round s s' \<Longrightarrow> good ops ok okx s \<Longrightarrow> consensus_inv ops ok okx s' \<Longrightarrow> good ops ok okx s'"
  by (auto simp: good_def onLedger_def same_round_def)

context tx_set
begin

lemma reach_good: "consensus_reach ops ok s \<Longrightarrow> gd s"
proof (induction rule: consensus_reach.induct)
  case (reach_init L)
  show ?case by (simp add: good_def initConsensus_def consensus_inv_def peers_ok_def acquired_ok_def)
next
  case (reach_startRound s ad L fuel now k proposing s')
  show ?case
    using rok_Inr [OF startRoundInternal_partial [OF reach_startRound.hyps(2), of UNIV L fuel now k]
        reach_startRound.hyps(4) [unfolded startRound_def Let_def]] reach_startRound.hyps(3) by simp
next
  case (reach_peerProposal s ad now p s' accepted)
  have "inv s' \<and> same_round s s'"
    using rok_Inr [OF peerProposal_ok [of s ad UNIV now p] reach_peerProposal.hyps(3)] reach_peerProposal
    by (simp add: good_def)
  then show ?case using same_round_good reach_peerProposal.IH by blast
next
  case (reach_timerEntry s ad fuel now s')
  show ?case
    using rok_Inr [OF timerEntry_partial [of s ad UNIV fuel now] reach_timerEntry.hyps(3)] reach_timerEntry by simp
next
  case (reach_gotTxSet s st now s')
  have "inv s' \<and> same_round s s'"
    using rok_Inr [OF gotTxSet_ok [of s st UNIV now] reach_gotTxSet.hyps(3)] reach_gotTxSet
    by (simp add: good_def)
  then show ?case using same_round_good reach_gotTxSet.IH by blast
next
  case (reach_simulate s ad now delay s')
  have "inv s' \<and> cs_phase s' = Accepted"
    using rok_Inr [OF simulate_ok [of s ad now delay] reach_simulate.hyps(3)] reach_simulate
      simulate_result [OF reach_simulate.hyps(3)] by (simp add: good_def)
  then show ?case by (simp add: good_def)
qed

end

section \<open>A concrete node\<close>

definition sample_ledger :: ledger where
  "sample_ledger = \<lparr>lg_id = 1, lg_seq = 7, lg_closeTimeResolution = 30, lg_closeAgree = True,
     lg_closeTime = 1000, lg_parentCloseTime = 990\<rparr>"

definition sample_proposal :: "uint256 \<Rightarrow> uint160 \<Rightarrow> proposal" where
  "sample_proposal h node = \<lparr>pr_previousLedger = 1, pr_position = h, pr_closeTime = 1020, pr_time = 1010,
     pr_proposeSeq = 0, pr_nodeID = node\<rparr>"

definition sample_adaptor :: "(u8 list \<Rightarrow> uint256) \<Rightarrow> sha_node adaptor" where
  "sample_adaptor H = \<lparr>ad_acquireLedger = (\<lambda>k. if k = 1 then Some sample_ledger else None),
     ad_acquireTxSet = (\<lambda>k. if k = node_hash H emptySHAMap then Some emptySHAMap else None),
     ad_proposals = (\<lambda>_. []), ad_hasOpenTransactions = False,
     ad_proposersValidated = (\<lambda>_. 0), ad_proposersFinished = (\<lambda>_. 0),
     ad_getPrevLedger = (\<lambda>k _ _. k),
     ad_onClose = (\<lambda>_ _ _. (emptySHAMap, sample_proposal (node_hash H emptySHAMap) 0)), ad_clock = 0\<rparr>"

lemma sample_ledger_ok: "ledger_ok sample_ledger"
  by (simp add: ledger_ok_def sample_ledger_def getNextLedgerTimeResolution_asserts_def
      ledgerPossibleTimeResolutions_def)

lemma sample_adaptor_ok: "adaptor_ok (ccl_ops H) (ccl_ok U) (sample_adaptor H)"
  using sample_ledger_ok
  by (auto simp: adaptor_ok_def sample_adaptor_def ccl_ok_empty ccl_ops_def CCLTxSet_id_def
      sample_proposal_def sample_ledger_def split: if_splits)

lemma sample_adaptor_stable: "adaptor_stable (sample_adaptor H)"
  by (simp add: adaptor_stable_def settled_def sample_adaptor_def)

lemma sample_startRound:
  "\<exists>s. startRound (ccl_ops H) (sample_adaptor H) 3 1005 1 sample_ledger True (initConsensus L0) = Inr s \<and>
     cs_phase s = Open \<and> cs_mode s = Proposing \<and> cs_result s = None"
proof -
  have "getNextLedgerTimeResolution_asserts (lg_closeTimeResolution sample_ledger) (lg_seq sample_ledger + 1)"
    using sample_ledger_ok by (simp add: ledger_ok_def)
  then show ?thesis
    by (simp add: startRound_def initConsensus_def numeral_3_eq_3 playbackProposals_def resetRound_def
        sample_adaptor_def rassert_def rbind_def sample_ledger_def)
qed

section \<open>Properties\<close>

text \<open>
  C1: in every state a node can reach, whatever the order of the calls, the peers'
  proposals are of distinct live peers on the current ledger and none has bowed out; every
  acquired set is stored under its own identity; there is a result just while consensus is
  being established or has been accepted; our position names our set, which is acquired
  unless we bowed out; and every dispute has its own transaction's identity, tallies that
  count the votes recorded, votes only of current peers, and our vote says whether our set
  has the transaction.
\<close>

theorem consensus_invariant:
  assumes "consensus_reach (ccl_ops H) (ccl_ok U) s"
  shows "consensus_inv (ccl_ops H) (ccl_ok U) (ccl_okx U) s"
  using ccl.reach_good [OF assms] by (simp add: good_def)

theorem consensus_invariant_witness:
  "\<exists>s. cs_phase s = Open \<and> cs_mode s = Proposing \<and>
     consensus_inv (ccl_ops (of_nat \<circ> length)) (ccl_ok Map.empty) (ccl_okx Map.empty) s"
proof -
  let ?H = "of_nat \<circ> length"
  obtain s where s: "startRound (ccl_ops ?H) (sample_adaptor ?H) 3 1005 1 sample_ledger True
      (initConsensus sample_ledger) = Inr s" "cs_phase s = Open" "cs_mode s = Proposing"
    using sample_startRound by blast
  have "consensus_reach (ccl_ops ?H) (ccl_ok Map.empty) s"
    by (rule reach_startRound [OF reach_init sample_adaptor_ok sample_ledger_ok s(1)])
  then show ?thesis using s consensus_invariant by blast
qed



text \<open>
  C14: a proposal from a peer and a transaction set that arrives are handled without a
  failed assertion in every reachable state, unless our own proposal has bowed out.
\<close>

theorem messages_never_fail:
  assumes "consensus_reach (ccl_ops H) (ccl_ok U) s" "\<not> bowedOut s"
    and "adaptor_ok (ccl_ops H) (ccl_ok U) ad" "ccl_ok U st"
  shows "(\<exists>s' b. peerProposal (ccl_ops H) ad now p s = Inr (s', b)) \<and>
         (\<exists>s'. gotTxSet (ccl_ops H) now st s = Inr s')"
proof -
  have i: "consensus_inv (ccl_ops H) (ccl_ok U) (ccl_okx U) s"
    using ccl.reach_good [OF assms(1)] by (simp add: good_def)
  show ?thesis
    using ccl.peerProposal_ok [OF i assms(3), of "{}" now p] ccl.gotTxSet_ok [OF i assms(4), of "{}" now] assms(2)
    by (auto simp: rok_total)
qed

theorem messages_never_fail_witness:
  "\<exists>s. cs_phase s = Open \<and>
     (\<exists>s' b. peerProposal (ccl_ops (of_nat \<circ> length)) (sample_adaptor (of_nat \<circ> length)) 1006
                (sample_proposal 5 77) s = Inr (s', b)) \<and>
     (\<exists>s'. gotTxSet (ccl_ops (of_nat \<circ> length)) 1006 emptySHAMap s = Inr s')"
proof -
  let ?H = "of_nat \<circ> length"
  obtain s where s: "startRound (ccl_ops ?H) (sample_adaptor ?H) 3 1005 1 sample_ledger True
      (initConsensus sample_ledger) = Inr s" "cs_phase s = Open" "cs_result s = None"
    using sample_startRound by blast
  have r: "consensus_reach (ccl_ops ?H) (ccl_ok Map.empty) s"
    by (rule reach_startRound [OF reach_init sample_adaptor_ok sample_ledger_ok s(1)])
  have "\<not> bowedOut s" using s(3) by (simp add: bowedOut_def)
  from messages_never_fail [OF r this sample_adaptor_ok ccl_ok_empty] s(2) show ?thesis by blast
qed

end
