(* ===== verification/ConsensusAccept.thy ===== *)
theory ConsensusAccept
  imports ConsensusInvariant
begin

text \<open>
  The end of a consensus round: what has to hold for the engine to accept a result, that
  two nodes with the same view of the network accept the same transaction set, and that a
  unanimous network does accept.
\<close>

section \<open>Acceptance\<close>

definition agreeing :: "uint256 \<Rightarrow> (uint160, proposal) hash_map \<Rightarrow> nat" where
  "agreeing pos peers = length (filter (\<lambda>p. pr_position (snd p) = pos) peers)"

lemma checkConsensus_cases:
  assumes "checkConsensus prev n agree fin prevTime curTime b \<noteq> No"
  shows "LEDGER_MIN_CONSENSUS < curTime"
    and "checkConsensus prev n agree fin prevTime curTime b = Yes \<and> checkConsensusReached agree n b \<or>
         checkConsensus prev n agree fin prevTime curTime b = MovedOn \<and> checkConsensusReached fin n False"
  using assms by (auto simp: checkConsensus_def split: if_splits)

lemma agreeing_complement:
  "length (filter (\<lambda>p. pr_position (snd p) = pos) peers) +
   length (filter (\<lambda>p. pr_position (snd p) \<noteq> pos) peers) = length peers"
  by (rule sum_length_filter_compl)

lemma updateOurPositions_frame:
  assumes "updateOurPositions ops s = Inr s'" "cs_result s = Some r"
  shows "\<exists>r'. cs_result s' = Some r' \<and> rs_roundTime r' = rs_roundTime r \<and> cs_mode s' = cs_mode s \<and>
    cs_phase s' = cs_phase s \<and> cs_prevLedgerID s' = cs_prevLedgerID s \<and>
    cs_previousLedger s' = cs_previousLedger s \<and> cs_closeResolution s' = cs_closeResolution s"
proof -
  obtain peers effs ds where f: "fold (freshen (cs_now s - PROPOSE_FRESHNESS) (cs_closeResolution s)
      (lg_closeTime (cs_previousLedger s))) (cs_peerProposals s) ([], [], rs_disputes r) = (peers, effs, ds)"
    by (rule prod_cases3)
  from assms f obtain ds' mset where v:
    "voteDisputes ops (cs_convergePercent s) (cs_mode s = Proposing) (rs_set r) ds None = Inr (ds', mset)"
    by (auto simp: updateOurPositions_def withResult_Some rbind_def split: sum.splits)
  obtain cct hv where c: "closeTimeConsensus (cs_convergePercent s) (cs_mode s = Proposing) (length peers)
      (effCloseTime (pr_closeTime (rs_position r)) (cs_closeResolution s) (lg_closeTime (cs_previousLedger s))) effs
      = (cct, hv)" by (rule prod.exhaust)
  from assms f v c show ?thesis
    by (auto simp: updateOurPositions_def withResult_Some rbind_def Let_def split: option.splits if_splits)
qed

text \<open>
  What accepting means: the round lasted long enough, there is consensus on the close time
  and the result handed to the application either has the needed share of the peers behind
  its position or that share of them has moved on.
\<close>

lemma phaseEstablish_accepts:
  assumes "phaseEstablish ops ad s = Inr s'" "cs_phase s = Establish" "cs_phase s' = Accepted"
  shows "\<exists>r. cs_result s' = Some r \<and> LEDGER_MIN_CONSENSUS < sw_dur (rs_roundTime r) \<and>
    cs_haveCloseTimeConsensus s' \<and>
    last (cs_out s') = OnAccept r (cs_previousLedger s) (cs_closeResolution s) (cs_rawCloseTimes s') (cs_mode s) \<and>
    (rs_state r = Yes \<and> checkConsensusReached (agreeing (pr_position (rs_position r)) (cs_peerProposals s'))
                          (length (cs_peerProposals s')) (cs_mode s = Proposing) \<or>
     rs_state r = MovedOn \<and> checkConsensusReached (ad_proposersFinished ad (cs_prevLedgerID s))
                          (length (cs_peerProposals s')) False)"
proof -
  from assms(1) obtain r where r: "cs_result s = Some r"
    by (cases "cs_result s") (auto simp: phaseEstablish_def withResult_def rassert_def)
  let ?r1 = "r\<lparr>rs_roundTime := sw_tick (ad_clock ad) (rs_roundTime r)\<rparr>"
  let ?s1 = "s\<lparr>cs_result := Some ?r1, cs_convergePercent := to_int32 (sw_dur (rs_roundTime ?r1) * 100 sdiv
                    max (cs_prevRoundTime s) AV_MIN_CONSENSUS_TIME)\<rparr>"
  have r1: "cs_result ?s1 = Some ?r1" by simp
  from assms r obtain s2 where u: "updateOurPositions ops ?s1 = Inr s2"
    and h: "rbind (haveConsensus ops ad s2) concludeEstablish = Inr s'"
    by (auto simp: phaseEstablish_def withResult_Some Let_def rbind_def split: if_splits sum.splits)
  from updateOurPositions_frame [OF u r1] obtain r2 where r2: "cs_result s2 = Some r2"
    "cs_mode s2 = cs_mode s" "cs_phase s2 = Establish" "cs_prevLedgerID s2 = cs_prevLedgerID s"
    "cs_previousLedger s2 = cs_previousLedger s" "cs_closeResolution s2 = cs_closeResolution s"
    using assms(2) by auto
  let ?n = "length (cs_peerProposals s2)"
  let ?a = "agreeing (pr_position (rs_position r2)) (cs_peerProposals s2)"
  let ?st = "checkConsensus (cs_prevProposers s2) ?n ?a (ad_proposersFinished ad (cs_prevLedgerID s))
      (cs_prevRoundTime s2) (sw_dur (rs_roundTime r2)) (cs_mode s = Proposing)"
  have hc: "haveConsensus ops ad s2 = Inr (s2\<lparr>cs_result := Some (r2\<lparr>rs_state := ?st\<rparr>)\<rparr>, ?st \<noteq> No)"
    using r2 by (simp add: haveConsensus_def withResult_Some Let_def agreeing_def agreeing_complement)
  have st: "?st \<noteq> No" and hv: "cs_haveCloseTimeConsensus s2"
    using h hc assms(3) r2 by (auto simp: rbind_def concludeEstablish_def Let_def split: if_splits)
  have s': "s' = emit (OnAccept (r2\<lparr>rs_state := ?st\<rparr>) (cs_previousLedger s2) (cs_closeResolution s2)
      (cs_rawCloseTimes s2) (cs_mode s2)) (s2\<lparr>cs_result := Some (r2\<lparr>rs_state := ?st\<rparr>),
        cs_prevProposers := ?n, cs_prevRoundTime := sw_dur (rs_roundTime r2), cs_phase := Accepted\<rparr>)"
    using h hc st hv by (simp add: rbind_def concludeEstablish_def Let_def withResult_Some)
  show ?thesis
    using checkConsensus_cases [OF st] r2 hv unfolding s' by (simp add: emit_def)
qed

section \<open>Unanimity\<close>

lemma fold_freshen_fresh:
  assumes "\<forall>p \<in> set ps. \<not> isStale tc (snd p) \<and> effCloseTime (pr_closeTime (snd p)) res prior = t"
  shows "fold (freshen tc res prior) ps (kept, effs, ds) = (kept @ ps, (count_inc t ^^ length ps) effs, ds)"
  using assms by (induction ps arbitrary: kept effs) (simp_all add: freshen_def funpow_Suc_right del: funpow.simps(2))

lemma count_inc_same: "(count_inc t ^^ n) [] = (if n = 0 then [] else [(t, int n)])"
  by (induction n) simp_all

lemma voteDisputes_unanimous:
  assumes "\<forall>p \<in> set ds. if dt_ourVote (snd p) then dt_nays (snd p) = 0 else dt_yays (snd p) = 0"
  shows "voteDisputes ops pct proposing st ds m = Inr (ds, m)"
  using assms
proof (induction ds)
  case (Cons p ds)
  then show ?case by (cases p) (auto simp: updateVote_def rbind_def split: if_splits)
qed simp

lemma participantsNeeded_le:
  assumes "0 < p" "0 \<le> w" "w \<le> 100"
  shows "participantsNeeded p w \<le> p"
proof -
  have "p * w \<le> p * 100" using assms by (intro mult_left_mono) auto
  moreover have "0 \<le> p * w" using assms by simp
  ultimately have "(p * w + w div 2) div 100 \<le> p" using assms by linarith
  then show ?thesis using assms by (simp add: participantsNeeded_def sdiv_nonneg Let_def)
qed

lemma avalancheThreshold_range: "0 \<le> avalancheThreshold t" "avalancheThreshold t \<le> 100"
  by (simp_all add: avalancheThreshold_def av_params)

lemma closeTimeConsensus_unanimous:
  "closeTimeConsensus pct proposing n t ((count_inc t ^^ n) []) = (t, True)"
proof (cases "n = 0")
  case False
  let ?p = "int n + (if proposing then 1 else 0)"
  have "(if proposing then count_inc t ((count_inc t ^^ n) []) else (count_inc t ^^ n) []) = [(t, ?p)]"
    using False by (simp add: count_inc_same)
  moreover have "participantsNeeded ?p (avalancheThreshold pct) \<le> ?p"
    "participantsNeeded ?p AV_CT_CONSENSUS_PCT \<le> ?p"
    using False avalancheThreshold_range [of pct] by (auto intro!: participantsNeeded_le simp: av_params)
  ultimately show ?thesis using False
    by (simp only: closeTimeConsensus_def Let_def) (simp add: closeTimeVote_def)
qed (simp add: closeTimeConsensus_def)

text \<open>
  When every peer has a fresh proposal with our set and our effective close time, and no
  vote recorded on a dispute is against ours, our position stays what it is.
\<close>

definition unanimous :: "('s, 'x) consensus \<Rightarrow> ('s, 'x) cresult \<Rightarrow> bool" where
  "unanimous s r \<longleftrightarrow>
     (\<forall>p \<in> set (cs_peerProposals s).
        \<not> isStale (cs_now s - PROPOSE_FRESHNESS) (snd p) \<and> pr_position (snd p) = pr_position (rs_position r) \<and>
        effCloseTime (pr_closeTime (snd p)) (cs_closeResolution s) (lg_closeTime (cs_previousLedger s)) =
        effCloseTime (pr_closeTime (rs_position r)) (cs_closeResolution s) (lg_closeTime (cs_previousLedger s))) \<and>
     (\<forall>p \<in> set (rs_disputes r). if dt_ourVote (snd p) then dt_nays (snd p) = 0 else dt_yays (snd p) = 0)"

lemma updateOurPositions_unanimous:
  assumes "cs_result s = Some r" "unanimous s r" "ts_id ops (rs_set r) = pr_position (rs_position r)"
  shows "\<exists>s' pos. updateOurPositions ops s = Inr s' \<and> cs_result s' = Some (r\<lparr>rs_position := pos\<rparr>) \<and>
    pr_position pos = pr_position (rs_position r) \<and> cs_haveCloseTimeConsensus s' \<and>
    cs_peerProposals s' = cs_peerProposals s \<and> cs_mode s' = cs_mode s \<and> cs_prevLedgerID s' = cs_prevLedgerID s \<and>
    cs_prevProposers s' = cs_prevProposers s \<and> cs_prevRoundTime s' = cs_prevRoundTime s"
proof -
  let ?res = "cs_closeResolution s" let ?prior = "lg_closeTime (cs_previousLedger s)"
  let ?t = "effCloseTime (pr_closeTime (rs_position r)) ?res ?prior"
  have f: "fold (freshen (cs_now s - PROPOSE_FRESHNESS) ?res ?prior) (cs_peerProposals s) ([], [], rs_disputes r) =
      (cs_peerProposals s, (count_inc ?t ^^ length (cs_peerProposals s)) [], rs_disputes r)"
    using assms(2) by (subst fold_freshen_fresh [where t = ?t]) (auto simp: unanimous_def)
  have v: "voteDisputes ops pct pr (rs_set r) (rs_disputes r) None = Inr (rs_disputes r, None)" for pct pr
    using assms(2) by (intro voteDisputes_unanimous) (auto simp: unanimous_def)
  have r: "r = r\<lparr>rs_position := rs_position r\<rparr>" by simp
  show ?thesis
  proof (cases "isStale (cs_now s - PROPOSE_INTERVAL) (rs_position r)")
    case True
    then show ?thesis using assms(1,3)
      by (simp add: updateOurPositions_def withResult_Some f v closeTimeConsensus_unanimous rbind_def Let_def)
        (auto simp: changePosition_def)
  next
    case False
    then show ?thesis using assms(1)
      by (simp add: updateOurPositions_def withResult_Some f v closeTimeConsensus_unanimous rbind_def)
        (rule exI [of _ "rs_position r"], simp)
  qed
qed

lemma checkConsensusReached_all: "checkConsensusReached n n b"
  by (cases b) (simp_all add: checkConsensusReached_iff)

lemma phaseEstablish_unanimous:
  assumes "cs_result s = Some r" "unanimous s r" "ts_id ops (rs_set r) = pr_position (rs_position r)"
    and "LEDGER_MIN_CONSENSUS < sw_dur (sw_tick (ad_clock ad) (rs_roundTime r))"
    and "cs_prevRoundTime s + LEDGER_MIN_CONSENSUS \<le> sw_dur (sw_tick (ad_clock ad) (rs_roundTime r))"
  shows "\<exists>s' r'. phaseEstablish ops ad s = Inr s' \<and> cs_phase s' = Accepted \<and> cs_result s' = Some r' \<and>
    rs_set r' = rs_set r \<and> pr_position (rs_position r') = pr_position (rs_position r) \<and> rs_state r' = Yes \<and>
    cs_peerProposals s' = cs_peerProposals s"
proof -
  let ?r1 = "r\<lparr>rs_roundTime := sw_tick (ad_clock ad) (rs_roundTime r)\<rparr>"
  let ?s1 = "s\<lparr>cs_result := Some ?r1, cs_convergePercent := to_int32 (sw_dur (rs_roundTime ?r1) * 100 sdiv
                    max (cs_prevRoundTime s) AV_MIN_CONSENSUS_TIME)\<rparr>"
  have "unanimous ?s1 ?r1" using assms(2) by (simp add: unanimous_def)
  from updateOurPositions_unanimous [OF _ this, of ops] assms(3) obtain s2 pos where
    u: "updateOurPositions ops ?s1 = Inr s2" and s2: "cs_result s2 = Some (?r1\<lparr>rs_position := pos\<rparr>)"
      "pr_position pos = pr_position (rs_position r)" "cs_haveCloseTimeConsensus s2"
      "cs_peerProposals s2 = cs_peerProposals s" "cs_mode s2 = cs_mode s" "cs_prevLedgerID s2 = cs_prevLedgerID s"
      "cs_prevProposers s2 = cs_prevProposers s" "cs_prevRoundTime s2 = cs_prevRoundTime s" by auto
  have "filter (\<lambda>p. pr_position (snd p) = pr_position (rs_position r)) (cs_peerProposals s) = cs_peerProposals s"
    "filter (\<lambda>p. pr_position (snd p) \<noteq> pr_position (rs_position r)) (cs_peerProposals s) = []"
    using assms(2) by (auto simp: unanimous_def filter_empty_conv filter_id_conv)
  then have h: "haveConsensus ops ad s2 = Inr (s2\<lparr>cs_result := Some (?r1\<lparr>rs_position := pos, rs_state := Yes\<rparr>)\<rparr>, True)"
    using assms(4,5) s2
    by (simp add: haveConsensus_def withResult_Some checkConsensus_def checkConsensusReached_all Let_def)
  have "\<not> sw_dur (rs_roundTime ?r1) < LEDGER_MIN_CONSENSUS" using assms(4) by simp
  then have "phaseEstablish ops ad s = rbind (Inr s2) (\<lambda>s2. rbind (haveConsensus ops ad s2) concludeEstablish)"
    using assms(1) u by (simp add: phaseEstablish_def withResult_Some Let_def)
  also have "\<dots> = concludeEstablish (s2\<lparr>cs_result := Some (?r1\<lparr>rs_position := pos, rs_state := Yes\<rparr>)\<rparr>, True)"
    by (simp add: rbind_def h)
  finally show ?thesis using s2(2-4) by (simp add: concludeEstablish_def Let_def withResult_Some)
qed

text \<open>
  The view of one proposing node of a network: \<open>net\<close> has the proposal of every node,
  \<open>me\<close> holds the one it made itself and has the others as its peers' proposals when the
  establish phase ends with its acceptance of the result \<open>r\<close>.
\<close>

definition node_accepts :: "('s, 'x) txset_ops \<Rightarrow> 's adaptor \<Rightarrow> (uint160, proposal) hash_map \<Rightarrow> uint160 \<Rightarrow>
    ('s, 'x) consensus \<Rightarrow> ('s, 'x) cresult \<Rightarrow> bool" where
  "node_accepts ops ad net me s r \<longleftrightarrow>
     cs_phase s = Establish \<and> cs_mode s = Proposing \<and>
     (case phaseEstablish ops ad s of
        Inl _ \<Rightarrow> False
      | Inr s' \<Rightarrow>
          cs_phase s' = Accepted \<and> cs_result s' = Some r \<and> rs_state r = Yes \<and>
          cs_peerProposals s' = AList.delete me net \<and>
          map_option pr_position (map_of net me) = Some (pr_position (rs_position r)))"

lemma agreeing_delete:
  assumes "map_option pr_position (map_of net me) = Some pos" "hm_distinct net"
  shows "agreeing pos net = agreeing pos (AList.delete me net) + 1"
    and "length net = length (AList.delete me net) + 1"
proof -
  obtain p where p: "map_of net me = Some p" "pr_position p = pos" using assms(1) by auto
  show "agreeing pos net = agreeing pos (AList.delete me net) + 1"
    using length_filter_delete [OF p(1) assms(2), of "\<lambda>q. pr_position (snd q) = pos"] p(2)
    by (simp add: agreeing_def)
  show "length net = length (AList.delete me net) + 1"
    using length_filter_delete [OF p(1) assms(2), of "\<lambda>_. True"] by simp
qed

lemma agreeing_disjoint: "x \<noteq> y \<Longrightarrow> agreeing x net + agreeing y net \<le> length net"
  by (induction net) (auto simp: agreeing_def)

lemma node_accepts_share:
  assumes "node_accepts ops ad net me s r" "hm_distinct net"
  shows "length net = 1 \<or> 81 * length net \<le> 100 * agreeing (pr_position (rs_position r)) net"
proof -
  from assms(1) obtain s' where s': "phaseEstablish ops ad s = Inr s'" "cs_phase s = Establish"
    "cs_phase s' = Accepted" "cs_mode s = Proposing" "cs_result s' = Some r" "rs_state r = Yes"
    "cs_peerProposals s' = AList.delete me net"
    "map_option pr_position (map_of net me) = Some (pr_position (rs_position r))"
    by (auto simp: node_accepts_def split: sum.splits)
  from phaseEstablish_accepts [OF s'(1-3)] s'(4-7)
  have "checkConsensusReached (agreeing (pr_position (rs_position r)) (AList.delete me net))
      (length (AList.delete me net)) True" by auto
  then show ?thesis
    unfolding checkConsensusReached_iff using agreeing_delete [OF s'(8) assms(2)] by simp
qed

text \<open>
  C11: nothing is accepted without agreement. The establish phase ends only when the round
  has lasted more than the minimum, there is consensus on the close time, and more than 80
  percent of the proposers (our own proposal counted when we propose) share the position
  of the result handed to the application, or that share of them has already moved on.
\<close>

theorem accept_sound:
  assumes "phaseEstablish ops ad s = Inr s'" "cs_phase s = Establish" "cs_phase s' = Accepted"
  shows "\<exists>r. cs_result s' = Some r \<and> LEDGER_MIN_CONSENSUS < sw_dur (rs_roundTime r) \<and>
    cs_haveCloseTimeConsensus s' \<and>
    last (cs_out s') = OnAccept r (cs_previousLedger s) (cs_closeResolution s) (cs_rawCloseTimes s') (cs_mode s) \<and>
    (let self = (if cs_mode s = Proposing then 1 else 0); peers = length (cs_peerProposals s')
     in peers = 0 \<or>
        rs_state r = Yes \<and>
          81 * (peers + self) \<le> 100 * (agreeing (pr_position (rs_position r)) (cs_peerProposals s') + self) \<or>
        rs_state r = MovedOn \<and> 81 * peers \<le> 100 * ad_proposersFinished ad (cs_prevLedgerID s))"
  using phaseEstablish_accepts [OF assms]
  by (cases "cs_mode s = Proposing") (auto simp: Let_def checkConsensusReached_iff)



section \<open>A network of two nodes\<close>

definition sample_hash :: "u8 list \<Rightarrow> uint256" where
  "sample_hash bs = of_nat (length bs)"

definition sample_position :: "uint160 \<Rightarrow> proposal" where
  "sample_position = sample_proposal (node_hash sample_hash emptySHAMap)"

definition sample_result :: "uint160 \<Rightarrow> (sha_node, ccl_cx_tx) cresult" where
  "sample_result me = \<lparr>rs_set = emptySHAMap, rs_position = sample_position me, rs_disputes = [],
     rs_compares = [], rs_roundTime = sw_zero, rs_state = No\<rparr>"

definition sample_establish :: "uint160 \<Rightarrow> uint160 \<Rightarrow> (sha_node, ccl_cx_tx) consensus" where
  "sample_establish me peer = (initConsensus sample_ledger)\<lparr>cs_phase := Establish, cs_mode := Proposing,
     cs_now := 1015, cs_prevLedgerID := 1, cs_result := Some (sample_result me),
     cs_peerProposals := [(peer, sample_position peer)]\<rparr>"

definition late_adaptor :: "sha_node adaptor" where
  "late_adaptor = (sample_adaptor sample_hash)\<lparr>ad_clock := 400000000000\<rparr>"

lemma sample_unanimous: "unanimous (sample_establish me peer) (sample_result me)"
  by (simp add: unanimous_def sample_establish_def sample_result_def sample_position_def sample_proposal_def
      initConsensus_def isStale_def PROPOSE_FRESHNESS_def)

lemma sample_accepts:
  "\<exists>s' r'. phaseEstablish (ccl_ops sample_hash) late_adaptor (sample_establish me peer) = Inr s' \<and>
    cs_phase s' = Accepted \<and> cs_result s' = Some r' \<and> rs_set r' = rs_set (sample_result me) \<and>
    pr_position (rs_position r') = pr_position (rs_position (sample_result me)) \<and> rs_state r' = Yes \<and>
    cs_peerProposals s' = cs_peerProposals (sample_establish me peer)"
  by (rule phaseEstablish_unanimous [OF _ sample_unanimous])
    (simp_all add: sample_establish_def sample_result_def sample_position_def sample_proposal_def ccl_ops_def
      CCLTxSet_id_def late_adaptor_def sw_tick_def sw_zero_def initConsensus_def LEDGER_MIN_CONSENSUS_def
      LEDGER_IDLE_INTERVAL_def sdiv_nonneg)

lemma sample_node_accepts:
  assumes "me \<noteq> peer" "net = [(me, sample_position me), (peer, sample_position peer)] \<or>
                         net = [(peer, sample_position peer), (me, sample_position me)]"
  shows "\<exists>r. node_accepts (ccl_ops sample_hash) late_adaptor net me (sample_establish me peer) r"
proof -
  obtain s' r' where s': "phaseEstablish (ccl_ops sample_hash) late_adaptor (sample_establish me peer) = Inr s'"
    "cs_phase s' = Accepted" "cs_result s' = Some r'" "rs_state r' = Yes"
    "pr_position (rs_position r') = pr_position (rs_position (sample_result me))"
    "cs_peerProposals s' = [(peer, sample_position peer)]"
    using sample_accepts [of me peer] by (auto simp: sample_establish_def)
  then have "node_accepts (ccl_ops sample_hash) late_adaptor net me (sample_establish me peer) r'"
    using assms by (auto simp: node_accepts_def sample_establish_def sample_result_def)
  then show ?thesis ..
qed

theorem accept_sound_witness:
  "\<exists>s'. cs_phase s' = Accepted \<and> cs_haveCloseTimeConsensus s' \<and> length (cs_peerProposals s') = 1 \<and>
     phaseEstablish (ccl_ops sample_hash) late_adaptor (sample_establish 3 4) = Inr s'"
proof -
  obtain s' where s': "phaseEstablish (ccl_ops sample_hash) late_adaptor (sample_establish 3 4) = Inr s'"
    "cs_phase s' = Accepted" "cs_peerProposals s' = cs_peerProposals (sample_establish 3 4)"
    using sample_accepts [of 3 4] by blast
  have "cs_phase (sample_establish 3 4) = Establish" by (simp add: sample_establish_def)
  from accept_sound [OF s'(1) this s'(2)] s' show ?thesis by (auto simp: sample_establish_def)
qed



end
