(* ===== verification/IOUAmount.thy ===== *)
theory IOUAmount
  imports Prelude Complex_Main
begin

text \<open>
  Issued amounts (\<open>protocol/impl/IOUAmount.cpp\<close>): a decimal mantissa and exponent,
  their normal form, addition, comparison and multiplication by a ratio. Mantissas are
  signed 64-bit in the code; every intermediate value stays inside that range, so they are
  integers here. The lemmas relate each operation to the real number an amount stands for.
\<close>

section \<open>Data\<close>

record iou_amount =
  iou_mantissa :: int
  iou_exponent :: int

definition minMantissa :: int where
  "minMantissa = 1000000000000000"

definition maxMantissa :: int where
  "maxMantissa = 9999999999999999"

definition minExponent :: int where
  "minExponent = - 96"

definition maxExponent :: int where
  "maxExponent = 80"

lemmas iou_params = minMantissa_def maxMantissa_def minExponent_def maxExponent_def

definition iou_zero :: iou_amount where
  "iou_zero = \<lparr>iou_mantissa = 0, iou_exponent = - 100\<rparr>"

section \<open>Normalization\<close>

text \<open>The two loops of \<open>normalize\<close>, on the absolute value of the mantissa.\<close>

function scaleUp :: "int \<Rightarrow> int \<Rightarrow> int \<times> int" where
  "scaleUp m e = (if m < minMantissa \<and> e > minExponent then scaleUp (m * 10) (e - 1) else (m, e))"
  by pat_completeness auto
termination by (relation "measure (\<lambda>(m, e). nat (e - minExponent))") auto

function scaleDown :: "int \<Rightarrow> int \<Rightarrow> (int \<times> int) res" where
  "scaleDown m e =
     (if m > maxMantissa then
        if e \<ge> maxExponent then Inl (Thrown ''IOUAmount::normalize'')
        else scaleDown (m div 10) (e + 1)
      else Inr (m, e))"
  by pat_completeness auto
termination by (relation "measure (\<lambda>(m, e). nat m)") (auto simp: maxMantissa_def)

declare scaleUp.simps [simp del] scaleDown.simps [simp del]

definition iou_normalize :: "iou_amount \<Rightarrow> iou_amount res" where
  "iou_normalize a =
     (if iou_mantissa a = 0 then Inr iou_zero
      else let negative = iou_mantissa a < 0;
               (m1, e1) = scaleUp (if negative then - iou_mantissa a else iou_mantissa a) (iou_exponent a)
           in rbind (scaleDown m1 e1) (\<lambda>(m2, e2).
                if e2 < minExponent \<or> m2 < minMantissa then Inr iou_zero
                else if e2 > maxExponent then Inl (Thrown ''value overflow'')
                else Inr \<lparr>iou_mantissa = (if negative then - m2 else m2), iou_exponent = e2\<rparr>))"

definition makeIOU :: "int \<Rightarrow> int \<Rightarrow> iou_amount res" where
  "makeIOU m e = iou_normalize \<lparr>iou_mantissa = m, iou_exponent = e\<rparr>"

definition iou_neg :: "iou_amount \<Rightarrow> iou_amount res" where
  "iou_neg a = makeIOU (- iou_mantissa a) (iou_exponent a)"

section \<open>Addition and comparison\<close>

text \<open>The loops that bring two amounts to one exponent; division cuts towards zero.\<close>

function alignTo :: "int \<Rightarrow> int \<Rightarrow> int \<Rightarrow> int \<times> int" where
  "alignTo e' m e = (if e < e' then alignTo e' (m sdiv 10) (e + 1) else (m, e))"
  by pat_completeness auto
termination by (relation "measure (\<lambda>(e', m, e). nat (e' - e))") auto

declare alignTo.simps [simp del]

definition iou_signum :: "iou_amount \<Rightarrow> int" where
  "iou_signum a = (if iou_mantissa a < 0 then - 1 else if iou_mantissa a \<noteq> 0 then 1 else 0)"

definition iou_add :: "iou_amount \<Rightarrow> iou_amount \<Rightarrow> iou_amount res" where
  "iou_add a b =
     (if iou_signum b = 0 then Inr a
      else if iou_signum a = 0 then Inr b
      else let (m1, e1) = alignTo (iou_exponent b) (iou_mantissa a) (iou_exponent a);
               (m2, e2) = alignTo e1 (iou_mantissa b) (iou_exponent b);
               m = m1 + m2
           in if m \<ge> - 10 \<and> m \<le> 10 then Inr iou_zero
              else iou_normalize \<lparr>iou_mantissa = m, iou_exponent = e1\<rparr>)"

definition iou_sub :: "iou_amount \<Rightarrow> iou_amount \<Rightarrow> iou_amount res" where
  "iou_sub a b = rbind (iou_neg b) (iou_add a)"

definition iou_less :: "iou_amount \<Rightarrow> iou_amount \<Rightarrow> bool" where
  "iou_less a b =
     (let lneg = iou_mantissa a < 0; rneg = iou_mantissa b < 0
      in if lneg \<noteq> rneg then lneg
         else if iou_mantissa a = 0 then iou_mantissa b > 0
         else if iou_mantissa b = 0 then False
         else if iou_exponent a > iou_exponent b then lneg
         else if iou_exponent a < iou_exponent b then \<not> lneg
         else iou_mantissa a < iou_mantissa b)"

section \<open>The value of an amount\<close>

definition iou_val :: "iou_amount \<Rightarrow> real" where
  "iou_val a = of_int (iou_mantissa a) * 10 powi iou_exponent a"

definition iou_wf :: "iou_amount \<Rightarrow> bool" where
  "iou_wf a \<longleftrightarrow> a = iou_zero \<or>
     (minMantissa \<le> \<bar>iou_mantissa a\<bar> \<and> \<bar>iou_mantissa a\<bar> \<le> maxMantissa \<and>
      minExponent \<le> iou_exponent a \<and> iou_exponent a \<le> maxExponent)"

lemma ten_powi_pos [simp]: "0 < (10::real) powi e"
  by simp

lemma ten_powi_step: "(10::real) powi (e + 1) = 10 * 10 powi e" "(10::real) powi e = 10 * 10 powi (e - 1)"
proof -
  show s: "(10::real) powi (e + 1) = 10 * 10 powi e" for e
    using power_int_add_1 [of "10::real" e] by (simp add: mult.commute)
  show "(10::real) powi e = 10 * 10 powi (e - 1)" using s [of "e - 1"] by simp
qed

lemma ten_powi_mono: "e \<le> f \<Longrightarrow> (10::real) powi e \<le> 10 powi f"
  by (rule power_int_increasing) simp_all

lemma scaleUp_spec:
  assumes "0 < m" "scaleUp m e = (m', e')"
  shows "of_int m' * (10::real) powi e' = of_int m * 10 powi e" "m \<le> m'"
    "e' \<le> e" "m' < minMantissa \<longrightarrow> e' \<le> minExponent" "m' \<le> maxMantissa \<or> m' = m \<and> e' = e"
  using assms
proof (induction m e arbitrary: m' e' rule: scaleUp.induct)
  case (1 m e)
  {
    case 1
    show ?case
      using "1.IH"(1) [of m' e'] 1 ten_powi_step(2) [of e]
      by (cases "m < minMantissa \<and> e > minExponent") (auto simp: scaleUp.simps [of m e])
  next
    case 2
    show ?case
      using "1.IH"(2) [of m' e'] 2
      by (cases "m < minMantissa \<and> e > minExponent") (auto simp: scaleUp.simps [of m e])
  next
    case 3
    show ?case
      using "1.IH"(3) [of m' e'] 3
      by (cases "m < minMantissa \<and> e > minExponent") (auto simp: scaleUp.simps [of m e])
  next
    case 4
    show ?case
      using "1.IH"(4) [of m' e'] 4
      by (cases "m < minMantissa \<and> e > minExponent") (auto simp: scaleUp.simps [of m e])
  next
    case 5
    show ?case
      using "1.IH"(5) [of m' e'] 5
      by (cases "m < minMantissa \<and> e > minExponent") (auto simp: scaleUp.simps [of m e] iou_params)
  }
qed

lemma scaleDown_shape:
  assumes "0 < m"
  shows "(\<exists>k. scaleDown m e = Inr (m div 10 ^ k, e + int k) \<and> m div 10 ^ k \<le> maxMantissa \<and> 0 < m div 10 ^ k \<and>
            (k = 0 \<or> minMantissa \<le> m div 10 ^ k \<and> e + int k \<le> maxExponent)) \<or>
         (\<exists>k err. scaleDown m e = Inl err \<and> maxMantissa < m div 10 ^ k \<and> maxExponent \<le> e + int k)"
  using assms
proof (induction m e rule: scaleDown.induct)
  case (1 m e)
  consider "m \<le> maxMantissa" | "maxMantissa < m" "maxExponent \<le> e" | "maxMantissa < m" "e < maxExponent"
    by linarith
  then show ?case
  proof cases
    case 1
    then show ?thesis using "1.prems" by (intro disjI1 exI [of _ 0]) (simp add: scaleDown.simps [of m e])
  next
    case 2
    then show ?thesis by (intro disjI2 exI [of _ 0]) (simp add: scaleDown.simps [of m e])
  next
    case 3
    then have eq: "scaleDown m e = scaleDown (m div 10) (e + 1)" by (simp add: scaleDown.simps [of m e])
    have low: "minMantissa \<le> m div 10" "0 < m div 10" using 3 by (simp_all add: iou_params)
    have dd: "m div 10 div 10 ^ k = m div 10 ^ Suc k" for k by (simp add: zdiv_zmult2_eq)
    from "1.IH" 3 low(2) consider
        k where "scaleDown (m div 10) (e + 1) = Inr (m div 10 ^ Suc k, e + int (Suc k))"
          "m div 10 ^ Suc k \<le> maxMantissa" "0 < m div 10 ^ Suc k"
          "k = 0 \<or> minMantissa \<le> m div 10 ^ Suc k \<and> e + int (Suc k) \<le> maxExponent"
      | k err where "scaleDown (m div 10) (e + 1) = Inl err" "maxMantissa < m div 10 ^ Suc k"
          "maxExponent \<le> e + int (Suc k)"
      unfolding dd by (auto simp: add.assoc)
    then show ?thesis
    proof cases
      case (1 k)
      then show ?thesis using low 3 unfolding eq by (intro disjI1 exI [of _ "Suc k"]) auto
    next
      case (2 k)
      then show ?thesis unfolding eq by blast
    qed
  qed
qed

lemma div_power_bounds:
  assumes "0 < m"
  shows "of_int (m div 10 ^ k) * (10::real) powi (e + int k) \<le> of_int m * 10 powi e"
    and "of_int m * (10::real) powi e < (of_int (m div 10 ^ k) + 1) * 10 powi (e + int k)"
proof -
  have p: "(10::real) powi (e + int k) = of_int (10 ^ k) * 10 powi e"
    by (simp add: power_int_add mult.commute)
  have q: "0 < (10::int) ^ k" by simp
  have "m div 10 ^ k * 10 ^ k + m mod 10 ^ k = m" by (rule div_mult_mod_eq)
  moreover have "(m div 10 ^ k + 1) * 10 ^ k = m div 10 ^ k * 10 ^ k + 10 ^ k" by (simp add: distrib_right)
  ultimately have "m div 10 ^ k * 10 ^ k \<le> m" "m < (m div 10 ^ k + 1) * 10 ^ k"
    using pos_mod_bound [OF q, of m] pos_mod_sign [OF q, of m] by linarith+
  then have "real_of_int (m div 10 ^ k * 10 ^ k) \<le> of_int m" "real_of_int m < of_int ((m div 10 ^ k + 1) * 10 ^ k)"
    by (simp_all only: of_int_le_iff of_int_less_iff)
  then have "real_of_int (m div 10 ^ k * 10 ^ k) * 10 powi e \<le> of_int m * 10 powi e"
    "real_of_int m * 10 powi e < of_int ((m div 10 ^ k + 1) * 10 ^ k) * 10 powi e"
    by (simp_all only: mult_le_cancel_right_pos mult_less_cancel_right_pos ten_powi_pos)
  then show "of_int (m div 10 ^ k) * (10::real) powi (e + int k) \<le> of_int m * 10 powi e"
    "of_int m * (10::real) powi e < (of_int (m div 10 ^ k) + 1) * 10 powi (e + int k)"
    unfolding p by (simp_all add: mult.assoc)
qed

text \<open>
  What \<open>normalize\<close> computes from a positive mantissa: with \<open>v\<close> the value, it fails
  when \<open>v\<close> is too large, gives zero when \<open>v\<close> is too small, and otherwise cuts
  \<open>v\<close> to sixteen digits.
\<close>

definition normalized :: "real \<Rightarrow> int \<Rightarrow> iou_amount res \<Rightarrow> bool" where
  "normalized v sign r \<longleftrightarrow>
     (case r of
        Inl _ \<Rightarrow> 10 powi 96 \<le> v
      | Inr b \<Rightarrow> v < 10 powi 96 \<and> iou_wf b \<and>
          (if v < 10 powi (- 81) then b = iou_zero
           else b \<noteq> iou_zero \<and> sgn (iou_mantissa b) = sign \<and>
                \<bar>iou_val b\<bar> \<le> v \<and> v < \<bar>iou_val b\<bar> + 10 powi iou_exponent b))"

lemma value_bounds:
  fixes m e :: int
  assumes "minMantissa \<le> m" "m \<le> maxMantissa"
  shows "minExponent \<le> e \<Longrightarrow> 10 powi (- 81) \<le> of_int m * (10::real) powi e"
    and "e < minExponent \<Longrightarrow> (of_int m + 1) * (10::real) powi e \<le> 10 powi (- 81)"
    and "e \<le> maxExponent \<Longrightarrow> (of_int m + 1) * (10::real) powi e \<le> 10 powi 96"
    and "maxExponent < e \<Longrightarrow> 10 powi 96 \<le> of_int m * (10::real) powi e"
proof -
  have m: "1000000000000000 \<le> real_of_int m" "real_of_int m + 1 \<le> 10000000000000000"
    using assms by (simp_all add: iou_params)
  have split: "(10::real) powi (15 + f) = 1000000000000000 * 10 powi f"
    "(10::real) powi (16 + f) = 10000000000000000 * 10 powi f" for f :: int
    by (simp_all add: power_int_add)
  show "10 powi (- 81) \<le> of_int m * (10::real) powi e" if "minExponent \<le> e"
  proof -
    have "(10::real) powi (15 + (- 96)) \<le> 10 powi (15 + e)"
      using that by (intro ten_powi_mono) (simp add: minExponent_def)
    also have "\<dots> \<le> of_int m * 10 powi e" unfolding split using m(1) by (intro mult_right_mono) simp_all
    finally show ?thesis by simp
  qed
  show "(of_int m + 1) * (10::real) powi e \<le> 10 powi (- 81)" if "e < minExponent"
  proof -
    have "(of_int m + 1) * (10::real) powi e \<le> 10 powi (16 + e)"
      unfolding split using m(2) by (intro mult_right_mono) simp_all
    also have "\<dots> \<le> 10 powi (- 81)" using that by (intro ten_powi_mono) (simp add: minExponent_def)
    finally show ?thesis .
  qed
  show "(of_int m + 1) * (10::real) powi e \<le> 10 powi 96" if "e \<le> maxExponent"
  proof -
    have "(of_int m + 1) * (10::real) powi e \<le> 10 powi (16 + e)"
      unfolding split using m(2) by (intro mult_right_mono) simp_all
    also have "\<dots> \<le> 10 powi 96" using that by (intro ten_powi_mono) (simp add: maxExponent_def)
    finally show ?thesis .
  qed
  show "10 powi 96 \<le> of_int m * (10::real) powi e" if "maxExponent < e"
  proof -
    have "(10::real) powi 96 \<le> 10 powi (15 + e)"
      using that by (intro ten_powi_mono) (simp add: maxExponent_def)
    also have "\<dots> \<le> of_int m * 10 powi e" unfolding split using m(1) by (intro mult_right_mono) simp_all
    finally show ?thesis .
  qed
qed

lemma small_bound:
  fixes m e :: int
  assumes "m < minMantissa" "e \<le> minExponent"
  shows "(of_int m + 1) * (10::real) powi e \<le> 10 powi (- 81)"
proof -
  have "(of_int m + 1) * (10::real) powi e \<le> 1000000000000000 * 10 powi (- 96)"
    using assms by (intro mult_mono ten_powi_mono) (simp_all add: iou_params)
  also have "\<dots> = (10::real) powi (15 + (- 96))"
    using power_int_add [of "10::real" 15 "- 96"] by simp
  finally show ?thesis by simp
qed

definition normalizePos :: "bool \<Rightarrow> int \<Rightarrow> int \<Rightarrow> iou_amount res" where
  "normalizePos negative m e =
     (let (m1, e1) = scaleUp m e
      in rbind (scaleDown m1 e1) (\<lambda>(m2, e2).
           if e2 < minExponent \<or> m2 < minMantissa then Inr iou_zero
           else if e2 > maxExponent then Inl (Thrown ''value overflow'')
           else Inr \<lparr>iou_mantissa = (if negative then - m2 else m2), iou_exponent = e2\<rparr>))"

lemma normalizePos_spec:
  assumes "0 < m"
  shows "normalized (of_int m * 10 powi e) (if negative then - 1 else 1) (normalizePos negative m e)"
proof -
  obtain m1 e1 where u: "scaleUp m e = (m1, e1)" by (rule prod.exhaust)
  note u1 = scaleUp_spec [OF assms u]
  then have m1: "0 < m1" using assms by linarith
  define v where "v = of_int m * (10::real) powi e"
  have v: "v = of_int m1 * (10::real) powi e1" using u1(1) by (simp add: v_def)
  consider k where "scaleDown m1 e1 = Inr (m1 div 10 ^ k, e1 + int k)" "m1 div 10 ^ k \<le> maxMantissa"
        "0 < m1 div 10 ^ k" "k = 0 \<or> minMantissa \<le> m1 div 10 ^ k \<and> e1 + int k \<le> maxExponent"
      | k err where "scaleDown m1 e1 = Inl err" "maxMantissa < m1 div 10 ^ k" "maxExponent \<le> e1 + int k"
    using scaleDown_shape [OF m1, of e1] by blast
  then have "normalized v (if negative then - 1 else 1) (normalizePos negative m e)"
  proof cases
    case (2 k)
    have "(10::real) powi 96 = 10000000000000000 * 10 powi 80" by simp
    also have "\<dots> \<le> of_int (m1 div 10 ^ k) * 10 powi (e1 + int k)"
      using 2 by (intro mult_mono ten_powi_mono) (auto simp: iou_params)
    also have "\<dots> \<le> v" unfolding v by (rule div_power_bounds [OF m1])
    finally show ?thesis using 2 u by (simp add: normalizePos_def normalized_def)
  next
    case (1 k)
    define m2 where "m2 = m1 div 10 ^ k" define e2 where "e2 = e1 + int k"
    have b: "of_int m2 * (10::real) powi e2 \<le> v" "v < (of_int m2 + 1) * (10::real) powi e2"
      using div_power_bounds [OF m1, where k = k and e = e1] by (simp_all add: m2_def e2_def v)
    have sd: "scaleDown m1 e1 = Inr (m2, e2)" "m2 \<le> maxMantissa" "0 < m2" using 1 by (simp_all add: m2_def e2_def)
    consider "m2 < minMantissa" | "minMantissa \<le> m2" "e2 < minExponent" |
      "minMantissa \<le> m2" "minExponent \<le> e2" "e2 \<le> maxExponent" | "minMantissa \<le> m2" "maxExponent < e2"
      by linarith
    then show ?thesis
    proof cases
      case a: 1
      then have "k = 0" using 1(4) m2_def by linarith
      then have "e2 \<le> minExponent" using a u1(4) by (simp add: m2_def e2_def)
      then have "v < 10 powi (- 81)" using b(2) small_bound [OF a] by fastforce
      moreover have "(10::real) powi (- 81) \<le> 10 powi 96" by (rule ten_powi_mono) simp
      ultimately show ?thesis using a u sd by (simp add: normalizePos_def normalized_def iou_wf_def)
    next
      case a: 2
      have "v < 10 powi (- 81)" using b(2) value_bounds(2) [OF a(1) sd(2) a(2)] by linarith
      moreover have "(10::real) powi (- 81) \<le> 10 powi 96" by (rule ten_powi_mono) simp
      ultimately show ?thesis using a u sd by (simp add: normalizePos_def normalized_def iou_wf_def)
    next
      case a: 3
      have "10 powi (- 81) \<le> v" using b(1) value_bounds(1) [OF a(1) sd(2) a(2)] by linarith
      moreover have "v < 10 powi 96" using b(2) value_bounds(3) [OF a(1) sd(2) a(3)] by linarith
      ultimately show ?thesis using a u sd b
        by (auto simp: normalizePos_def normalized_def iou_wf_def iou_zero_def iou_val_def abs_mult algebra_simps)
    next
      case a: 4
      have "10 powi 96 \<le> v" using b(1) value_bounds(4) [OF a(1) sd(2) a(2)] by linarith
      then show ?thesis using a u sd by (auto simp: normalizePos_def normalized_def iou_params)
    qed
  qed
  then show ?thesis by (simp add: v_def)
qed

lemma normalize_pos:
  "iou_normalize a = (if iou_mantissa a = 0 then Inr iou_zero
     else normalizePos (iou_mantissa a < 0) \<bar>iou_mantissa a\<bar> (iou_exponent a))"
  by (simp add: iou_normalize_def normalizePos_def Let_def)

lemma normalize_spec:
  assumes "iou_mantissa a \<noteq> 0"
  shows "normalized \<bar>iou_val a\<bar> (sgn (iou_mantissa a)) (iou_normalize a)"
proof -
  have "\<bar>iou_val a\<bar> = of_int \<bar>iou_mantissa a\<bar> * 10 powi iou_exponent a" by (simp add: iou_val_def abs_mult)
  moreover have "sgn (iou_mantissa a) = (if iou_mantissa a < 0 then - 1 else 1)" using assms by (simp add: sgn_if)
  ultimately show ?thesis using normalizePos_spec [of "\<bar>iou_mantissa a\<bar>" "iou_exponent a" "iou_mantissa a < 0"] assms
    by (simp add: normalize_pos)
qed

lemma ten_powi_not_neg [simp]: "\<not> (10::real) powi e < 0"
  using ten_powi_pos [of e] by linarith

lemma digits_bounds:
  fixes m e :: int
  assumes "minMantissa \<le> m" "m \<le> maxMantissa"
  shows "(10::real) powi (15 + e) \<le> of_int m * 10 powi e" "of_int m * 10 powi e < (10::real) powi (16 + e)"
proof -
  have split: "(10::real) powi (15 + e) = 1000000000000000 * 10 powi e"
    "(10::real) powi (16 + e) = 10000000000000000 * 10 powi e"
    by (simp_all add: power_int_add)
  show "(10::real) powi (15 + e) \<le> of_int m * 10 powi e"
    unfolding split using assms by (intro mult_right_mono) (simp_all add: iou_params)
  have "real_of_int m < 10000000000000000" using assms by (simp add: iou_params)
  then show "of_int m * 10 powi e < (10::real) powi (16 + e)"
    unfolding split by (intro mult_strict_right_mono) simp_all
qed

lemma digits_less:
  fixes m n e f :: int
  assumes "minMantissa \<le> m" "m \<le> maxMantissa" "minMantissa \<le> n" "n \<le> maxMantissa"
  shows "of_int m * (10::real) powi e < of_int n * 10 powi f \<longleftrightarrow> e < f \<or> e = f \<and> m < n"
proof -
  have lt: "of_int m * (10::real) powi e < of_int n * 10 powi f" if "e < f"
    "minMantissa \<le> m" "m \<le> maxMantissa" "minMantissa \<le> n" "n \<le> maxMantissa" for m n e f :: int
  proof -
    have "of_int m * (10::real) powi e < 10 powi (16 + e)" using digits_bounds that by blast
    also have "\<dots> \<le> 10 powi (15 + f)" using that by (intro ten_powi_mono) simp
    also have "\<dots> \<le> of_int n * 10 powi f" using digits_bounds that by blast
    finally show ?thesis .
  qed
  consider "e < f" | "e = f" | "f < e" by linarith
  then show ?thesis
  proof cases
    case 1
    then show ?thesis using lt assms by simp
  next
    case 2
    then show ?thesis by simp
  next
    case 3
    then have "of_int n * (10::real) powi f < of_int m * 10 powi e" using lt assms by blast
    then show ?thesis using 3 by simp
  qed
qed

lemma iou_zero_simps [simp]: "iou_mantissa iou_zero = 0" "iou_exponent iou_zero = - 100" "iou_val iou_zero = 0" "iou_wf iou_zero"
  by (simp_all add: iou_zero_def iou_val_def iou_wf_def)

lemma iou_wf_zero: "iou_wf a \<Longrightarrow> iou_mantissa a = 0 \<longleftrightarrow> a = iou_zero"
  by (auto simp: iou_wf_def minMantissa_def)

lemma iou_wf_cases:
  assumes "iou_wf a"
  obtains "a = iou_zero"
    | m e where "a = \<lparr>iou_mantissa = m, iou_exponent = e\<rparr>" "minMantissa \<le> m" "m \<le> maxMantissa" "minExponent \<le> e" "e \<le> maxExponent"
    | m e where "a = \<lparr>iou_mantissa = - m, iou_exponent = e\<rparr>" "minMantissa \<le> m" "m \<le> maxMantissa" "minExponent \<le> e" "e \<le> maxExponent"
proof (cases "a = iou_zero")
  case False
  then have "minMantissa \<le> \<bar>iou_mantissa a\<bar>" "\<bar>iou_mantissa a\<bar> \<le> maxMantissa" "minExponent \<le> iou_exponent a" "iou_exponent a \<le> maxExponent"
    using assms by (auto simp: iou_wf_def)
  then show ?thesis
    using that(2) [of "iou_mantissa a" "iou_exponent a"] that(3) [of "- iou_mantissa a" "iou_exponent a"]
    by (cases "0 \<le> iou_mantissa a") simp_all
qed (rule that(1))

lemma digits_pos: "minMantissa \<le> m \<Longrightarrow> 0 < m"
  by (simp add: minMantissa_def)

text \<open>The comparison of amounts compares their values, and equal values have one representation.\<close>

lemma iou_less_val:
  assumes "iou_wf a" "iou_wf b"
  shows "iou_less a b \<longleftrightarrow> iou_val a < iou_val b"
  using assms(1)
proof (cases rule: iou_wf_cases)
  case 1
  from assms(2) show ?thesis
    by (cases rule: iou_wf_cases) (auto simp: 1 iou_less_def Let_def iou_val_def zero_less_mult_iff mult_less_0_iff dest: digits_pos)
next
  case (2 m e)
  then have m: "0 < real_of_int m * 10 powi e" by (auto dest: digits_pos)
  from assms(2) show ?thesis
  proof (cases rule: iou_wf_cases)
    case (3 n f)
    then have "0 < real_of_int n * 10 powi f" by (auto dest: digits_pos)
    with m 2 3 show ?thesis by (auto simp: iou_less_def Let_def iou_val_def dest: digits_pos)
  qed (use 2 m in \<open>auto simp: iou_less_def Let_def iou_val_def digits_less dest: digits_pos\<close>)
next
  case (3 m e)
  then have m: "0 < real_of_int m * 10 powi e" by (auto dest: digits_pos)
  from assms(2) show ?thesis
  proof (cases rule: iou_wf_cases)
    case (2 n f)
    then have "0 < real_of_int n * 10 powi f" by (auto dest: digits_pos)
    with m 3 2 show ?thesis by (auto simp: iou_less_def Let_def iou_val_def dest: digits_pos)
  qed (use 3 m in \<open>auto simp: iou_less_def Let_def iou_val_def digits_less dest: digits_pos\<close>)
qed

lemma iou_val_inj:
  assumes "iou_wf a" "iou_wf b" "iou_val a = iou_val b"
  shows "a = b"
proof -
  have n: "\<not> iou_less a b" "\<not> iou_less b a" using assms by (simp_all add: iou_less_val)
  show ?thesis
    using assms(1)
  proof (cases rule: iou_wf_cases)
    case 1
    from assms(2) show ?thesis using n 1 by (cases rule: iou_wf_cases) (auto simp: iou_less_def Let_def dest: digits_pos)
  next
    case (2 m e)
    from assms(2) show ?thesis using n 2
      by (cases rule: iou_wf_cases) (auto simp: iou_less_def Let_def split: if_splits dest: digits_pos)
  next
    case (3 m e)
    from assms(2) show ?thesis using n 3
      by (cases rule: iou_wf_cases) (auto simp: iou_less_def Let_def split: if_splits dest: digits_pos)
  qed
qed

lemma sdiv_sgn: "0 < (b::int) \<Longrightarrow> a sdiv b = sgn a * (\<bar>a\<bar> div b)"
  by (simp add: signed_divide_int_def)

lemma sdiv_sdiv:
  assumes "0 < (b::int)" "0 < c"
  shows "a sdiv b sdiv c = a sdiv (b * c)"
proof (cases "\<bar>a\<bar> div b = 0")
  case True
  then have "\<bar>a\<bar> div (b * c) = 0" using assms by (simp add: zdiv_zmult2_eq)
  then show ?thesis using assms True by (simp add: sdiv_sgn)
next
  case False
  then have "0 < \<bar>a\<bar> div b" using assms by (simp add: pos_imp_zdiv_nonneg_iff order.strict_iff_order)
  then have "\<bar>sgn a * (\<bar>a\<bar> div b)\<bar> = \<bar>a\<bar> div b" "sgn (sgn a * (\<bar>a\<bar> div b)) = sgn a"
    by (auto simp: abs_mult sgn_mult abs_sgn_eq)
  then show ?thesis using assms by (simp add: sdiv_sgn zdiv_zmult2_eq)
qed

lemma sdiv_1 [simp]: "(a::int) sdiv 1 = a"
  by (simp add: sdiv_sgn mult_sgn_abs)

lemma alignTo_shape: "alignTo e' m e = (m sdiv 10 ^ nat (e' - e), max e e')"
proof (induction e' m e rule: alignTo.induct)
  case (1 e' m e)
  show ?case
  proof (cases "e < e'")
    case True
    then have "nat (e' - e) = Suc (nat (e' - (e + 1)))" by simp
    then show ?thesis using 1 True by (simp add: alignTo.simps [of e' m e] sdiv_sdiv)
  next
    case False
    then show ?thesis by (simp add: alignTo.simps [of e' m e])
  qed
qed

text \<open>Both amounts cut to the larger exponent, and their sum.\<close>

definition iou_aligned_sum :: "iou_amount \<Rightarrow> iou_amount \<Rightarrow> int" where
  "iou_aligned_sum a b =
     iou_mantissa a sdiv 10 ^ nat (iou_exponent b - iou_exponent a) +
     iou_mantissa b sdiv 10 ^ nat (iou_exponent a - iou_exponent b)"

lemma iou_add_shape:
  "iou_add a b =
     (if iou_mantissa b = 0 then Inr a
      else if iou_mantissa a = 0 then Inr b
      else if \<bar>iou_aligned_sum a b\<bar> \<le> 10 then Inr iou_zero
      else iou_normalize \<lparr>iou_mantissa = iou_aligned_sum a b, iou_exponent = max (iou_exponent a) (iou_exponent b)\<rparr>)"
proof -
  have "nat (max (iou_exponent a) (iou_exponent b) - iou_exponent b) = nat (iou_exponent a - iou_exponent b)"
    by simp
  then show ?thesis
    by (auto simp: iou_add_def iou_signum_def alignTo_shape iou_aligned_sum_def max.commute abs_le_iff Let_def)
qed

lemma iou_add_commute: "iou_wf a \<Longrightarrow> iou_wf b \<Longrightarrow> iou_add a b = iou_add b a"
  by (simp add: iou_wf_zero iou_add_shape iou_aligned_sum_def add.commute max.commute)

lemma sdiv_error:
  fixes m e :: int
  shows "\<bar>of_int m * (10::real) powi e - of_int (m sdiv 10 ^ k) * 10 powi (e + int k)\<bar> < 10 powi (e + int k)"
proof (cases "m = 0")
  case False
  then have "0 < \<bar>m\<bar>" by simp
  note b = div_power_bounds [OF this, where k = k and e = e]
  define x where "x = of_int \<bar>m\<bar> * (10::real) powi e"
  define y where "y = of_int (\<bar>m\<bar> div 10 ^ k) * (10::real) powi (e + int k)"
  have "real_of_int m = of_int (sgn m) * of_int \<bar>m\<bar>" by (metis mult_sgn_abs mult.commute of_int_mult)
  then have "of_int m * (10::real) powi e - of_int (m sdiv 10 ^ k) * 10 powi (e + int k) = of_int (sgn m) * (x - y)"
    by (simp add: sdiv_sgn right_diff_distrib x_def y_def)
  moreover have "\<bar>real_of_int (sgn m) * (x - y)\<bar> = \<bar>x - y\<bar>" using False by (simp add: sgn_if abs_mult)
  moreover have "y \<le> x" "x < y + 10 powi (e + int k)" using b by (simp_all add: x_def y_def distrib_right)
  ultimately show ?thesis by simp
qed simp

lemma iou_aligned_sum_error:
  "\<bar>iou_val a + iou_val b - of_int (iou_aligned_sum a b) * 10 powi max (iou_exponent a) (iou_exponent b)\<bar>
     < 10 powi max (iou_exponent a) (iou_exponent b)"
proof -
  have *: "\<bar>iou_val a + iou_val b - of_int (iou_aligned_sum a b) * 10 powi max (iou_exponent a) (iou_exponent b)\<bar>
     < 10 powi max (iou_exponent a) (iou_exponent b)" if "iou_exponent a \<le> iou_exponent b" for a b
  proof -
    have "iou_exponent a + int (nat (iou_exponent b - iou_exponent a)) = iou_exponent b" using that by simp
    then show ?thesis
      using sdiv_error [of "iou_mantissa a" "iou_exponent a" "nat (iou_exponent b - iou_exponent a)"] that
      by (simp add: iou_val_def iou_aligned_sum_def algebra_simps)
  qed
  show ?thesis
  proof (cases "iou_exponent a \<le> iou_exponent b")
    case False
    then show ?thesis using * [of b a] by (simp add: iou_aligned_sum_def add.commute max.commute)
  qed (rule *)
qed

lemma normalize_wf_id: "iou_wf a \<Longrightarrow> iou_normalize a = Inr a"
proof (erule iou_wf_cases)
  have *: "normalizePos neg m e = Inr \<lparr>iou_mantissa = (if neg then - m else m), iou_exponent = e\<rparr>"
    if "minMantissa \<le> m" "m \<le> maxMantissa" "minExponent \<le> e" "e \<le> maxExponent" for m e neg
    using that by (simp add: normalizePos_def scaleUp.simps [of m e] scaleDown.simps [of m e])
  show "iou_normalize a = Inr a" if "a = iou_zero" using that by (simp add: normalize_pos)
  show "iou_normalize a = Inr a" if "a = \<lparr>iou_mantissa = m, iou_exponent = e\<rparr>" "minMantissa \<le> m" "m \<le> maxMantissa"
    "minExponent \<le> e" "e \<le> maxExponent" for m e
    using * [of m e False] that digits_pos [of m] by (simp add: normalize_pos)
  show "iou_normalize a = Inr a" if "a = \<lparr>iou_mantissa = - m, iou_exponent = e\<rparr>" "minMantissa \<le> m" "m \<le> maxMantissa"
    "minExponent \<le> e" "e \<le> maxExponent" for m e
    using * [of m e True] that digits_pos [of m] by (simp add: normalize_pos)
qed

lemma iou_neg_wf: "iou_wf a \<Longrightarrow> \<exists>b. iou_neg a = Inr b \<and> iou_wf b \<and> iou_val b = - iou_val a"
proof -
  assume a: "iou_wf a"
  show ?thesis
  proof (cases "a = iou_zero")
    case True
    then show ?thesis by (simp add: iou_neg_def makeIOU_def iou_normalize_def)
  next
    case False
    then have "iou_wf \<lparr>iou_mantissa = - iou_mantissa a, iou_exponent = iou_exponent a\<rparr>"
      using a by (auto simp: iou_wf_def)
    then show ?thesis by (auto simp: iou_neg_def makeIOU_def normalize_wf_id iou_val_def)
  qed
qed

lemma normalize_wf: "iou_normalize a = Inr b \<Longrightarrow> iou_wf b"
  using normalize_spec [of a] by (cases "iou_mantissa a = 0") (auto simp: normalize_pos normalized_def)

lemma sdiv_le: "\<bar>(m::int) sdiv 10 ^ k\<bar> \<le> \<bar>m\<bar>"
proof -
  have "\<bar>m\<bar> div 10 ^ k \<le> \<bar>m\<bar>"
    using zdiv_mono2 [of "\<bar>m\<bar>" 1 "10 ^ k"] by simp
  moreover have "0 \<le> \<bar>m\<bar> div 10 ^ k" by (simp add: pos_imp_zdiv_nonneg_iff)
  ultimately show ?thesis by (simp add: sdiv_sgn abs_mult abs_sgn_eq)
qed

text \<open>The sum of two aligned mantissas is far inside the range of 64 bits.\<close>

lemma iou_aligned_sum_range:
  assumes "iou_wf a" "iou_wf b"
  shows "\<bar>iou_aligned_sum a b\<bar> \<le> 2 * maxMantissa"
proof -
  have "\<bar>iou_mantissa a\<bar> \<le> maxMantissa" "\<bar>iou_mantissa b\<bar> \<le> maxMantissa"
    using assms by (auto simp: iou_wf_def maxMantissa_def)
  then show ?thesis
    unfolding iou_aligned_sum_def
    using sdiv_le [of "iou_mantissa a" "nat (iou_exponent b - iou_exponent a)"]
      sdiv_le [of "iou_mantissa b" "nat (iou_exponent a - iou_exponent b)"] by linarith
qed

lemma iou_exponent_le:
  fixes m e E :: int and S :: real
  assumes "minMantissa \<le> m" "m \<le> maxMantissa" "of_int m * 10 powi e \<le> S * 10 powi E" "S < 100000000000000000"
  shows "e \<le> E + 1"
proof (rule ccontr)
  assume h: "\<not> ?thesis"
  have "S * 10 powi E < (10::real) powi (17 + E)" using assms(4) by (simp add: power_int_add)
  also have "\<dots> \<le> 10 powi (15 + e)" using h by (intro ten_powi_mono) simp
  also have "\<dots> \<le> of_int m * 10 powi e" by (rule digits_bounds(1) [OF assms(1,2)])
  finally show False using assms(3) by simp
qed

lemma same_sign_diff:
  fixes x y :: real
  assumes "sgn x = sgn y"
  shows "\<bar>x - y\<bar> = \<bar>\<bar>x\<bar> - \<bar>y\<bar>\<bar>"
  using assms by (auto simp: sgn_if split: if_splits)

lemma iou_add_error:
  assumes "iou_wf a" "iou_wf b" "iou_add a b = Inr r"
  shows "\<bar>iou_val r - (iou_val a + iou_val b)\<bar> < 12 * 10 powi max (iou_exponent a) (iou_exponent b) \<or>
    r = iou_zero \<and> \<bar>iou_val a + iou_val b\<bar> < 2 * 10 powi (- 81)"
proof -
  define E where "E = max (iou_exponent a) (iou_exponent b)"
  define S where "S = iou_aligned_sum a b"
  have err: "\<bar>iou_val a + iou_val b - of_int S * 10 powi E\<bar> < 10 powi E"
    unfolding S_def E_def by (rule iou_aligned_sum_error)
  consider "b = iou_zero" "r = a" | "a = iou_zero" "r = b" | "\<bar>S\<bar> \<le> 10" "r = iou_zero" |
    "10 < \<bar>S\<bar>" "iou_normalize \<lparr>iou_mantissa = S, iou_exponent = E\<rparr> = Inr r"
    using assms unfolding iou_add_shape by (fold S_def E_def) (auto simp: iou_wf_zero split: if_splits)
  then show ?thesis
  proof cases
    case 3
    then have "\<bar>of_int S * (10::real) powi E\<bar> \<le> 10 * 10 powi E"
      by (simp add: abs_mult flip: of_int_abs)
    then show ?thesis using err 3 unfolding E_def [symmetric] by auto
  next
    case 4
    let ?v = "\<bar>of_int S * (10::real) powi E\<bar>"
    have v: "?v = of_int \<bar>S\<bar> * 10 powi E" by (simp add: abs_mult)
    have n: "normalized ?v (sgn S) (Inr r)"
      using normalize_spec [of "\<lparr>iou_mantissa = S, iou_exponent = E\<rparr>"] 4 by (auto simp: iou_val_def)
    show ?thesis
    proof (cases "?v < 10 powi (- 81)")
      case True
      then have "r = iou_zero" using n by (simp add: normalized_def)
      moreover have "(10::real) powi E \<le> of_int \<bar>S\<bar> * 10 powi E" using 4 by simp
      ultimately have "\<bar>iou_val a + iou_val b\<bar> < 2 * 10 powi (- 81)"
        using True err unfolding v by linarith
      then show ?thesis using \<open>r = iou_zero\<close> by blast
    next
      case False
      then have r: "r \<noteq> iou_zero" "sgn (iou_mantissa r) = sgn S" "iou_wf r" "\<bar>iou_val r\<bar> \<le> ?v"
        "?v < \<bar>iou_val r\<bar> + 10 powi iou_exponent r" using n by (auto simp: normalized_def)
      have wr: "minMantissa \<le> \<bar>iou_mantissa r\<bar>" "\<bar>iou_mantissa r\<bar> \<le> maxMantissa" using r(1,3) by (auto simp: iou_wf_def)
      have "of_int \<bar>iou_mantissa r\<bar> * 10 powi iou_exponent r \<le> of_int \<bar>S\<bar> * (10::real) powi E"
        using r(4) v by (simp add: iou_val_def abs_mult)
      moreover have "real_of_int \<bar>S\<bar> < 100000000000000000"
        using iou_aligned_sum_range [OF assms(1,2)] by (simp add: S_def maxMantissa_def)
      ultimately have "iou_exponent r \<le> E + 1" by (rule iou_exponent_le [OF wr])
      then have "(10::real) powi iou_exponent r \<le> 10 * 10 powi E"
        using ten_powi_mono ten_powi_step(1) by metis
      moreover have "sgn (iou_val r) = sgn (of_int S * (10::real) powi E)"
        using r(2) by (auto simp: iou_val_def sgn_if zero_less_mult_iff split: if_splits)
      ultimately have "\<bar>iou_val r - of_int S * (10::real) powi E\<bar> < 10 * 10 powi E"
        using r(4,5) same_sign_diff by fastforce
      then show ?thesis using err unfolding E_def [symmetric] by linarith
    qed
  qed simp_all
qed

section \<open>Multiplication by a ratio\<close>

text \<open>
  \<open>uint128_t\<close> values stay below 2 to the 96th, so they are integers here.
  \<open>lower_bound\<close> in the sorted table of powers of ten counts the entries below its
  argument.
\<close>

definition powerTable :: "int list" where
  "powerTable = map (\<lambda>i. 10 ^ i) [0..<30]"

definition log10Ceil :: "int \<Rightarrow> nat" where
  "log10Ceil v = length (takeWhile (\<lambda>p. p < v) powerTable)"

definition log10Floor :: "int \<Rightarrow> nat" where
  "log10Floor v = (let i = log10Ceil v in if powerTable ! i \<noteq> v then i - 1 else i)"

definition fl64 :: nat where
  "fl64 = log10Floor 9223372036854775807"

text \<open>The quotient with as many digits as the mantissa takes, what is left over, the exponent.\<close>

definition growQuotient :: "int \<Rightarrow> int \<Rightarrow> int \<Rightarrow> int \<times> int \<times> int" where
  "growQuotient mul den e =
     (let low = mul div den; rem = mul - low * den
      in if rem \<noteq> 0 then
           (let roomToGrow = fl64 - log10Ceil low;
                p = (if fl64 > log10Ceil low then powerTable ! roomToGrow else 1);
                e' = (if fl64 > log10Ceil low then e - int roomToGrow else e);
                addRem = rem * p div den
            in (low * p + addRem, rem * p - addRem * den, e'))
         else (low, rem, e))"

definition shrinkQuotient :: "int \<times> int \<times> int \<Rightarrow> int \<times> bool \<times> int" where
  "shrinkQuotient x =
     (case x of (low, rem, e) \<Rightarrow>
        if log10Ceil low > fl64 then
          (let mustShrink = log10Ceil low - fl64; low' = low div powerTable ! mustShrink
           in (low', rem \<noteq> 0 \<or> low - low' * powerTable ! mustShrink \<noteq> 0, e + int mustShrink))
        else (low, rem \<noteq> 0, e))"

definition mulRatio :: "iou_amount \<Rightarrow> u32 \<Rightarrow> u32 \<Rightarrow> bool \<Rightarrow> iou_amount res" where
  "mulRatio amt num den roundUp =
     (if den = 0 then Inl (Thrown ''division by zero'')
      else let neg = iou_mantissa amt < 0;
               mul = (if neg then - iou_mantissa amt else iou_mantissa amt) * uint num;
               (low, hasRem, e) = shrinkQuotient (growQuotient mul (uint den) (iou_exponent amt))
           in rbind (makeIOU (if neg then low * - 1 else low) e) (\<lambda>result.
                if hasRem \<and> roundUp \<and> \<not> neg then
                  (if iou_mantissa result = 0 then makeIOU minMantissa minExponent
                   else makeIOU (iou_mantissa result + 1) (iou_exponent result))
                else if hasRem \<and> \<not> roundUp \<and> neg then
                  (if iou_mantissa result = 0 then makeIOU (- minMantissa) minExponent
                   else makeIOU (iou_mantissa result - 1) (iou_exponent result))
                else Inr result))"

lemma takeWhile_powers:
  "length (takeWhile (\<lambda>p. p < v) (map (\<lambda>i. (10::int) ^ i) [k..<n])) = c \<Longrightarrow> k + c < n \<Longrightarrow>
     v \<le> 10 ^ (k + c) \<and> (c = 0 \<or> 10 ^ (k + c - 1) < v)"
proof (induction "n - k" arbitrary: k c)
  case 0
  then show ?case by simp
next
  case (Suc d)
  then have k: "k < n" by simp
  have u: "[k..<n] = k # [Suc k..<n]" using k by (rule upt_conv_Cons)
  show ?case
  proof (cases "10 ^ k < v")
    case False
    then show ?thesis using Suc(3) by (simp add: u)
  next
    case True
    then obtain c' where c: "c = Suc c'" "length (takeWhile (\<lambda>p. p < v) (map (\<lambda>i. (10::int) ^ i) [Suc k..<n])) = c'"
      using Suc(3) by (simp add: u)
    have "v \<le> 10 ^ (Suc k + c') \<and> (c' = 0 \<or> 10 ^ (Suc k + c' - 1) < v)"
      using Suc(1) [of "Suc k" c'] Suc(2,4) c by simp
    then show ?thesis using c True by (cases c') auto
  qed
qed

lemma log10Ceil_le: "log10Ceil v \<le> 30"
  unfolding log10Ceil_def powerTable_def using length_takeWhile_le [of "\<lambda>p. p < v" "map (\<lambda>i. 10 ^ i) [0..<30]"] by simp

lemma log10Ceil_spec:
  assumes "v < 10 ^ 29"
  shows "log10Ceil v < 30" "v \<le> 10 ^ log10Ceil v" "log10Ceil v = 0 \<or> 10 ^ (log10Ceil v - 1) < v"
proof -
  show l: "log10Ceil v < 30"
  proof (rule ccontr)
    assume "\<not> ?thesis"
    then have "log10Ceil v = length powerTable" using log10Ceil_le [of v] by (simp add: powerTable_def)
    then have "takeWhile (\<lambda>p. p < v) powerTable = powerTable"
      unfolding log10Ceil_def by (metis length_takeWhile_le order.refl takeWhile_eq_all_conv takeWhile_eq_take take_all)
    then have "\<forall>p \<in> set powerTable. p < v" by (simp add: takeWhile_eq_all_conv)
    moreover have "10 ^ 29 \<in> set powerTable"
      unfolding powerTable_def set_map by (rule image_eqI [of _ _ 29]) simp_all
    ultimately show False using assms by fastforce
  qed
  show "v \<le> 10 ^ log10Ceil v" "log10Ceil v = 0 \<or> 10 ^ (log10Ceil v - 1) < v"
    using takeWhile_powers [of v 0 30 "log10Ceil v"] l unfolding log10Ceil_def powerTable_def by simp_all
qed

lemma fl64_eq: "fl64 = 18"
  by (simp add: fl64_def log10Floor_def log10Ceil_def powerTable_def upt_rec Let_def)

lemma powerTable_nth: "i < 30 \<Longrightarrow> powerTable ! i = 10 ^ i"
  by (simp add: powerTable_def)

lemma growQuotient_shape:
  fixes mul den e :: int
  defines "q \<equiv> mul div den" and "s \<equiv> mul mod den"
  defines "k \<equiv> fl64 - log10Ceil q"
  shows "growQuotient mul den e =
    (if s = 0 then (q, 0, e) else (q * 10 ^ k + s * 10 ^ k div den, s * 10 ^ k mod den, e - int k))"
proof -
  have s: "mul - q * den = s" by (simp add: s_def q_def minus_div_mult_eq_mod)
  have k: "k < 30" by (simp add: k_def fl64_eq)
  have p: "(if fl64 > log10Ceil q then powerTable ! k else 1) = 10 ^ k"
    "(if fl64 > log10Ceil q then e - int k else e) = e - int k"
    using powerTable_nth [OF k] by (simp_all add: k_def)
  show ?thesis
    using p unfolding growQuotient_def Let_def q_def [symmetric] s k_def [symmetric]
    by (simp add: minus_div_mult_eq_mod)
qed

lemma growQuotient_spec:
  assumes "10 ^ 15 \<le> mul" "mul < 10 ^ 26" "0 < den" "den < 2 ^ 32" "growQuotient mul den e = (low, rem, e')"
  shows "(\<exists>k. mul * 10 ^ k = low * den + rem \<and> e' = e - int k) \<and> 0 \<le> rem \<and> rem < den \<and>
    0 \<le> low \<and> low < 10 ^ 29 \<and> (rem \<noteq> 0 \<longrightarrow> 10 ^ 17 \<le> low)"
proof -
  define q where "q = mul div den" define s where "s = mul mod den"
  define c where "c = log10Ceil q" define k where "k = fl64 - c"
  have mul: "mul = q * den + s" "0 \<le> s" "s < den" using assms(3) by (simp_all add: q_def s_def)
  have q0: "0 \<le> q" "q \<le> mul" using assms zdiv_mono2 [of mul 1 den] by (auto simp: q_def pos_imp_zdiv_nonneg_iff)
  have "200000 \<le> q" unfolding q_def using assms by (subst int_le_div_iff) simp_all
  have q29: "q < 10 ^ 29" using q0 assms(2) by simp
  note c = log10Ceil_spec [OF q29, folded c_def]
  have c1: "10 ^ (c - 1) < q" "1 \<le> c" using c \<open>200000 \<le> q\<close> by (cases c; simp)+
  note g = growQuotient_shape [of mul den e, folded q_def s_def c_def, folded k_def]
  show ?thesis
  proof (cases "s = 0")
    case True
    then show ?thesis using g assms mul q0 q29 by (auto intro: exI [of _ 0])
  next
    case False
    define p where "p = (10::int) ^ k"
    have p: "0 < p" by (simp add: p_def)
    have low: "low = q * p + s * p div den" "rem = s * p mod den" "e' = e - int k"
      using g False assms(5) by (simp_all add: p_def)
    have "mul * p = low * den + rem"
      unfolding mul(1) low by (simp add: algebra_simps)
    moreover have "0 \<le> rem" "rem < den" using assms(3) low by simp_all
    moreover have ar: "0 \<le> s * p div den" using mul p assms(3) by (simp add: pos_imp_zdiv_nonneg_iff)
    moreover have "s * p div den < p"
      using mul p assms(3) int_le_div_iff [of den p "s * p"] by (simp add: mult.commute not_le [symmetric])
    moreover have "10 ^ 17 \<le> q * p \<and> q * p + p < 10 ^ 29"
    proof (cases "c \<le> 18")
      case True
      have "10 ^ (c - 1) * p \<le> q * p" "q * p \<le> 10 ^ c * p" using c1 c p by simp_all
      moreover have "10 ^ (c - 1) * p = 10 ^ 17" "10 ^ c * p = 10 ^ 18"
        using True c1(2) by (simp_all add: p_def k_def fl64_eq flip: power_add)
      moreover have "p \<le> 10 ^ 18" unfolding p_def by (rule power_increasing) (simp_all add: k_def fl64_eq)
      ultimately show ?thesis by simp
    next
      case False
      then have "(10::int) ^ 17 \<le> 10 ^ (c - 1)" by (intro power_increasing) simp_all
      then show ?thesis using False c1(1) q0(2) assms(2) by (simp add: p_def k_def fl64_eq)
    qed
    ultimately show ?thesis using low p_def by auto
  qed
qed

lemma shrinkQuotient_spec:
  assumes "0 \<le> low" "low < 10 ^ 29" "0 \<le> rem" "rem < den" "rem \<noteq> 0 \<longrightarrow> 10 ^ 17 \<le> low"
    and "shrinkQuotient (low, rem, e) = (q, h, f)"
  shows "\<exists>j r. low * den + rem = q * (den * 10 ^ j) + r \<and> 0 \<le> r \<and> r < den * 10 ^ j \<and> h = (r \<noteq> 0) \<and>
    f = e + int j \<and> 0 \<le> q \<and> q \<le> 10 ^ 18 \<and> (h \<longrightarrow> 10 ^ 17 \<le> q)"
proof -
  define c where "c = log10Ceil low"
  note c = log10Ceil_spec [OF assms(2), folded c_def]
  show ?thesis
  proof (cases "18 < c")
    case False
    then have "(10::int) ^ c \<le> 10 ^ 18" by (intro power_increasing) simp_all
    then show ?thesis using False assms c
      by (intro exI [of _ 0] exI [of _ rem]) (auto simp: shrinkQuotient_def fl64_eq c_def)
  next
    case True
    define j where "j = c - 18"
    have p: "powerTable ! j = 10 ^ j" using c(1) by (intro powerTable_nth) (simp add: j_def)
    define s where "s = low mod 10 ^ j"
    have "shrinkQuotient (low, rem, e) = (low div 10 ^ j, rem \<noteq> 0 \<or> s \<noteq> 0, e + int j)"
      using True unfolding shrinkQuotient_def Let_def prod.case fl64_eq c_def [symmetric] j_def [symmetric] p
      by (simp add: s_def minus_div_mult_eq_mod)
    then have q: "q = low div 10 ^ j" "h = (rem \<noteq> 0 \<or> s \<noteq> 0)" "f = e + int j" using assms(6) by auto
    have low: "low = q * 10 ^ j + s" "0 \<le> s" "s < 10 ^ j"
      using div_mult_mod_eq [of low "10 ^ j"] by (simp_all only: q(1) s_def) simp_all
    have den: "0 < den" using assms(3,4) by linarith
    have cj: "c - 1 = 17 + j" "c = 18 + j" "c \<noteq> 0" using True by (simp_all add: j_def)
    have "s * den + rem < den * 10 ^ j"
    proof -
      have "s * den + rem < (s + 1) * den" using assms(4) by (simp add: distrib_right)
      also have "\<dots> \<le> 10 ^ j * den" using low(3) den by (intro mult_right_mono) simp_all
      finally show ?thesis by (simp add: mult.commute)
    qed
    moreover have "0 \<le> s * den" using low den by simp
    moreover have "h = (s * den + rem \<noteq> 0)"
      using q(2) low(2) den assms(3) by (auto simp: add_nonneg_eq_0_iff)
    moreover have "10 ^ 17 \<le> q"
    proof -
      have "(10::int) ^ 17 * 10 ^ j \<le> low" using c(3) cj(3) unfolding cj(1) power_add by linarith
      then show ?thesis unfolding q using int_le_div_iff [of "10 ^ j" "10 ^ 17" low] by simp
    qed
    moreover have "q \<le> 10 ^ 18"
    proof -
      have "low \<le> 10 ^ 18 * 10 ^ j" using c(2) unfolding cj(2) power_add .
      then have "low div 10 ^ j \<le> 10 ^ 18 * 10 ^ j div 10 ^ j" by (intro zdiv_mono1) simp_all
      then show ?thesis unfolding q by simp
    qed
    ultimately show ?thesis using q(3) assms(3) low(1)
      by (intro exI [of _ j] exI [of _ "s * den + rem"]) (auto simp: algebra_simps)
  qed
qed

text \<open>
  The quotient \<open>q\<close> times ten to the \<open>f\<close> is the exact product cut to at least
  seventeen digits, and the flag tells whether anything was cut.
\<close>

lemma mulRatio_quotient:
  assumes "10 ^ 15 \<le> mul" "mul < 10 ^ 26" "0 < den" "den < 2 ^ 32"
    and "shrinkQuotient (growQuotient mul den e) = (q, h, f)"
  defines "X \<equiv> of_int mul / of_int den * (10::real) powi e"
  shows "of_int q * (10::real) powi f \<le> X" "X < (of_int q + 1) * 10 powi f"
    "\<not> h \<Longrightarrow> X = of_int q * (10::real) powi f" "0 < q" "q \<le> 10 ^ 18" "h \<Longrightarrow> 10 ^ 17 \<le> q"
proof -
  obtain low rem e1 where g: "growQuotient mul den e = (low, rem, e1)" by (rule prod_cases3)
  note g1 = growQuotient_spec [OF assms(1-4) g]
  then obtain k where k: "mul * 10 ^ k = low * den + rem" "e1 = e - int k" by blast
  have "shrinkQuotient (low, rem, e1) = (q, h, f)" using assms(5) g by simp
  from shrinkQuotient_spec [OF _ _ _ _ _ this] g1 obtain j r where
    j: "low * den + rem = q * (den * 10 ^ j) + r" "0 \<le> r" "r < den * 10 ^ j" "h = (r \<noteq> 0)" "f = e1 + int j"
      "0 \<le> q" "q \<le> 10 ^ 18" "h \<longrightarrow> 10 ^ 17 \<le> q" by blast
  have d: "0 < real_of_int den * 10 ^ j" using assms(3) by simp
  have "real_of_int mul * 10 ^ k = of_int q * (of_int den * 10 ^ j) + of_int r"
    using k(1) j(1) by (metis (no_types) of_int_add of_int_mult of_int_numeral of_int_power)
  then have m: "of_int q + of_int r / (of_int den * 10 ^ j) = real_of_int mul * 10 ^ k / (of_int den * 10 ^ j)"
    using assms(3) by (simp add: add_divide_distrib)
  have "(10::real) powi f = 10 powi e * 10 ^ j / 10 ^ k"
    using k(2) j(5) by (simp add: power_int_add power_int_diff)
  then have X: "X = (of_int q + of_int r / (of_int den * 10 ^ j)) * (10::real) powi f"
    unfolding m by (simp add: X_def)
  have rr: "0 \<le> of_int r / (real_of_int den * 10 ^ j)" "of_int r / (real_of_int den * 10 ^ j) < 1"
  proof -
    have "real_of_int r < of_int den * 10 ^ j" using j(3) by (metis of_int_less_iff of_int_mult of_int_numeral of_int_power)
    then show "of_int r / (real_of_int den * 10 ^ j) < 1" using d by simp
    show "0 \<le> of_int r / (real_of_int den * 10 ^ j)" using j(2) d by (intro divide_nonneg_pos) simp_all
  qed
  show "of_int q * (10::real) powi f \<le> X" unfolding X using rr(1) by (intro mult_right_mono) simp_all
  show "X < (of_int q + 1) * 10 powi f" unfolding X using rr(2) by (intro mult_strict_right_mono) simp_all
  show "\<not> h \<Longrightarrow> X = of_int q * (10::real) powi f" using j(4) by (simp add: X)
  show "q \<le> 10 ^ 18" "h \<Longrightarrow> 10 ^ 17 \<le> q" using j(7,8) by simp_all
  show "0 < q"
  proof (rule ccontr)
    assume "\<not> 0 < q"
    then have "q = 0" using j(6) by simp
    then have "\<not> h" using j(8) by auto
    then have "mul * 10 ^ k = 0" using k(1) j(1,4) \<open>q = 0\<close> by simp
    then show False using assms(1) by simp
  qed
qed

text \<open>One unit more in the last digit.\<close>

lemma normalizePos_succ:
  assumes "minMantissa \<le> m" "m \<le> maxMantissa" "minExponent \<le> e" "e \<le> maxExponent"
    and "normalizePos neg (m + 1) e = Inr r"
  shows "\<bar>iou_val r\<bar> = (of_int m + 1) * 10 powi e" "e \<le> iou_exponent r" "iou_wf r" "r \<noteq> iou_zero"
    "sgn (iou_mantissa r) = (if neg then - 1 else 1)"
proof -
  have *: "r = \<lparr>iou_mantissa = (if neg then - (m + 1) else m + 1), iou_exponent = e\<rparr>" if "m < maxMantissa"
    using assms that by (auto simp: normalizePos_def scaleUp.simps [of "m + 1" e] scaleDown.simps [of "m + 1" e])
  have **: "r = \<lparr>iou_mantissa = (if neg then - minMantissa else minMantissa), iou_exponent = e + 1\<rparr> \<and> e < maxExponent"
    if "m = maxMantissa"
    using assms that
    by (auto simp: normalizePos_def iou_params scaleUp.simps [of 10000000000000000 e]
        scaleDown.simps [of 10000000000000000 e] scaleDown.simps [of 1000000000000000] split: if_splits)
  consider "m < maxMantissa" | "m = maxMantissa" using assms(2) by linarith
  then have "\<bar>iou_val r\<bar> = (of_int m + 1) * 10 powi e \<and> e \<le> iou_exponent r \<and> iou_wf r \<and> r \<noteq> iou_zero \<and>
      sgn (iou_mantissa r) = (if neg then - 1 else 1)"
  proof cases
    case 1
    then show ?thesis using * assms by (auto simp: iou_val_def iou_wf_def iou_zero_def iou_params abs_mult)
  next
    case 2
    then show ?thesis using ** assms
      by (auto simp: iou_val_def iou_wf_def iou_zero_def iou_params abs_mult ten_powi_step(1))
  qed
  then show "\<bar>iou_val r\<bar> = (of_int m + 1) * 10 powi e" "e \<le> iou_exponent r" "iou_wf r" "r \<noteq> iou_zero"
    "sgn (iou_mantissa r) = (if neg then - 1 else 1)" by blast+
qed

text \<open>\<open>mulRatio\<close> on the absolute value.\<close>

lemma makeIOU_sign: "0 < m \<Longrightarrow> makeIOU m e = normalizePos False m e" "0 < m \<Longrightarrow> makeIOU (- m) e = normalizePos True m e"
  by (simp_all add: makeIOU_def normalize_pos)

lemma mulRatio_shape:
  assumes "den \<noteq> 0" "iou_mantissa amt \<noteq> 0" "num \<noteq> 0" "iou_wf amt"
    and "shrinkQuotient (growQuotient (\<bar>iou_mantissa amt\<bar> * uint num) (uint den) (iou_exponent amt)) = (q, h, f)" "0 < q"
  defines "neg \<equiv> iou_mantissa amt < 0"
  shows "mulRatio amt num den roundUp =
    rbind (normalizePos neg q f) (\<lambda>r.
      if h \<and> roundUp \<noteq> neg then
        (if r = iou_zero then normalizePos neg minMantissa minExponent
         else normalizePos neg (\<bar>iou_mantissa r\<bar> + 1) (iou_exponent r))
      else Inr r)"
proof -
  have a: "(if neg then - iou_mantissa amt else iou_mantissa amt) = \<bar>iou_mantissa amt\<bar>" by (simp add: neg_def)
  have n: "makeIOU (if neg then q * - 1 else q) f = normalizePos neg q f"
    using makeIOU_sign [OF assms(6), of f] by simp
  show ?thesis
  proof (cases "normalizePos neg q f")
    case (Inl err)
    then show ?thesis
      unfolding mulRatio_def Let_def neg_def [symmetric] a assms(5) prod.case n using assms(1) by simp
  next
    case (Inr r)
    have s: "normalized (of_int q * 10 powi f) (if neg then - 1 else 1) (Inr r)"
      using normalizePos_spec [OF assms(6), of f neg] Inr by simp
    then have r: "iou_wf r" "iou_mantissa r = 0 \<longleftrightarrow> r = iou_zero"
      using iou_wf_zero by (auto simp: normalized_def)
    have sg: "r \<noteq> iou_zero \<Longrightarrow> sgn (iou_mantissa r) = (if neg then - 1 else 1)"
      using s by (auto simp: normalized_def split: if_splits)
    have m1: "r \<noteq> iou_zero \<Longrightarrow> \<not> neg \<Longrightarrow> makeIOU (iou_mantissa r + 1) (iou_exponent r) =
        normalizePos neg (\<bar>iou_mantissa r\<bar> + 1) (iou_exponent r)"
      using sg makeIOU_sign(1) [of "\<bar>iou_mantissa r\<bar> + 1"] by (auto simp: sgn_if split: if_splits)
    have m2: "makeIOU (iou_mantissa r - 1) (iou_exponent r) =
        normalizePos neg (\<bar>iou_mantissa r\<bar> + 1) (iou_exponent r)" if "r \<noteq> iou_zero" neg
    proof -
      have "iou_mantissa r - 1 = - (\<bar>iou_mantissa r\<bar> + 1)" using sg that by (auto simp: sgn_if split: if_splits)
      then show ?thesis using makeIOU_sign(2) [of "\<bar>iou_mantissa r\<bar> + 1"] that by simp
    qed
    have m3: "makeIOU minMantissa minExponent = normalizePos False minMantissa minExponent"
      "makeIOU (- minMantissa) minExponent = normalizePos True minMantissa minExponent"
      using makeIOU_sign [of minMantissa minExponent] by (simp_all add: minMantissa_def)
    show ?thesis
      unfolding mulRatio_def Let_def neg_def [symmetric] a assms(5) prod.case n Inr
      using assms(1) m1 m2 m3 r(2) by (cases neg; cases roundUp) auto
  qed
qed

lemma int_cut:
  fixes q n e f :: int
  assumes "of_int q * (10::real) powi f < of_int n * 10 powi e" "f \<le> e"
  shows "(of_int q + 1) * (10::real) powi f \<le> of_int n * 10 powi e"
proof -
  define k where "k = nat (e - f)"
  have "e = f + int k" using assms(2) by (simp add: k_def)
  then have e: "(10::real) powi e = of_int (10 ^ k) * 10 powi f" by (simp add: power_int_add)
  have "real_of_int q < of_int (n * 10 ^ k)"
    using assms(1) unfolding e by (simp add: mult.assoc [symmetric] mult_less_cancel_right)
  then have "q + 1 \<le> n * 10 ^ k" by linarith
  then have "real_of_int (q + 1) \<le> of_int (n * 10 ^ k)" by (simp only: of_int_le_iff)
  then have "real_of_int (q + 1) * 10 powi f \<le> of_int (n * 10 ^ k) * 10 powi f" by (intro mult_right_mono) simp_all
  then show ?thesis unfolding e by (simp add: mult.assoc)
qed

lemma cut_error:
  fixes q m e f :: int and X :: real
  assumes "minMantissa \<le> m" "m \<le> maxMantissa" "of_int m * 10 powi e \<le> of_int q * 10 powi f"
    and "of_int q * (10::real) powi f < (of_int m + 1) * 10 powi e"
    and "X < (of_int q + 1) * 10 powi f" "10 ^ 17 \<le> q"
  shows "X < (of_int m + 1) * 10 powi e"
proof -
  have "(10::real) powi (17 + f) \<le> of_int q * 10 powi f"
  proof -
    have "(10::real) ^ 17 \<le> of_int q" using assms(6) by simp
    then have "(10::real) ^ 17 * 10 powi f \<le> of_int q * 10 powi f" by (intro mult_right_mono) simp_all
    then show ?thesis by (simp add: power_int_add)
  qed
  also have "\<dots> < 10 powi (16 + e)"
  proof -
    have "(of_int m + 1) * (10::real) powi e \<le> 10 powi (16 + e)"
      using assms(2) by (simp add: power_int_add iou_params)
    then show ?thesis using assms(4) by linarith
  qed
  finally have "f < e" using ten_powi_mono [of "16 + e" "17 + f"] by linarith
  have "of_int q * (10::real) powi f < of_int (m + 1) * 10 powi e" using assms(4) by simp
  from int_cut [OF this] show ?thesis using \<open>f < e\<close> assms(5) by simp
qed

lemma mulRatio_abs:
  assumes "iou_wf amt" "den \<noteq> 0" "mulRatio amt num den roundUp = Inr r"
  defines "X \<equiv> \<bar>iou_val amt\<bar> * of_int (uint num) / of_int (uint den)"
  assumes "10 powi (- 81) \<le> X"
  shows "iou_wf r \<and> \<bar>\<bar>iou_val r\<bar> - X\<bar> \<le> 10 powi iou_exponent r \<and>
    sgn (iou_mantissa r) = sgn (iou_mantissa amt) \<and>
    (roundUp = (iou_mantissa amt < 0) \<longrightarrow> \<bar>iou_val r\<bar> \<le> X)"
proof -
  define neg where "neg \<longleftrightarrow> iou_mantissa amt < 0"
  define mul where "mul = \<bar>iou_mantissa amt\<bar> * uint num"
  have X0: "0 < X" using assms(5) ten_powi_pos [of "- 81"] by linarith
  then have nz: "iou_mantissa amt \<noteq> 0" "num \<noteq> 0" by (auto simp: X_def iou_val_def)
  then have m: "minMantissa \<le> \<bar>iou_mantissa amt\<bar>" "\<bar>iou_mantissa amt\<bar> \<le> maxMantissa"
    using assms(1) by (auto simp: iou_wf_def)
  have num: "1 \<le> uint num" "uint num < 2 ^ 32"
    using nz(2) uint_lt2p [of num] by (metis uint_ge_0 uint_0_iff le_less zless_imp_add1_zle add_0, simp)
  have den: "0 < uint den" "uint den < 2 ^ 32"
    using assms(2) uint_lt2p [of den] by (metis uint_ge_0 uint_0_iff le_less, simp)
  have "minMantissa * 1 \<le> mul" "mul \<le> maxMantissa * 2 ^ 32"
    unfolding mul_def using m num by (intro mult_mono; simp)+
  then have mul: "10 ^ 15 \<le> mul" "mul < 10 ^ 26" by (simp_all add: iou_params)
  obtain q h f where qf: "shrinkQuotient (growQuotient mul (uint den) (iou_exponent amt)) = (q, h, f)"
    by (rule prod_cases3)
  have X: "X = of_int mul / of_int (uint den) * 10 powi iou_exponent amt"
    by (simp add: X_def mul_def iou_val_def abs_mult)
  note Q = mulRatio_quotient [OF mul den qf, folded X]
  define V where "V = of_int q * (10::real) powi f"
  note s = mulRatio_shape [OF assms(2) nz assms(1) qf [unfolded mul_def] Q(4), of roundUp, folded neg_def]
  have V81: "10 powi (- 81) \<le> V"
  proof (rule ccontr)
    assume n: "\<not> ?thesis"
    then have h using Q(3) assms(5) by (auto simp: V_def)
    have "(10::real) ^ 17 * 10 powi f \<le> V" unfolding V_def using Q(6) \<open>h\<close> by (intro mult_right_mono) simp_all
    then have "(10::real) powi (17 + f) < 10 powi (- 81)" using n by (simp add: power_int_add)
    then have "17 + f < - 81" using ten_powi_mono [of "- 81" "17 + f"] by linarith
    then have "(of_int q + 1) * (10::real) powi f \<le> of_int 1 * 10 powi (- 81)"
      using n by (intro int_cut) (simp_all add: V_def)
    then show False using Q(2) assms(5) by simp
  qed
  obtain r0 where r0: "normalizePos neg q f = Inr r0" using assms(3) s by (cases "normalizePos neg q f") auto
  have n: "normalized V (if neg then - 1 else 1) (Inr r0)"
    using normalizePos_spec [OF Q(4), of f neg] r0 by (simp add: V_def)
  then have r0p: "iou_wf r0" "r0 \<noteq> iou_zero" "sgn (iou_mantissa r0) = (if neg then - 1 else 1)"
    "\<bar>iou_val r0\<bar> \<le> V" "V < \<bar>iou_val r0\<bar> + 10 powi iou_exponent r0"
    using V81 by (auto simp: normalized_def)
  define m0 where "m0 = \<bar>iou_mantissa r0\<bar>" define e0 where "e0 = iou_exponent r0"
  have w0: "minMantissa \<le> m0" "m0 \<le> maxMantissa" "minExponent \<le> e0" "e0 \<le> maxExponent"
    using r0p(1,2) by (auto simp: iou_wf_def m0_def e0_def)
  have v0: "\<bar>iou_val r0\<bar> = of_int m0 * 10 powi e0" by (simp add: iou_val_def abs_mult m0_def e0_def)
  have lo: "\<bar>iou_val r0\<bar> \<le> X" using r0p(4) Q(1) by (simp add: V_def)
  have hi: "X < \<bar>iou_val r0\<bar> + 10 powi e0"
  proof (cases h)
    case True
    have "of_int m0 * (10::real) powi e0 \<le> of_int q * 10 powi f" using r0p(4) by (simp only: v0 V_def)
    moreover have "of_int q * (10::real) powi f < (of_int m0 + 1) * 10 powi e0"
      using r0p(5) by (simp only: v0 V_def e0_def [symmetric] distrib_right mult_1)
    ultimately have "X < (of_int m0 + 1) * 10 powi e0"
      by (rule cut_error [OF w0(1,2) _ _ Q(2) Q(6) [OF True]])
    then show ?thesis by (simp only: v0 distrib_right mult_1)
  next
    case False
    then show ?thesis using Q(3) r0p(5) by (simp add: V_def e0_def)
  qed
  have sg: "sgn (iou_mantissa amt) = (if neg then - 1 else 1)" using nz by (simp add: neg_def sgn_if)
  show ?thesis
  proof (cases "h \<and> roundUp \<noteq> neg")
    case True
    then have "normalizePos neg (m0 + 1) e0 = Inr r" using assms(3) s r0 r0p(2) by (simp add: m0_def e0_def)
    note r = normalizePos_succ [OF w0 this]
    then have "\<bar>iou_val r\<bar> = \<bar>iou_val r0\<bar> + 10 powi e0" by (simp add: v0 distrib_right)
    moreover have "(10::real) powi e0 \<le> 10 powi iou_exponent r" by (rule ten_powi_mono [OF r(2)])
    ultimately show ?thesis using r lo hi sg True by (auto simp: neg_def)
  next
    case False
    then have "r = r0" using assms(3) s r0 by (simp split: if_splits)
    then show ?thesis using r0p lo hi sg by (auto simp: e0_def)
  qed
qed

section \<open>Properties\<close>

text \<open>
  C22: normalization. An amount with a nonzero mantissa normalizes to the well-formed amount
  of the same sign that has its value cut to sixteen significant digits; it becomes zero
  exactly when its absolute value is below the smallest one that can be represented and
  is refused exactly when it is above the largest.
\<close>

theorem normalize_cuts:
  assumes "iou_mantissa a \<noteq> 0"
  shows "case iou_normalize a of
      Inl _ \<Rightarrow> 10 powi 96 \<le> \<bar>iou_val a\<bar>
    | Inr b \<Rightarrow> \<bar>iou_val a\<bar> < 10 powi 96 \<and> iou_wf b \<and>
        (b = iou_zero \<longleftrightarrow> \<bar>iou_val a\<bar> < 10 powi (- 81)) \<and>
        (b \<noteq> iou_zero \<longrightarrow> sgn (iou_mantissa b) = sgn (iou_mantissa a) \<and>
           \<bar>iou_val b\<bar> \<le> \<bar>iou_val a\<bar> \<and> \<bar>iou_val a\<bar> < \<bar>iou_val b\<bar> + 10 powi iou_exponent b)"
  using normalize_spec [OF assms] by (auto simp: normalized_def split: sum.splits if_splits)

theorem normalize_cuts_witness:
  "\<exists>b. iou_normalize \<lparr>iou_mantissa = - 123456789012345678, iou_exponent = 3\<rparr> = Inr b \<and> b \<noteq> iou_zero \<and>
     sgn (iou_mantissa b) = - 1 \<and> \<bar>iou_val b\<bar> \<le> 123456789012345678000"
proof -
  let ?a = "\<lparr>iou_mantissa = - 123456789012345678, iou_exponent = 3\<rparr>"
  have n: "iou_normalize ?a = Inr \<lparr>iou_mantissa = - 1234567890123456, iou_exponent = 5\<rparr>" by code_simp
  have "iou_mantissa ?a \<noteq> 0" by simp
  from normalize_cuts [OF this] show ?thesis unfolding n by (simp add: iou_val_def iou_zero_def)
qed

text \<open>
  C21: the order on amounts is the order of their values. On well-formed amounts the
  comparison agrees with that of the values they stand for, and two of them are equal
  exactly when their values are.
\<close>

theorem iou_order:
  assumes "iou_wf a" "iou_wf b"
  shows "(iou_less a b \<longleftrightarrow> iou_val a < iou_val b) \<and> (a = b \<longleftrightarrow> iou_val a = iou_val b)"
  using iou_less_val [OF assms] iou_val_inj [OF assms] by blast

theorem iou_order_witness:
  "iou_val \<lparr>iou_mantissa = - 1000000000000000, iou_exponent = 4\<rparr> <
   iou_val \<lparr>iou_mantissa = - 9999999999999999, iou_exponent = 2\<rparr>"
proof -
  have "iou_wf \<lparr>iou_mantissa = - 1000000000000000, iou_exponent = 4\<rparr>"
    "iou_wf \<lparr>iou_mantissa = - 9999999999999999, iou_exponent = 2\<rparr>"
    by (simp_all add: iou_wf_def iou_params)
  from iou_order [OF this] show ?thesis by (simp add: iou_less_def)
qed

text \<open>
  C23: addition. The sum of two well-formed amounts is commutative, well-formed, and off
  the exact sum by less than twelve units of the coarser operand's last digit, unless it
  underflows to zero; the aligned mantissas never overflow 64 bits.
\<close>

theorem iou_addition:
  assumes "iou_wf a" "iou_wf b" "iou_add a b = Inr r"
  shows "iou_add b a = Inr r \<and> iou_wf r \<and> \<bar>iou_aligned_sum a b\<bar> < 2 ^ 63 \<and>
    (\<bar>iou_val r - (iou_val a + iou_val b)\<bar> < 12 * 10 powi max (iou_exponent a) (iou_exponent b) \<or>
     r = iou_zero \<and> \<bar>iou_val a + iou_val b\<bar> < 2 * 10 powi (- 81))"
proof -
  have "iou_wf r"
    using assms normalize_wf unfolding iou_add_shape by (auto split: if_splits)
  moreover have "\<bar>iou_aligned_sum a b\<bar> < 2 ^ 63"
    using iou_aligned_sum_range [OF assms(1,2)] by (simp add: maxMantissa_def)
  ultimately show ?thesis using iou_add_error [OF assms] assms(3) iou_add_commute [OF assms(1,2)] by simp
qed

theorem iou_addition_witness:
  "\<exists>r. iou_add \<lparr>iou_mantissa = 9999999999999999, iou_exponent = 0\<rparr> \<lparr>iou_mantissa = 1000000000000009, iou_exponent = - 1\<rparr> = Inr r \<and>
     iou_wf r \<and> \<bar>iou_val r - 10099999999999999.9\<bar> < 12"
proof -
  let ?a = "\<lparr>iou_mantissa = 9999999999999999, iou_exponent = 0\<rparr>"
  let ?b = "\<lparr>iou_mantissa = 1000000000000009, iou_exponent = - 1\<rparr>"
  have w: "iou_wf ?a" "iou_wf ?b" by (simp_all add: iou_wf_def iou_params)
  have s: "iou_add ?a ?b = Inr \<lparr>iou_mantissa = 1009999999999999, iou_exponent = 1\<rparr>" by code_simp
  from iou_addition [OF w s] show ?thesis unfolding s by (simp add: iou_val_def iou_zero_def)
qed

text \<open>
  C24: multiplication by a ratio. With a product that can be represented, the result of
  \<open>mulRatio\<close> is well-formed, has the sign of the amount, and differs from the exact
  product by at most one unit in its last digit; when the rounding asked for is towards
  zero it is not larger in absolute value.
\<close>

theorem mulRatio_bounds:
  assumes "iou_wf amt" "den \<noteq> 0" "mulRatio amt num den roundUp = Inr r"
    and "10 powi (- 81) \<le> \<bar>iou_val amt\<bar> * of_int (uint num) / of_int (uint den)"
  shows "iou_wf r \<and> sgn (iou_mantissa r) = sgn (iou_mantissa amt) \<and>
    \<bar>\<bar>iou_val r\<bar> - \<bar>iou_val amt\<bar> * of_int (uint num) / of_int (uint den)\<bar> \<le> 10 powi iou_exponent r \<and>
    (roundUp = (iou_mantissa amt < 0) \<longrightarrow> \<bar>iou_val r\<bar> \<le> \<bar>iou_val amt\<bar> * of_int (uint num) / of_int (uint den))"
  using mulRatio_abs [OF assms] by blast

theorem mulRatio_bounds_witness:
  "\<exists>r. mulRatio \<lparr>iou_mantissa = 2000000000000001, iou_exponent = 0\<rparr> 1 3 True = Inr r \<and> iou_wf r \<and>
     \<bar>\<bar>iou_val r\<bar> - 2000000000000001 / 3\<bar> \<le> 10 powi iou_exponent r"
proof -
  let ?a = "\<lparr>iou_mantissa = 2000000000000001, iou_exponent = 0\<rparr>"
  have w: "iou_wf ?a" by (simp add: iou_wf_def iou_params)
  have s: "mulRatio ?a 1 3 True = Inr \<lparr>iou_mantissa = 6666666666666670, iou_exponent = - 1\<rparr>" by code_simp
  have "(10::real) powi (- 81) \<le> 10 powi 0" by (rule ten_powi_mono) simp
  also have "\<dots> \<le> \<bar>iou_val ?a\<bar> * of_int (uint (1::u32)) / of_int (uint (3::u32))" by (simp add: iou_val_def)
  finally show ?thesis
    using mulRatio_bounds [OF w _ s] unfolding s by (simp add: iou_val_def)
qed

text \<open>
  C25: \<open>mulRatio\<close> can round down although it is asked to round up: digits that the
  final normalization cuts off are not counted as a remainder. A product with eighteen
  digits and no remainder loses its last two.
\<close>

theorem mulRatio_roundUp_below:
  "\<exists>amt r. iou_wf amt \<and> mulRatio amt 101 1 True = Inr r \<and> 0 < iou_val amt \<and> iou_val r < iou_val amt * 101"
proof -
  let ?a = "\<lparr>iou_mantissa = 1000000000000001, iou_exponent = 0\<rparr>"
  let ?r = "\<lparr>iou_mantissa = 1010000000000001, iou_exponent = 2\<rparr>"
  have "mulRatio ?a 101 1 True = Inr ?r" by code_simp
  moreover have "iou_wf ?a" by (simp add: iou_wf_def iou_params)
  moreover have "0 < iou_val ?a" by (simp add: iou_val_def)
  moreover have "iou_val ?r < iou_val ?a * 101" by (simp add: iou_val_def)
  ultimately show ?thesis by blast
qed

end
