(* ===== verification/STAmount.thy ===== *)
theory STAmount
  imports IOUAmount
begin

text \<open>
  Amounts of the ledger (\<open>protocol/STAmount.h\<close>, \<open>protocol/impl/STAmount.cpp\<close>): native
  amounts in drops and issued ones as a mantissa and a power of ten, their canonical form,
  order, arithmetic with and without directed rounding, and rates. A mantissa is a 64-bit
  word; signed 64-bit intermediate values, which the code keeps in range, are integers.
\<close>

unbundle bit_operations_syntax

section \<open>Data\<close>

record issue =
  is_currency :: uint160
  is_account :: uint160

definition isCSC :: "uint160 \<Rightarrow> bool" where
  "isCSC c \<longleftrightarrow> c = 0"

definition cscIssue :: issue where
  "cscIssue = \<lparr>is_currency = 0, is_account = 0\<rparr>"

definition noIssue :: issue where
  "noIssue = \<lparr>is_currency = 1, is_account = 1\<rparr>"

record st_amount =
  sa_issue :: issue
  sa_value :: u64
  sa_offset :: int
  sa_native :: bool
  sa_negative :: bool

definition cMinOffset :: int where
  "cMinOffset = - 96"

definition cMaxOffset :: int where
  "cMaxOffset = 80"

definition cMinValue :: u64 where
  "cMinValue = 1000000000000000"

definition cMaxValue :: u64 where
  "cMaxValue = 3999999999999999999"

definition cMaxNativeN :: u64 where
  "cMaxNativeN = 4000000000000000000"

definition cNotNative :: u64 where
  "cNotNative = 0x8000000000000000"

definition cPosNative :: u64 where
  "cPosNative = 0x4000000000000000"

definition tenTo14 :: u64 where
  "tenTo14 = 100000000000000"

definition tenTo14m1 :: u64 where
  "tenTo14m1 = tenTo14 - 1"

definition tenTo17 :: u64 where
  "tenTo17 = tenTo14 * 1000"

lemmas st_params = cMinOffset_def cMaxOffset_def cMinValue_def cMaxValue_def cMaxNativeN_def

definition st_signum :: "st_amount \<Rightarrow> int" where
  "st_signum a = (if sa_value a \<noteq> 0 then if sa_negative a then - 1 else 1 else 0)"

definition st_isZero :: "st_amount \<Rightarrow> bool" where
  "st_isZero a \<longleftrightarrow> st_signum a = 0"

definition areComparable :: "st_amount \<Rightarrow> st_amount \<Rightarrow> bool" where
  "areComparable v1 v2 \<longleftrightarrow>
     sa_native v1 = sa_native v2 \<and> is_currency (sa_issue v1) = is_currency (sa_issue v2)"

section \<open>Canonical form\<close>

text \<open>The loops of \<open>canonicalize\<close>. Multiplication wraps at 64 bits.\<close>

function dropDigits :: "u64 \<Rightarrow> int \<Rightarrow> u64 \<times> int" where
  "dropDigits v off = (if off < 0 then dropDigits (v div 10) (off + 1) else (v, off))"
  by pat_completeness auto
termination by (relation "measure (\<lambda>(v, off). nat (- off))") auto

function addDigits :: "u64 \<Rightarrow> int \<Rightarrow> u64 \<times> int" where
  "addDigits v off = (if off > 0 then addDigits (v * 10) (off - 1) else (v, off))"
  by pat_completeness auto
termination by (relation "measure (\<lambda>(v, off). nat off)") auto

function growMantissa :: "u64 \<Rightarrow> int \<Rightarrow> u64 \<times> int" where
  "growMantissa v off =
     (if v < cMinValue \<and> off > cMinOffset then growMantissa (v * 10) (off - 1) else (v, off))"
  by pat_completeness auto
termination by (relation "measure (\<lambda>(v, off). nat (off - cMinOffset))") auto

function shrinkMantissa :: "u64 \<Rightarrow> int \<Rightarrow> (u64 \<times> int) res" where
  "shrinkMantissa v off =
     (if v > cMaxValue then
        if off \<ge> cMaxOffset then Inl (Thrown ''value overflow'')
        else shrinkMantissa (v div 10) (off + 1)
      else Inr (v, off))"
  by pat_completeness auto
termination
proof (relation "measure (\<lambda>(v, off). unat v)", simp)
  fix v :: u64 and off :: int assume "v > cMaxValue"
  then have "0 < unat v" by (simp add: word_less_nat_alt)
  then show "((v div 10, off + 1), v, off) \<in> measure (\<lambda>(v, off). unat v)"
    by (simp add: unat_div_distrib)
qed

declare dropDigits.simps [simp del] addDigits.simps [simp del]
  growMantissa.simps [simp del] shrinkMantissa.simps [simp del]

definition canonicalize :: "st_amount \<Rightarrow> st_amount res" where
  "canonicalize a =
     (if isCSC (is_currency (sa_issue a)) then
        (if sa_value a = 0 then Inr (a\<lparr>sa_offset := 0, sa_native := True, sa_negative := False\<rparr>)
         else let (v1, o1) = dropDigits (sa_value a) (sa_offset a);
                  (v2, o2) = addDigits v1 o1
              in if v2 > cMaxNativeN then Inl (Thrown ''Native currency amount out of range'')
                 else Inr (a\<lparr>sa_value := v2, sa_offset := o2, sa_native := True\<rparr>))
      else if sa_value a = 0 then Inr (a\<lparr>sa_offset := - 100, sa_native := False, sa_negative := False\<rparr>)
      else let (v1, o1) = growMantissa (sa_value a) (sa_offset a)
           in rbind (shrinkMantissa v1 o1) (\<lambda>(v2, o2).
                if o2 < cMinOffset \<or> v2 < cMinValue
                then Inr (a\<lparr>sa_value := 0, sa_offset := - 100, sa_native := False, sa_negative := False\<rparr>)
                else if o2 > cMaxOffset then Inl (Thrown ''value overflow'')
                else rassert (v2 = 0 \<or> cMinValue \<le> v2 \<and> v2 \<le> cMaxValue) ''canonicalize''
                  (rassert (v2 = 0 \<or> cMinOffset \<le> o2 \<and> o2 \<le> cMaxOffset) ''canonicalize''
                    (rassert (v2 \<noteq> 0 \<or> o2 \<noteq> - 100) ''canonicalize''
                      (Inr (a\<lparr>sa_value := v2, sa_offset := o2, sa_native := False\<rparr>))))))"

section \<open>Constructors\<close>

definition st_unchecked :: "issue \<Rightarrow> u64 \<Rightarrow> int \<Rightarrow> bool \<Rightarrow> bool \<Rightarrow> st_amount" where
  "st_unchecked iss m e native negative =
     \<lparr>sa_issue = iss, sa_value = m, sa_offset = e, sa_native = native, sa_negative = negative\<rparr>"

definition st_make :: "issue \<Rightarrow> u64 \<Rightarrow> int \<Rightarrow> bool \<Rightarrow> st_amount res" where
  "st_make iss m e negative = canonicalize (st_unchecked iss m e False negative)"

definition st_zero :: "issue \<Rightarrow> st_amount res" where
  "st_zero iss = st_make iss 0 0 False"

definition st_drops :: "u64 \<Rightarrow> bool \<Rightarrow> st_amount" where
  "st_drops m negative = st_unchecked cscIssue m 0 True (m \<noteq> 0 \<and> negative)"

definition st_set :: "int \<Rightarrow> st_amount \<Rightarrow> st_amount" where
  "st_set v a =
     (if v < 0 then a\<lparr>sa_negative := True, sa_value := word_of_int (- v)\<rparr>
      else a\<lparr>sa_negative := False, sa_value := word_of_int v\<rparr>)"

definition st_native :: "int \<Rightarrow> st_amount" where
  "st_native v = st_set v (st_unchecked cscIssue 0 0 True False)"

definition st_of_iou :: "iou_amount \<Rightarrow> issue \<Rightarrow> st_amount res" where
  "st_of_iou amount iss =
     (let negative = iou_signum amount < 0
      in canonicalize (st_unchecked iss
           (word_of_int (if negative then - iou_mantissa amount else iou_mantissa amount))
           (iou_exponent amount) False negative))"

definition st_of_csc :: "int \<Rightarrow> st_amount res" where
  "st_of_csc drops =
     canonicalize (st_unchecked cscIssue (word_of_int (if drops < 0 then - drops else drops)) 0 True (drops < 0))"

section \<open>Conversions\<close>

definition st_csc :: "st_amount \<Rightarrow> int res" where
  "st_csc a =
     (if \<not> sa_native a then Inl (Thrown ''Cannot return non-native STAmount as CSCAmount'')
      else Inr (if sa_negative a then - sint (sa_value a) else sint (sa_value a)))"

definition st_iou :: "st_amount \<Rightarrow> iou_amount res" where
  "st_iou a =
     (if sa_native a then Inl (Thrown ''Cannot return native STAmount as IOUAmount'')
      else makeIOU (if sa_negative a then - sint (sa_value a) else sint (sa_value a)) (sa_offset a))"

definition getSNValue :: "st_amount \<Rightarrow> int res" where
  "getSNValue a =
     (if \<not> sa_native a then Inl (Thrown ''amount is not native!'')
      else Inr (if sa_negative a then - sint (sa_value a) else sint (sa_value a)))"

definition st_setIssue :: "issue \<Rightarrow> st_amount \<Rightarrow> st_amount" where
  "st_setIssue iss a = a\<lparr>sa_issue := iss, sa_native := isCSC (is_currency iss)\<rparr>"

definition st_clear :: "st_amount \<Rightarrow> st_amount" where
  "st_clear a = a\<lparr>sa_offset := (if sa_native a then 0 else - 100), sa_value := 0, sa_negative := False\<rparr>"

definition st_negate :: "st_amount \<Rightarrow> st_amount" where
  "st_negate a = (if \<not> st_isZero a then a\<lparr>sa_negative := \<not> sa_negative a\<rparr> else a)"

definition isLegalNet :: "st_amount \<Rightarrow> bool" where
  "isLegalNet a \<longleftrightarrow> \<not> sa_native a \<or> sa_value a \<le> cMaxNativeN"

section \<open>Comparison and addition\<close>

definition st_eq :: "st_amount \<Rightarrow> st_amount \<Rightarrow> bool" where
  "st_eq lhs rhs \<longleftrightarrow> areComparable lhs rhs \<and> sa_negative lhs = sa_negative rhs \<and>
     sa_offset lhs = sa_offset rhs \<and> sa_value lhs = sa_value rhs"

definition st_less :: "st_amount \<Rightarrow> st_amount \<Rightarrow> bool res" where
  "st_less lhs rhs =
     (if \<not> areComparable lhs rhs then Inl (Thrown ''compare'')
      else Inr (if sa_negative lhs \<noteq> sa_negative rhs then sa_negative lhs
                else if sa_value lhs = 0 then (if sa_negative rhs then False else sa_value rhs \<noteq> 0)
                else if sa_value rhs = 0 then False
                else if sa_offset lhs > sa_offset rhs then sa_negative lhs
                else if sa_offset lhs < sa_offset rhs then \<not> sa_negative lhs
                else if sa_value lhs > sa_value rhs then sa_negative lhs
                else if sa_value lhs < sa_value rhs then \<not> sa_negative lhs
                else False))"

definition st_neg :: "st_amount \<Rightarrow> st_amount" where
  "st_neg a = (if sa_value a = 0 then a
     else st_unchecked (sa_issue a) (sa_value a) (sa_offset a) (sa_native a) (\<not> sa_negative a))"

definition st_add :: "st_amount \<Rightarrow> st_amount \<Rightarrow> st_amount res" where
  "st_add v1 v2 =
     (if \<not> areComparable v1 v2 then Inl (Thrown ''add'')
      else if st_isZero v2 then Inr v1
      else if st_isZero v1 then st_make (sa_issue v1) (sa_value v2) (sa_offset v2) (sa_negative v2)
      else if sa_native v1 then
        rbind (getSNValue v1) (\<lambda>x. rbind (getSNValue v2) (\<lambda>y. Inr (st_native (x + y))))
      else let vv1 = (if sa_negative v1 then - sint (sa_value v1) else sint (sa_value v1));
               vv2 = (if sa_negative v2 then - sint (sa_value v2) else sint (sa_value v2));
               (w1, ov1) = alignTo (sa_offset v2) vv1 (sa_offset v1);
               (w2, ov2) = alignTo ov1 vv2 (sa_offset v2);
               fv = w1 + w2
           in if fv \<ge> - 10 \<and> fv \<le> 10 then st_zero (sa_issue v1)
              else if fv \<ge> 0 then st_make (sa_issue v1) (word_of_int fv) ov1 False
              else st_make (sa_issue v1) (word_of_int (- fv)) ov1 True)"

definition st_sub :: "st_amount \<Rightarrow> st_amount \<Rightarrow> st_amount res" where
  "st_sub v1 v2 = st_add v1 (st_neg v2)"

section \<open>Multiplication and division\<close>

definition muldiv :: "u64 \<Rightarrow> u64 \<Rightarrow> u64 \<Rightarrow> u64 res" where
  "muldiv multiplier multiplicand divisor =
     (let ret = unat multiplier * unat multiplicand div unat divisor
      in if divisor = 0 then Inl (Thrown ''division by zero'')
         else if ret > 2 ^ 64 - 1 then Inl (Thrown ''overflow'') else Inr (of_nat ret))"

definition muldiv_round :: "u64 \<Rightarrow> u64 \<Rightarrow> u64 \<Rightarrow> u64 \<Rightarrow> u64 res" where
  "muldiv_round multiplier multiplicand divisor rounding =
     (let ret = (unat multiplier * unat multiplicand + unat rounding) div unat divisor
      in if divisor = 0 then Inl (Thrown ''division by zero'')
         else if ret > 2 ^ 64 - 1 then Inl (Thrown ''overflow'') else Inr (of_nat ret))"

text \<open>
  The loop that gives a native mantissa sixteen digits; it would not end on zero, which
  its callers exclude.
\<close>

partial_function (option) bringIntoRange :: "u64 \<Rightarrow> int \<Rightarrow> (u64 \<times> int) option" where
  "bringIntoRange v off = (if v < cMinValue then bringIntoRange (v * 10) (off - 1) else Some (v, off))"

declare bringIntoRange.simps [code]

definition bringNative :: "st_amount \<Rightarrow> (u64 \<times> int) res" where
  "bringNative a =
     (if sa_native a then
        (case bringIntoRange (sa_value a) (sa_offset a) of None \<Rightarrow> Inl OutOfFuel | Some x \<Rightarrow> Inr x)
      else Inr (sa_value a, sa_offset a))"

definition st_divide :: "st_amount \<Rightarrow> st_amount \<Rightarrow> issue \<Rightarrow> st_amount res" where
  "st_divide num den iss =
     (if st_isZero den then Inl (Thrown ''division by zero'')
      else if st_isZero num then st_zero iss
      else rbind (bringNative num) (\<lambda>(numVal, numOffset).
           rbind (bringNative den) (\<lambda>(denVal, denOffset).
           rbind (muldiv numVal tenTo17 denVal) (\<lambda>q.
             st_make iss (q + 5) (numOffset - denOffset - 17) (sa_negative num \<noteq> sa_negative den)))))"

text \<open>The product of two native amounts, with its overflow tests.\<close>

definition mulNative :: "st_amount \<Rightarrow> st_amount \<Rightarrow> st_amount res" where
  "mulNative v1 v2 =
     rbind (getSNValue v1) (\<lambda>x. rbind (getSNValue v2) (\<lambda>y.
       let minV = word_of_int (if x < y then x else y) :: u64;
           maxV = word_of_int (if x < y then y else x) :: u64
       in if minV > 3000000000 then Inl (Thrown ''Native value overflow'')
          else if (drop_bit 32 maxV) * minV > 2095475792 then Inl (Thrown ''Native value overflow'')
          else Inr (st_unchecked cscIssue (minV * maxV) 0 True False)))"

definition st_multiply :: "st_amount \<Rightarrow> st_amount \<Rightarrow> issue \<Rightarrow> st_amount res" where
  "st_multiply v1 v2 iss =
     (if st_isZero v1 \<or> st_isZero v2 then st_zero iss
      else if sa_native v1 \<and> sa_native v2 \<and> isCSC (is_currency iss) then mulNative v1 v2
      else rbind (bringNative v1) (\<lambda>(value1, offset1).
           rbind (bringNative v2) (\<lambda>(value2, offset2).
           rbind (muldiv value1 value2 tenTo14) (\<lambda>q.
             st_make iss (q + 7) (offset1 + offset2 + 14) (sa_negative v1 \<noteq> sa_negative v2)))))"

function roundLoop :: "nat \<Rightarrow> u64 \<Rightarrow> int \<Rightarrow> nat \<times> u64 \<times> int" where
  "roundLoop loops v off = (if off < - 1 then roundLoop (Suc loops) (v div 10) (off + 1) else (loops, v, off))"
  by pat_completeness auto
termination by (relation "measure (\<lambda>(loops, v, off). nat (- off))") auto

function shrinkRound :: "u64 \<Rightarrow> int \<Rightarrow> u64 \<times> int" where
  "shrinkRound v off = (if v > 10 * cMaxValue then shrinkRound (v div 10) (off + 1) else (v, off))"
  by pat_completeness auto
termination
proof (relation "measure (\<lambda>(v, off). unat v)", simp)
  fix v :: u64 and off :: int assume "v > 10 * cMaxValue"
  then have "0 < unat v" by (simp add: word_less_nat_alt)
  then show "((v div 10, off + 1), v, off) \<in> measure (\<lambda>(v, off). unat v)"
    by (simp add: unat_div_distrib)
qed

declare roundLoop.simps [simp del] shrinkRound.simps [simp del]

definition canonicalizeRound :: "bool \<Rightarrow> u64 \<Rightarrow> int \<Rightarrow> u64 \<times> int" where
  "canonicalizeRound native v off =
     (if native then
        (if off < 0 then
           (case roundLoop 0 v off of
              (loops, v1, o1) \<Rightarrow> ((v1 + (if loops \<ge> 2 then 9 else 10)) div 10, o1 + 1))
         else (v, off))
      else if v > cMaxValue then (case shrinkRound v off of (v1, o1) \<Rightarrow> ((v1 + 9) div 10, o1 + 1))
      else (v, off))"

text \<open>
  The end of \<open>mulRound\<close> and \<open>divRound\<close>: \<open>so\<close> and \<open>so2\<close> are the two switchover
  flags of the calling thread.
\<close>

definition roundResult :: "bool \<Rightarrow> bool \<Rightarrow> issue \<Rightarrow> bool \<Rightarrow> bool \<Rightarrow> u64 \<Rightarrow> int \<Rightarrow> st_amount res" where
  "roundResult so so2 iss roundUp resultNegative amount off =
     (let (amount1, off1) = (if resultNegative \<noteq> roundUp
                             then canonicalizeRound (isCSC (is_currency iss)) amount off else (amount, off))
      in rbind (st_make iss amount1 off1 resultNegative) (\<lambda>result.
           if roundUp \<and> \<not> resultNegative \<and> st_isZero result \<and> so then
             (if isCSC (is_currency iss) \<and> so2 then st_make iss 1 0 resultNegative
              else st_make iss cMinValue cMinOffset resultNegative)
           else Inr result))"

definition mulRound :: "bool \<Rightarrow> bool \<Rightarrow> st_amount \<Rightarrow> st_amount \<Rightarrow> issue \<Rightarrow> bool \<Rightarrow> st_amount res" where
  "mulRound so so2 v1 v2 iss roundUp =
     (if st_isZero v1 \<or> st_isZero v2 then st_zero iss
      else if sa_native v1 \<and> sa_native v2 \<and> isCSC (is_currency iss) then mulNative v1 v2
      else rbind (bringNative v1) (\<lambda>(value1, offset1).
           rbind (bringNative v2) (\<lambda>(value2, offset2).
           let resultNegative = (sa_negative v1 \<noteq> sa_negative v2)
           in rbind (muldiv_round value1 value2 tenTo14 (if resultNegative \<noteq> roundUp then tenTo14m1 else 0))
                (\<lambda>amount. roundResult so so2 iss roundUp resultNegative amount (offset1 + offset2 + 14)))))"

definition divRound :: "bool \<Rightarrow> bool \<Rightarrow> st_amount \<Rightarrow> st_amount \<Rightarrow> issue \<Rightarrow> bool \<Rightarrow> st_amount res" where
  "divRound so so2 num den iss roundUp =
     (if st_isZero den then Inl (Thrown ''division by zero'')
      else if st_isZero num then st_zero iss
      else rbind (bringNative num) (\<lambda>(numVal, numOffset).
           rbind (bringNative den) (\<lambda>(denVal, denOffset).
           let resultNegative = (sa_negative num \<noteq> sa_negative den)
           in rbind (muldiv_round numVal tenTo17 denVal (if resultNegative \<noteq> roundUp then denVal - 1 else 0))
                (\<lambda>amount. roundResult so so2 iss roundUp resultNegative amount (numOffset - denOffset - 17)))))"

section \<open>Rates\<close>

text \<open>A rate is an amount packed into 64 bits: the exponent in the top byte, the mantissa below.\<close>

definition packRate :: "st_amount \<Rightarrow> u64" where
  "packRate r = push_bit 56 (word_of_int (sa_offset r + 100)) OR sa_value r"

definition getRate :: "st_amount \<Rightarrow> st_amount \<Rightarrow> u64 res" where
  "getRate offerOut offerIn =
     (if st_isZero offerOut then Inr 0
      else case st_divide offerIn offerOut noIssue of
             Inl (AssertFailed msg) \<Rightarrow> Inl (AssertFailed msg)
           | Inl OutOfFuel \<Rightarrow> Inl OutOfFuel
           | Inl (Thrown msg) \<Rightarrow> Inr 0
           | Inr r \<Rightarrow> if st_isZero r then Inr 0
               else rassert (sa_offset r \<ge> - 100 \<and> sa_offset r \<le> 155) ''getRate'' (Inr (packRate r)))"

definition amountFromQuality :: "u64 \<Rightarrow> st_amount res" where
  "amountFromQuality rate =
     (if rate = 0 then st_zero noIssue
      else st_make noIssue (rate AND NOT (push_bit 56 255)) (uint (drop_bit 56 rate) - 100) False)"

definition uRateOne :: "u64 res" where
  "uRateOne = getRate (st_drops 1 False) (st_drops 1 False)"

section \<open>Well-formed amounts\<close>

definition st_wf :: "st_amount \<Rightarrow> bool" where
  "st_wf a \<longleftrightarrow>
     sa_native a = isCSC (is_currency (sa_issue a)) \<and>
     (sa_value a = 0 \<longrightarrow> (if sa_native a then sa_offset a = 0 else sa_offset a = - 100 \<and> \<not> sa_negative a)) \<and>
     (sa_value a \<noteq> 0 \<longrightarrow>
        (if sa_native a then sa_offset a = 0 \<and> sa_value a \<le> cMaxNativeN
         else cMinValue \<le> sa_value a \<and> sa_value a \<le> cMaxValue \<and>
              cMinOffset \<le> sa_offset a \<and> sa_offset a \<le> cMaxOffset))"

lemma dropDigits_off: "snd (dropDigits v off) = max off 0"
  by (induction v off rule: dropDigits.induct) (subst dropDigits.simps, auto)

lemma addDigits_off: "snd (addDigits v off) = min off 0"
  by (induction v off rule: addDigits.induct) (subst addDigits.simps, auto)

lemma cMinValue_pos [simp]: "0 < cMinValue" "cMinValue \<noteq> 0"
  by (simp_all add: cMinValue_def)

lemma canonicalize_wf:
  assumes "canonicalize a = Inr b"
  shows "st_wf b \<and> sa_issue b = sa_issue a"
proof (cases "isCSC (is_currency (sa_issue a))")
  case True
  obtain v1 o1 where d: "dropDigits (sa_value a) (sa_offset a) = (v1, o1)" by (rule prod.exhaust)
  obtain v2 o2 where u: "addDigits v1 o1 = (v2, o2)" by (rule prod.exhaust)
  have "o2 = 0" using dropDigits_off [of "sa_value a" "sa_offset a"] addDigits_off [of v1 o1] d u by simp
  with True d u assms show ?thesis
    by (auto simp: canonicalize_def st_wf_def split: if_splits)
next
  case False
  obtain v1 o1 where g: "growMantissa (sa_value a) (sa_offset a) = (v1, o1)" by (rule prod.exhaust)
  show ?thesis
  proof (cases "shrinkMantissa v1 o1")
    case (Inl e)
    with False g assms show ?thesis by (auto simp: canonicalize_def st_wf_def split: if_splits)
  next
    case (Inr x)
    obtain v2 o2 where x: "x = (v2, o2)" by (rule prod.exhaust)
    with False g Inr assms show ?thesis
      by (auto simp: canonicalize_def st_wf_def rassert_def split: if_splits)
  qed
qed

lemma canonicalize_id:
  assumes "st_wf a" "sa_value a \<noteq> 0"
  shows "canonicalize a = Inr a"
proof (cases "sa_native a")
  case True
  with assms show ?thesis
    by (cases a) (auto simp: st_wf_def canonicalize_def dropDigits.simps [of _ 0] addDigits.simps [of _ 0]
        linorder_not_less [symmetric])
next
  case False
  with assms have w: "\<not> sa_value a < cMinValue" "\<not> cMaxValue < sa_value a" "\<not> sa_offset a < cMinOffset"
    "\<not> cMaxOffset < sa_offset a" "\<not> isCSC (is_currency (sa_issue a))" by (auto simp: st_wf_def)
  then have "growMantissa (sa_value a) (sa_offset a) = (sa_value a, sa_offset a)"
    "shrinkMantissa (sa_value a) (sa_offset a) = Inr (sa_value a, sa_offset a)"
    by (simp_all add: growMantissa.simps [of "sa_value a"] shrinkMantissa.simps [of "sa_value a"])
  with w assms(2) False show ?thesis by (simp add: canonicalize_def rassert_def linorder_not_less)
qed

section \<open>The rate of one to one\<close>

lemma bring_one: "bringIntoRange 1 0 = Some (1000000000000000, - 15)"
  by (simp add: bringIntoRange.simps cMinValue_def)

lemma muldiv_one: "muldiv 1000000000000000 tenTo17 1000000000000000 = Inr 100000000000000000"
  by (simp add: muldiv_def tenTo17_def tenTo14_def)

lemma make_one: "st_make noIssue 100000000000000005 (- 17) False = Inr (st_unchecked noIssue 100000000000000005 (- 17) False False)"
  by (simp add: st_make_def canonicalize_def noIssue_def isCSC_def st_unchecked_def growMantissa.simps shrinkMantissa.simps st_params rassert_def)

lemma uRateOne_eq: "uRateOne = Inr 0x536345785D8A0005"
  by (simp add: uRateOne_def getRate_def st_drops_def st_unchecked_def st_isZero_def st_signum_def st_divide_def
   bringNative_def bring_one muldiv_one make_one packRate_def rassert_def)

end
