(* ===== verification/Serializer.thy ===== *)
theory Serializer
  imports Prelude
begin

text \<open>
  The wire format of ledger objects (\<open>protocol/impl/Serializer.cpp\<close>): integers and hashes
  as big-endian bytes, field identifiers, lengths, and the iterator that reads them back.
  A serializer is the bytes written so far; a read that runs past the end throws.
\<close>

unbundle bit_operations_syntax

section \<open>Words as bytes\<close>

text \<open>The bytes of a word, most significant first, and the word of a string of bytes.\<close>

primrec word_bytes :: "nat \<Rightarrow> 'a::len word \<Rightarrow> u8 list" where
  "word_bytes 0 w = []"
| "word_bytes (Suc n) w = ucast (drop_bit (8 * n) w) # word_bytes n w"

primrec bytes_word :: "u8 list \<Rightarrow> 'a::len word" where
  "bytes_word [] = 0"
| "bytes_word (b # bs) = push_bit (8 * length bs) (ucast b) + bytes_word bs"

lemma length_word_bytes [simp]: "length (word_bytes n w) = n"
  by (induction n) simp_all

lemma bytes_word_bytes: "bytes_word (word_bytes n (w :: 'a::len word)) = take_bit (8 * n) w"
proof (induction n)
  case (Suc n)
  let ?a = "push_bit (8 * n) (ucast (ucast (drop_bit (8 * n) w) :: u8)) :: 'a word"
  have "?a + take_bit (8 * n) w = ?a OR take_bit (8 * n) w"
    by (rule disjunctive_add_eq_or) (auto simp: bit_eq_iff bit_simps)
  also have "\<dots> = take_bit (8 * Suc n) w"
    by (rule bit_eqI) (auto simp: bit_simps)
  finally show ?case using Suc by simp
qed simp

lemma bytes_word_bytes_full: "LENGTH('a::len) \<le> 8 * n \<Longrightarrow> bytes_word (word_bytes n (w :: 'a word)) = w"
  by (simp add: bytes_word_bytes take_bit_word_eq_self)

section \<open>Writing\<close>

type_synonym blob = "u8 list"

definition addZeros :: "nat \<Rightarrow> blob \<Rightarrow> blob" where
  "addZeros n s = s @ replicate n 0"

definition add8 :: "u8 \<Rightarrow> blob \<Rightarrow> blob" where
  "add8 b s = s @ [b]"

definition add16 :: "16 word \<Rightarrow> blob \<Rightarrow> blob" where
  "add16 i s = s @ word_bytes 2 i"

definition add32 :: "u32 \<Rightarrow> blob \<Rightarrow> blob" where
  "add32 i s = s @ word_bytes 4 i"

definition add64 :: "u64 \<Rightarrow> blob \<Rightarrow> blob" where
  "add64 i s = s @ word_bytes 8 i"

definition add128 :: "128 word \<Rightarrow> blob \<Rightarrow> blob" where
  "add128 i s = s @ word_bytes 16 i"

definition add160 :: "uint160 \<Rightarrow> blob \<Rightarrow> blob" where
  "add160 i s = s @ word_bytes 20 i"

definition add256 :: "uint256 \<Rightarrow> blob \<Rightarrow> blob" where
  "add256 i s = s @ word_bytes 32 i"

definition addRaw :: "blob \<Rightarrow> blob \<Rightarrow> blob" where
  "addRaw v s = s @ v"

definition addFieldID :: "int \<Rightarrow> int \<Rightarrow> blob \<Rightarrow> blob res" where
  "addFieldID type name s =
     rassert (type > 0 \<and> type < 256 \<and> name > 0 \<and> name < 256) ''addFieldID''
       (if type < 16 then
          (if name < 16 then Inr (s @ [word_of_int (push_bit 4 type OR name)])
           else Inr (s @ [word_of_int (push_bit 4 type), word_of_int name]))
        else if name < 16 then Inr (s @ [word_of_int name, word_of_int type])
        else Inr (s @ [0, word_of_int type, word_of_int name]))"

definition addEncoded :: "int \<Rightarrow> blob \<Rightarrow> blob res" where
  "addEncoded len s =
     (if len \<le> 192 then Inr (addRaw [word_of_int len] s)
      else if len \<le> 12480 then
        (let l = len - 193
         in Inr (addRaw [193 + word_of_int (drop_bit 8 l), word_of_int (l AND 0xff)] s))
      else if len \<le> 918744 then
        (let l = len - 12481
         in Inr (addRaw [241 + word_of_int (drop_bit 16 l), word_of_int (drop_bit 8 l AND 0xff),
                         word_of_int (l AND 0xff)] s))
      else Inl (Thrown ''lenlen''))"

definition encodeLengthLength :: "int \<Rightarrow> int res" where
  "encodeLengthLength len =
     (if len < 0 then Inl (Thrown ''len<0'')
      else if len \<le> 192 then Inr 1
      else if len \<le> 12480 then Inr 2
      else if len \<le> 918744 then Inr 3
      else Inl (Thrown ''len>918744''))"

definition addVL :: "blob \<Rightarrow> blob \<Rightarrow> blob res" where
  "addVL v s =
     rbind (addEncoded (int (length v)) s) (\<lambda>s1.
       let s2 = addRaw v s1
       in rbind (encodeLengthLength (int (length v))) (\<lambda>n.
            rassert (int (length s2) = int (length s) + int (length v) + n) ''addVL'' (Inr s2)))"

definition chop :: "nat \<Rightarrow> blob \<Rightarrow> blob \<times> bool" where
  "chop n s = (if n > length s then (s, False) else (take (length s - n) s, True))"

section \<open>Lengths\<close>

definition decodeLengthLength :: "int \<Rightarrow> int res" where
  "decodeLengthLength b1 =
     (if b1 < 0 then Inl (Thrown ''b1<0'')
      else if b1 \<le> 192 then Inr 1
      else if b1 \<le> 240 then Inr 2
      else if b1 \<le> 254 then Inr 3
      else Inl (Thrown ''b1>254''))"

definition decodeVLLength1 :: "int \<Rightarrow> int res" where
  "decodeVLLength1 b1 =
     (if b1 < 0 then Inl (Thrown ''b1<0'') else if b1 > 254 then Inl (Thrown ''b1>254'') else Inr b1)"

definition decodeVLLength2 :: "int \<Rightarrow> int \<Rightarrow> int res" where
  "decodeVLLength2 b1 b2 =
     (if b1 < 193 then Inl (Thrown ''b1<193'')
      else if b1 > 240 then Inl (Thrown ''b1>240'')
      else Inr (193 + (b1 - 193) * 256 + b2))"

definition decodeVLLength3 :: "int \<Rightarrow> int \<Rightarrow> int \<Rightarrow> int res" where
  "decodeVLLength3 b1 b2 b3 =
     (if b1 < 241 then Inl (Thrown ''b1<241'')
      else if b1 > 254 then Inl (Thrown ''b1>254'')
      else Inr (12481 + (b1 - 241) * 65536 + b2 * 256 + b3))"

section \<open>Reading\<close>

text \<open>
  \<open>SerialIter\<close>: the bytes, and how many of them were read (\<open>used_\<close>); \<open>p_\<close> and
  \<open>remain_\<close> are the rest of the bytes.
\<close>

record serial_iter =
  si_data :: blob
  si_used :: nat

definition si_rest :: "serial_iter \<Rightarrow> blob" where
  "si_rest it = drop (si_used it) (si_data it)"

definition si_remain :: "serial_iter \<Rightarrow> nat" where
  "si_remain it = length (si_rest it)"

definition si_make :: "blob \<Rightarrow> serial_iter" where
  "si_make d = \<lparr>si_data = d, si_used = 0\<rparr>"

definition si_reset :: "serial_iter \<Rightarrow> serial_iter" where
  "si_reset it = it\<lparr>si_used := 0\<rparr>"

text \<open>Take the next bytes, or throw; every reader below does this.\<close>

definition si_take :: "string \<Rightarrow> nat \<Rightarrow> serial_iter \<Rightarrow> (blob \<times> serial_iter) res" where
  "si_take msg n it =
     (if si_remain it < n then Inl (Thrown msg)
      else Inr (take n (si_rest it), it\<lparr>si_used := si_used it + n\<rparr>))"

definition si_skip :: "nat \<Rightarrow> serial_iter \<Rightarrow> serial_iter res" where
  "si_skip n it = rbind (si_take ''invalid SerialIter skip'' n it) (\<lambda>(_, it'). Inr it')"

definition get8 :: "serial_iter \<Rightarrow> (u8 \<times> serial_iter) res" where
  "get8 it = rbind (si_take ''invalid SerialIter get8'' 1 it) (\<lambda>(t, it'). Inr (hd t, it'))"

definition get16 :: "serial_iter \<Rightarrow> (16 word \<times> serial_iter) res" where
  "get16 it = rbind (si_take ''invalid SerialIter get16'' 2 it) (\<lambda>(t, it'). Inr (bytes_word t, it'))"

definition get32 :: "serial_iter \<Rightarrow> (u32 \<times> serial_iter) res" where
  "get32 it = rbind (si_take ''invalid SerialIter get32'' 4 it) (\<lambda>(t, it'). Inr (bytes_word t, it'))"

definition get64 :: "serial_iter \<Rightarrow> (u64 \<times> serial_iter) res" where
  "get64 it = rbind (si_take ''invalid SerialIter get64'' 8 it) (\<lambda>(t, it'). Inr (bytes_word t, it'))"

definition get160 :: "serial_iter \<Rightarrow> (uint160 \<times> serial_iter) res" where
  "get160 it = rbind (si_take ''invalid SerialIter getBitString'' 20 it) (\<lambda>(t, it'). Inr (bytes_word t, it'))"

definition get256 :: "serial_iter \<Rightarrow> (uint256 \<times> serial_iter) res" where
  "get256 it = rbind (si_take ''invalid SerialIter getBitString'' 32 it) (\<lambda>(t, it'). Inr (bytes_word t, it'))"

text \<open>An uncommon type or name of a field is in a byte of its own.\<close>

definition getUncommon :: "string \<Rightarrow> int \<Rightarrow> serial_iter \<Rightarrow> (int \<times> serial_iter) res" where
  "getUncommon msg x it =
     (if x = 0 then
        rbind (get8 it) (\<lambda>(b, it').
          if uint b = 0 \<or> uint b < 16 then Inl (Thrown msg) else Inr (uint b, it'))
      else Inr (x, it))"

definition getFieldID :: "serial_iter \<Rightarrow> ((int \<times> int) \<times> serial_iter) res" where
  "getFieldID it =
     rbind (get8 it) (\<lambda>(b, it1).
     rbind (getUncommon ''gFID: uncommon type out of range'' (drop_bit 4 (uint b)) it1) (\<lambda>(type, it2).
     rbind (getUncommon ''gFID: uncommon name out of range'' (uint b AND 15) it2) (\<lambda>(name, it3).
       Inr ((type, name), it3))))"

definition getRaw :: "nat \<Rightarrow> serial_iter \<Rightarrow> (blob \<times> serial_iter) res" where
  "getRaw n it = si_take ''invalid SerialIter getRaw'' n it"

definition getSlice :: "nat \<Rightarrow> serial_iter \<Rightarrow> (blob \<times> serial_iter) res" where
  "getSlice n it = si_take ''invalid SerialIter getSlice'' n it"

definition getVLDataLength :: "serial_iter \<Rightarrow> (int \<times> serial_iter) res" where
  "getVLDataLength it =
     rbind (get8 it) (\<lambda>(c1, it1).
       let b1 = uint c1
       in rbind (decodeLengthLength b1) (\<lambda>lenLen.
            if lenLen = 1 then rbind (decodeVLLength1 b1) (\<lambda>n. Inr (n, it1))
            else if lenLen = 2 then
              rbind (get8 it1) (\<lambda>(c2, it2). rbind (decodeVLLength2 b1 (uint c2)) (\<lambda>n. Inr (n, it2)))
            else rassert (lenLen = 3) ''getVLDataLength''
              (rbind (get8 it1) (\<lambda>(c2, it2). rbind (get8 it2) (\<lambda>(c3, it3).
                 rbind (decodeVLLength3 b1 (uint c2) (uint c3)) (\<lambda>n. Inr (n, it3)))))))"

definition getVL :: "serial_iter \<Rightarrow> (blob \<times> serial_iter) res" where
  "getVL it = rbind (getVLDataLength it) (\<lambda>(n, it1). getRaw (nat n) it1)"

section \<open>Round trips\<close>

text \<open>\<open>reads P r bs x\<close>: the reader \<open>r\<close> takes exactly the bytes \<open>bs\<close> and gives \<open>x\<close>.\<close>

definition reads :: "(serial_iter \<Rightarrow> ('a \<times> serial_iter) res) \<Rightarrow> blob \<Rightarrow> 'a \<Rightarrow> bool" where
  "reads r bs x \<longleftrightarrow>
     (\<forall>it rest. si_rest it = bs @ rest \<longrightarrow>
        (\<exists>it'. r it = Inr (x, it') \<and> si_rest it' = rest \<and> si_data it' = si_data it))"

lemma readsE:
  assumes "reads r bs x" "si_rest it = bs @ rest"
  obtains it' where "r it = Inr (x, it')" "si_rest it' = rest" "si_data it' = si_data it"
  using assms by (auto simp: reads_def)

lemma reads_take: "length bs = n \<Longrightarrow> reads (si_take msg n) bs bs"
  by (auto simp: reads_def si_take_def si_remain_def si_rest_def add.commute simp flip: drop_drop)

lemma reads_bind:
  assumes "reads r bs x" "reads (k x) cs y"
  shows "reads (\<lambda>it. rbind (r it) (\<lambda>(x, it'). k x it')) (bs @ cs) y"
  unfolding reads_def
proof (intro allI impI)
  fix it rest assume "si_rest it = (bs @ cs) @ rest"
  then have "si_rest it = bs @ cs @ rest" by simp
  from readsE [OF assms(1) this] obtain it1 where 1: "r it = Inr (x, it1)" "si_rest it1 = cs @ rest" "si_data it1 = si_data it" .
  from readsE [OF assms(2) 1(2)] obtain it2 where 2: "k x it1 = Inr (y, it2)" "si_rest it2 = rest" "si_data it2 = si_data it1" .
  show "\<exists>it'. rbind (r it) (\<lambda>(x, it'). k x it') = Inr (y, it') \<and> si_rest it' = rest \<and> si_data it' = si_data it"
    using 1 2 by simp
qed

lemma reads_return: "reads (\<lambda>it. Inr (x, it)) [] x"
  by (simp add: reads_def)

lemma reads_map:
  assumes "reads r bs x"
  shows "reads (\<lambda>it. rbind (r it) (\<lambda>(x, it'). Inr (f x, it'))) bs (f x)"
  using reads_bind [OF assms, of "\<lambda>x it. Inr (f x, it)" "[]" "f x"] reads_return [of "f x"] by simp

lemma reads_get8: "reads get8 [b] b"
proof -
  have "reads (si_take ''invalid SerialIter get8'' 1) [b] [b]" by (rule reads_take) simp
  from reads_map [OF this, of hd] show ?thesis unfolding get8_def by simp
qed

lemma reads_word:
  assumes "LENGTH('a::len) \<le> 8 * n"
  shows "reads (\<lambda>it. rbind (si_take msg n it) (\<lambda>(t, it'). Inr (bytes_word t, it'))) (word_bytes n i) (i :: 'a word)"
  using reads_map [OF reads_take [of "word_bytes n i" n msg], where f = "bytes_word :: blob \<Rightarrow> 'a word"] assms by (simp add: bytes_word_bytes_full)

lemma reads_get16: "reads get16 (word_bytes 2 i) i"
  unfolding get16_def by (rule reads_word) simp

lemma reads_get32: "reads get32 (word_bytes 4 i) i"
  unfolding get32_def by (rule reads_word) simp

lemma reads_get64: "reads get64 (word_bytes 8 i) i"
  unfolding get64_def by (rule reads_word) simp

lemma reads_get160: "reads get160 (word_bytes 20 i) i"
  unfolding get160_def by (rule reads_word) simp

lemma reads_get256: "reads get256 (word_bytes 32 i) i"
  unfolding get256_def by (rule reads_word) simp

lemma reads_getRaw: "reads (getRaw (length v)) v v"
  unfolding getRaw_def by (rule reads_take) simp

lemma uint_byte: "0 \<le> x \<Longrightarrow> x < 256 \<Longrightarrow> uint (word_of_int x :: u8) = x"
  by (simp add: uint_word_of_int_eq take_bit_int_eq_self)

lemma nibbles:
  fixes type name :: int
  assumes "0 \<le> name" "name < 16" "0 \<le> type" "type < 16"
  shows "(push_bit 4 type OR name) AND 15 = name" "drop_bit 4 (push_bit 4 type OR name) = type"
    "0 \<le> (push_bit 4 type OR name)" "(push_bit 4 type OR name) < 256"
proof -
  have n: "name = take_bit 4 name" using assms by (simp add: take_bit_int_eq_self)
  have m: "(15::int) = mask 4" by (simp add: mask_eq_exp_minus_1)
  have "take_bit 4 (push_bit 4 type OR take_bit 4 name) = take_bit 4 name"
    by (rule bit_eqI) (auto simp: bit_simps)
  then show "(push_bit 4 type OR name) AND 15 = name" using n unfolding m by (simp flip: take_bit_eq_mask)
  have "drop_bit 4 (push_bit 4 type OR take_bit 4 name) = type"
    by (rule bit_eqI) (auto simp: bit_simps)
  then show "drop_bit 4 (push_bit 4 type OR name) = type" using n by simp
  show "0 \<le> (push_bit 4 type OR name)" using assms by simp
  have "push_bit 4 type OR name = push_bit 4 type + name"
  proof (rule disjunctive_add_eq_or [symmetric])
    have "push_bit 4 type AND take_bit 4 name = 0" by (auto simp: bit_eq_iff bit_simps)
    then show "push_bit 4 type AND name = 0" using n by simp
  qed
  then show "(push_bit 4 type OR name) < 256" using assms by (simp add: push_bit_eq_mult)
qed

lemma nibbles_byte:
  fixes type name :: int
  assumes "0 \<le> name" "name < 16" "0 \<le> type" "type < 16"
  shows "uint (word_of_int (push_bit 4 type OR name) :: u8) AND 15 = name"
    "drop_bit 4 (uint (word_of_int (push_bit 4 type OR name) :: u8)) = type"
  using nibbles [OF assms] by (simp_all add: uint_byte)

lemma reads_getUncommon:
  "x \<noteq> 0 \<Longrightarrow> reads (getUncommon msg x) [] x"
  "16 \<le> y \<Longrightarrow> y < 256 \<Longrightarrow> reads (getUncommon msg 0) [word_of_int y] y"
proof -
  show "x \<noteq> 0 \<Longrightarrow> reads (getUncommon msg x) [] x" by (simp add: reads_def getUncommon_def)
  assume y: "16 \<le> y" "y < 256"
  then have "uint (word_of_int y :: u8) = y" by (intro uint_byte) simp_all
  then show "reads (getUncommon msg 0) [word_of_int y] y"
    using reads_get8 [of "word_of_int y"] y by (force simp: reads_def getUncommon_def)
qed

lemma reads_getFieldID_bytes:
  assumes "reads (getUncommon ''gFID: uncommon type out of range'' (drop_bit 4 (uint b))) cs type"
    and "reads (getUncommon ''gFID: uncommon name out of range'' (uint b AND 15)) ds name"
  shows "reads getFieldID ([b] @ cs @ ds) (type, name)"
proof -
  have "reads (\<lambda>it. rbind (getUncommon ''gFID: uncommon type out of range'' (drop_bit 4 (uint b)) it) (\<lambda>(type, it2).
     rbind (getUncommon ''gFID: uncommon name out of range'' (uint b AND 15) it2) (\<lambda>(name, it3).
       Inr ((type, name), it3)))) (cs @ ds) (type, name)"
    by (rule reads_bind [OF assms(1)]) (rule reads_map [OF assms(2)])
  then show ?thesis unfolding getFieldID_def by (rule reads_bind [OF reads_get8])
qed

lemma reads_getFieldID:
  assumes "0 < type" "type < 256" "0 < name" "name < 256"
  shows "\<exists>bs. addFieldID type name s = Inr (s @ bs) \<and> reads getFieldID bs (type, name)"
proof -
  consider "type < 16" "name < 16" | "type < 16" "\<not> name < 16" | "\<not> type < 16" "name < 16" | "\<not> type < 16" "\<not> name < 16"
    by blast
  then show ?thesis
  proof cases
    case 1
    let ?b = "word_of_int (push_bit 4 type OR name) :: u8"
    have "reads getFieldID ([?b] @ [] @ []) (type, name)"
      by (rule reads_getFieldID_bytes) (use nibbles_byte [of name type] 1 assms in \<open>simp_all add: reads_getUncommon\<close>)
    then show ?thesis using 1 assms by (simp add: addFieldID_def rassert_def)
  next
    case 2
    let ?b = "word_of_int (push_bit 4 type) :: u8"
    have "reads getFieldID ([?b] @ [] @ [word_of_int name]) (type, name)"
      by (rule reads_getFieldID_bytes) (use nibbles_byte [of 0 type] 2 assms in \<open>simp_all add: reads_getUncommon\<close>)
    then show ?thesis using 2 assms by (simp add: addFieldID_def rassert_def)
  next
    case 3
    let ?b = "word_of_int name :: u8"
    have "reads getFieldID ([?b] @ [word_of_int type] @ []) (type, name)"
      by (rule reads_getFieldID_bytes) (use nibbles_byte [of name 0] 3 assms in \<open>simp_all add: reads_getUncommon\<close>)
    then show ?thesis using 3 assms by (simp add: addFieldID_def rassert_def)
  next
    case 4
    have "reads getFieldID ([0] @ [word_of_int type] @ [word_of_int name]) (type, name)"
      by (rule reads_getFieldID_bytes) (use 4 assms in \<open>simp_all add: reads_getUncommon\<close>)
    then show ?thesis using 4 assms by (simp add: addFieldID_def rassert_def)
  qed
qed

lemma reads_length:
  assumes "0 \<le> n" "n \<le> 918744"
  shows "\<exists>bs. addEncoded n s = Inr (s @ bs) \<and> reads getVLDataLength bs n \<and> encodeLengthLength n = Inr (int (length bs))"
proof -
  note d = addEncoded_def addRaw_def encodeLengthLength_def
  have b1: "reads getVLDataLength [b] n" if "uint b = n" "n \<le> 192" for b
    using reads_get8 [of b] that
    by (force simp: reads_def getVLDataLength_def decodeLengthLength_def decodeVLLength1_def assms(1))
  have b2: "reads getVLDataLength ([c1] @ [c2]) (193 + (uint c1 - 193) * 256 + uint c2)"
    if "193 \<le> uint c1" "uint c1 \<le> 240" for c1 c2
  proof -
    have "reads (\<lambda>it1. rbind (get8 it1) (\<lambda>(c2, it2). rbind (decodeVLLength2 (uint c1) (uint c2)) (\<lambda>n. Inr (n, it2))))
      [c2] (193 + (uint c1 - 193) * 256 + uint c2)"
      using reads_get8 [of c2] that by (force simp: reads_def decodeVLLength2_def)
    with that show ?thesis unfolding getVLDataLength_def
      by (intro reads_bind [OF reads_get8]) (simp add: decodeLengthLength_def)
  qed
  have b3: "reads getVLDataLength ([c1] @ [c2] @ [c3]) (12481 + (uint c1 - 241) * 65536 + uint c2 * 256 + uint c3)"
    if "241 \<le> uint c1" "uint c1 \<le> 254" for c1 c2 c3
  proof -
    have "reads (\<lambda>it2. rbind (get8 it2) (\<lambda>(c3, it3). rbind (decodeVLLength3 (uint c1) (uint c2) (uint c3)) (\<lambda>n. Inr (n, it3))))
      [c3] (12481 + (uint c1 - 241) * 65536 + uint c2 * 256 + uint c3)"
      using reads_get8 [of c3] that by (force simp: reads_def decodeVLLength3_def)
    then have "reads (\<lambda>it1. rbind (get8 it1) (\<lambda>(c2, it2). rbind (get8 it2) (\<lambda>(c3, it3).
         rbind (decodeVLLength3 (uint c1) (uint c2) (uint c3)) (\<lambda>n. Inr (n, it3)))))
      ([c2] @ [c3]) (12481 + (uint c1 - 241) * 65536 + uint c2 * 256 + uint c3)"
      by (rule reads_bind [OF reads_get8])
    with that show ?thesis unfolding getVLDataLength_def
      by (intro reads_bind [OF reads_get8]) (simp add: decodeLengthLength_def rassert_def)
  qed
  have low: "l AND 0xff = l mod 256" for l :: int
    using take_bit_eq_mask [of 8 l] by (simp add: take_bit_eq_mod mask_eq_exp_minus_1)
  consider "n \<le> 192" | "193 \<le> n" "n \<le> 12480" | "12481 \<le> n" by linarith
  then show ?thesis
  proof cases
    case 1
    then show ?thesis using b1 [of "word_of_int n"] assms uint_byte [of n] by (simp add: d)
  next
    case 2
    define l where "l = n - 193"
    let ?c1 = "193 + word_of_int (drop_bit 8 l) :: u8" let ?c2 = "word_of_int (l AND 0xff) :: u8"
    have l: "0 \<le> l div 256" "l div 256 \<le> 47" using 2 by (simp_all add: l_def)
    have "?c1 = word_of_int (193 + l div 256)" by (simp add: drop_bit_eq_div)
    then have c: "uint ?c1 = 193 + l div 256" "uint ?c2 = l mod 256"
      using l uint_byte [of "193 + l div 256"] uint_byte [of "l mod 256"] by (simp_all add: low)
    have "n = l + 193" by (simp add: l_def)
    then have "193 + (uint ?c1 - 193) * 256 + uint ?c2 = n" unfolding c by simp
    then show ?thesis using b2 [of ?c1 ?c2] l c 2 by (simp add: d l_def [symmetric])
  next
    case 3
    define l where "l = n - 12481"
    let ?c1 = "241 + word_of_int (drop_bit 16 l) :: u8"
    let ?c2 = "word_of_int (drop_bit 8 l AND 0xff) :: u8" let ?c3 = "word_of_int (l AND 0xff) :: u8"
    have l: "0 \<le> l div 65536" "l div 65536 \<le> 13" using 3 assms by (simp_all add: l_def)
    have "?c1 = word_of_int (241 + l div 65536)" by (simp add: drop_bit_eq_div)
    then have c: "uint ?c1 = 241 + l div 65536" "uint ?c2 = l div 256 mod 256" "uint ?c3 = l mod 256"
      using l uint_byte [of "241 + l div 65536"] uint_byte [of "l div 256 mod 256"] uint_byte [of "l mod 256"]
      by (simp_all add: low drop_bit_eq_div)
    have "l div 65536 = l div 256 div 256" by (simp add: zdiv_zmult2_eq [symmetric])
    then have "l div 65536 * 65536 + l div 256 mod 256 * 256 + l mod 256 = l"
      by (simp add: mod_div_mult_eq algebra_simps) presburger
    then have "12481 + (uint ?c1 - 241) * 65536 + uint ?c2 * 256 + uint ?c3 = n" unfolding c by (simp add: l_def) 
    then show ?thesis using b3 [of ?c1 ?c2 ?c3] l c 3 assms by (simp add: d l_def [symmetric])
  qed
qed

lemma reads_getVL:
  assumes "length v \<le> 918744"
  shows "\<exists>bs. addVL v s = Inr (s @ bs) \<and> reads getVL bs v"
proof -
  obtain bs where bs: "addEncoded (int (length v)) s = Inr (s @ bs)" "reads getVLDataLength bs (int (length v))"
    "encodeLengthLength (int (length v)) = Inr (int (length bs))" using reads_length [of "int (length v)" s] assms by auto
  have "reads getVL (bs @ v) v"
    unfolding getVL_def by (rule reads_bind [OF bs(2)]) (simp add: reads_getRaw)
  moreover have "addVL v s = Inr (s @ bs @ v)" using bs by (simp add: addVL_def addRaw_def rassert_def)
  ultimately show ?thesis by blast
qed

section \<open>Properties\<close>

text \<open>
  C26: field identifiers round trip. Every type and name from 1 to 255 is written in one to
  three bytes, and reading takes exactly those bytes and gives the type and name back.
\<close>

theorem field_id_roundtrip:
  assumes "0 < type" "type < 256" "0 < name" "name < 256"
  shows "\<exists>bs. addFieldID type name s = Inr (s @ bs) \<and>
    (\<forall>it rest. si_rest it = bs @ rest \<longrightarrow> (\<exists>it'. getFieldID it = Inr ((type, name), it') \<and> si_rest it' = rest))"
  using reads_getFieldID [OF assms, of s] unfolding reads_def by blast

theorem field_id_roundtrip_witness:
  "\<exists>bs. addFieldID 16 2 [] = Inr bs \<and>
    (\<forall>it rest. si_rest it = bs @ rest \<longrightarrow> (\<exists>it'. getFieldID it = Inr ((16, 2), it') \<and> si_rest it' = rest))"
  using field_id_roundtrip [of 16 2 "[]"] by simp



end
