(* ===== verification/AmountWire.thy ===== *)
theory AmountWire
  imports STAmount Serializer
begin

text \<open>
  The wire form of amounts (\<open>STAmount::add\<close> and the constructor from a
  \<open>SerialIter\<close> in \<open>protocol/impl/STAmount.cpp\<close>).
\<close>

section \<open>Wire form\<close>

definition st_serialize :: "st_amount \<Rightarrow> blob \<Rightarrow> blob res" where
  "st_serialize a s =
     (if sa_native a then
        rassert (sa_offset a = 0) ''STAmount::add''
          (Inr (if \<not> sa_negative a then add64 (sa_value a OR cPosNative) s else add64 (sa_value a) s))
      else
        (let s1 = (if st_isZero a then add64 cNotNative s
                   else if sa_negative a
                   then add64 (sa_value a OR push_bit 54 (word_of_int (sa_offset a + 512 + 97))) s
                   else add64 (sa_value a OR push_bit 54 (word_of_int (sa_offset a + 512 + 256 + 97))) s)
         in Inr (add160 (is_account (sa_issue a)) (add160 (is_currency (sa_issue a)) s1))))"

text \<open>What the constructor does with the 64-bit value of a native amount.\<close>

definition st_native_from_wire :: "u64 \<Rightarrow> st_amount res" where
  "st_native_from_wire v =
     (if v AND cPosNative \<noteq> 0 then Inr (st_unchecked cscIssue (v AND NOT cPosNative) 0 True False)
      else if v = 0 then Inl (Thrown ''negative zero is not canonical'')
      else Inr (st_unchecked cscIssue v 0 True True))"

definition st_issued_from_wire :: "u64 \<Rightarrow> issue \<Rightarrow> st_amount res" where
  "st_issued_from_wire v iss =
     (let off = uint (drop_bit 54 v); m = v AND NOT (push_bit 54 1023)
      in if m \<noteq> 0 then
           (let isNegative = (off AND 256 = 0); off' = (off AND 255) - 97
            in if m < cMinValue \<or> m > cMaxValue \<or> off' < cMinOffset \<or> off' > cMaxOffset
               then Inl (Thrown ''invalid currency value'')
               else canonicalize (st_unchecked iss m off' False isNegative))
         else if off \<noteq> 512 then Inl (Thrown ''invalid currency value'')
         else canonicalize (st_unchecked iss 0 0 False False))"

definition st_deserialize :: "serial_iter \<Rightarrow> (st_amount \<times> serial_iter) res" where
  "st_deserialize it =
     rbind (get64 it) (\<lambda>(v, it1).
       if v AND cNotNative = 0 then rbind (st_native_from_wire v) (\<lambda>a. Inr (a, it1))
       else rbind (get160 it1) (\<lambda>(cur, it2).
         if isCSC cur then Inl (Thrown ''invalid native currency'')
         else rbind (get160 it2) (\<lambda>(acct, it3).
           if isCSC acct then Inl (Thrown ''invalid native account'')
           else rbind (st_issued_from_wire v \<lparr>is_currency = cur, is_account = acct\<rparr>) (\<lambda>a. Inr (a, it3)))))"

section \<open>Bits of the wire form\<close>

lemma low_mask: "v AND NOT (push_bit 54 1023) = take_bit 54 (v :: u64)"
proof -
  have "v AND NOT (push_bit 54 (mask 10)) = take_bit 54 v" by (rule bit_eqI) (auto simp: bit_simps)
  then show ?thesis by (simp add: mask_eq_exp_minus_1)
qed

lemma take_bit_less:
  "(w :: u64) < 2 ^ 54 \<Longrightarrow> take_bit 54 w = w" "(w :: u64) < 2 ^ 10 \<Longrightarrow> take_bit 10 w = w"
  "(w :: u64) < 2 ^ 56 \<Longrightarrow> take_bit 56 w = w"
  by (rule word_uint_eqI, simp add: word_less_def unsigned_take_bit_eq take_bit_int_eq_self)+

lemma pack_bits:
  fixes m w :: u64
  assumes "m < 2 ^ 54" "w < 2 ^ 10"
  shows "drop_bit 54 (m OR push_bit 54 w) = w" "take_bit 54 (m OR push_bit 54 w) = m"
    "bit (m OR push_bit 54 w) 63 = bit w 9"
proof -
  have m: "take_bit 54 m = m" "take_bit 10 w = w" using assms by (simp_all add: take_bit_less)
  have "drop_bit 54 (take_bit 54 m OR push_bit 54 (take_bit 10 w)) = take_bit 10 w"
    by (rule bit_eqI) (auto simp: bit_simps)
  then show "drop_bit 54 (m OR push_bit 54 w) = w" unfolding m .
  have "take_bit 54 (take_bit 54 m OR push_bit 54 (take_bit 10 w)) = take_bit 54 m"
    by (rule bit_eqI) (auto simp: bit_simps)
  then show "take_bit 54 (m OR push_bit 54 w) = m" unfolding m .
  have "bit (take_bit 54 m OR push_bit 54 (take_bit 10 w)) 63 = bit (take_bit 10 w) 9"
    by (auto simp: bit_simps)
  then show "bit (m OR push_bit 54 w) 63 = bit w 9" unfolding m .
qed

lemma and_cNotNative: "v AND cNotNative = 0 \<longleftrightarrow> \<not> bit v 63"
proof -
  have c: "cNotNative = 2 ^ 63" by (simp add: cNotNative_def)
  show ?thesis unfolding c by (rule and_exp_eq_0_iff_not_bit)
qed

lemma and_cPosNative: "v AND cPosNative = 0 \<longleftrightarrow> \<not> bit v 62"
proof -
  have c: "cPosNative = 2 ^ 62" by (simp add: cPosNative_def)
  show ?thesis unfolding c by (rule and_exp_eq_0_iff_not_bit)
qed

lemma bit_cPosNative: "bit cPosNative n \<longleftrightarrow> n = 62"
proof -
  have c: "cPosNative = 2 ^ 62" by (simp add: cPosNative_def)
  show ?thesis unfolding c bit_exp_iff by auto
qed

lemma small_bits: "(v :: u64) < 2 ^ 62 \<Longrightarrow> 62 \<le> n \<Longrightarrow> \<not> bit v n"
proof
  assume v: "v < 2 ^ 62" and n: "62 \<le> n" "bit v n"
  have "take_bit 62 v = v" using v
    by (intro word_uint_eqI) (simp add: word_less_def unsigned_take_bit_eq take_bit_int_eq_self)
  then have "bit (take_bit 62 v) n" using n by simp
  then show False using n by (simp add: bit_simps)
qed

lemma native_bits:
  assumes "v \<le> cMaxNativeN"
  shows "\<not> bit v 63" "\<not> bit v 62" "(v OR cPosNative) AND NOT cPosNative = v" "bit (v OR cPosNative) 62"
    "\<not> bit (v OR cPosNative) 63"
proof -
  have v: "v < 2 ^ 62" using assms by (simp add: cMaxNativeN_def word_le_def word_less_def)
  show b: "\<not> bit v 63" "\<not> bit v 62" using small_bits [OF v] by simp_all
  show "bit (v OR cPosNative) 62" "\<not> bit (v OR cPosNative) 63" using b by (simp_all add: bit_simps bit_cPosNative)
  show "(v OR cPosNative) AND NOT cPosNative = v"
    using b by (intro bit_eqI) (auto simp: bit_simps bit_cPosNative)
qed

lemma wire_offset:
  fixes x :: int
  assumes "0 \<le> x" "x < 256"
  shows "(512 + x) AND 256 = 0" "(512 + x) AND 255 = x" "(768 + x) AND 256 \<noteq> 0" "(768 + x) AND 255 = x"
proof -
  have m: "y AND 255 = y mod 256" for y :: int
    using take_bit_eq_mask [of 8 y] by (simp add: take_bit_eq_mod mask_eq_exp_minus_1)
  have b: "y AND 256 = 0 \<longleftrightarrow> \<not> odd (y div 256)" for y :: int
    using and_exp_eq_0_iff_not_bit [of y 8] by (simp add: bit_iff_odd)
  have "(512 + x) div 256 = 2" using assms by (intro int_div_pos_eq [of _ 256 2 x]) simp_all
  moreover have "(768 + x) div 256 = 3" using assms by (intro int_div_pos_eq [of _ 256 3 x]) simp_all
  ultimately show "(512 + x) AND 256 = 0" "(768 + x) AND 256 \<noteq> 0" unfolding b by simp_all
  show "(512 + x) AND 255 = x" unfolding m using assms by (intro int_mod_pos_eq [of _ 256 2 x]) simp_all
  show "(768 + x) AND 255 = x" unfolding m using assms by (intro int_mod_pos_eq [of _ 256 3 x]) simp_all
qed

lemma st_issued_unpack:
  fixes m v :: u64 and x :: int and neg :: bool
  assumes "m < 2 ^ 54" "0 \<le> x" "x < 256" "v = m OR push_bit 54 (word_of_int ((if neg then 512 else 768) + x))"
  shows "uint (drop_bit 54 v) = (if neg then 512 else 768) + x" "v AND NOT (push_bit 54 1023) = m" "bit v 63"
proof -
  define w where "w = (word_of_int ((if neg then 512 else 768) + x) :: u64)"
  have u: "uint w = (if neg then 512 else 768) + x"
    unfolding w_def uint_word_of_int_eq using assms(2,3) by (intro take_bit_int_eq_self) auto
  have w: "w < 2 ^ 10" using u assms(3) by (simp add: word_less_def)
  have "uint w div 512 = 1" using u assms(2,3) by (cases neg) auto
  then have "bit (uint w) 9" by (simp add: bit_iff_odd)
  then have "bit w 9" by (simp add: bit_uint_iff)
  then show "uint (drop_bit 54 v) = (if neg then 512 else 768) + x" "v AND NOT (push_bit 54 1023) = m" "bit v 63"
    unfolding assms(4) w_def [symmetric] low_mask pack_bits [OF assms(1) w] using u by simp_all
qed

section \<open>Round trip\<close>

text \<open>The amounts that survive the wire: 54 bits of mantissa for issued ones.\<close>

definition st_wire_ok :: "st_amount \<Rightarrow> bool" where
  "st_wire_ok a \<longleftrightarrow> st_wf a \<and>
     (if sa_native a then sa_issue a = cscIssue \<and> (sa_value a = 0 \<longrightarrow> \<not> sa_negative a)
      else is_account (sa_issue a) \<noteq> 0 \<and> sa_value a < 2 ^ 54)"

lemma reads_native:
  assumes "st_native_from_wire v = Inr a" "\<not> bit v 63"
  shows "reads st_deserialize (word_bytes 8 v) a"
proof -
  have "reads (\<lambda>it. Inr (a, it)) [] a" by (rule reads_return)
  then have "reads st_deserialize (word_bytes 8 v @ []) a"
    unfolding st_deserialize_def using assms
    by (intro reads_bind [OF reads_get64]) (simp add: and_cNotNative)
  then show ?thesis by simp
qed

lemma reads_issued:
  assumes "bit v 63" "\<not> isCSC (is_currency iss)" "\<not> isCSC (is_account iss)" "st_issued_from_wire v iss = Inr a"
  shows "reads st_deserialize (word_bytes 8 v @ word_bytes 20 (is_currency iss) @ word_bytes 20 (is_account iss)) a"
proof -
  have e: "\<lparr>is_currency = is_currency iss, is_account = is_account iss\<rparr> = iss" by (cases iss) simp
  have "reads (\<lambda>it2. rbind (get160 it2) (\<lambda>(acct, it3). if isCSC acct then Inl (Thrown ''invalid native account'')
      else rbind (st_issued_from_wire v \<lparr>is_currency = is_currency iss, is_account = acct\<rparr>) (\<lambda>a. Inr (a, it3))))
      (word_bytes 20 (is_account iss)) a"
    using reads_bind [OF reads_get160 [of "is_account iss"], of "\<lambda>acct it3. if isCSC acct
        then Inl (Thrown ''invalid native account'')
        else rbind (st_issued_from_wire v \<lparr>is_currency = is_currency iss, is_account = acct\<rparr>) (\<lambda>a. Inr (a, it3))"
        "[]" a] assms e by (simp add: reads_return)
  then have "reads (\<lambda>it1. rbind (get160 it1) (\<lambda>(cur, it2). if isCSC cur then Inl (Thrown ''invalid native currency'')
      else rbind (get160 it2) (\<lambda>(acct, it3). if isCSC acct then Inl (Thrown ''invalid native account'')
      else rbind (st_issued_from_wire v \<lparr>is_currency = cur, is_account = acct\<rparr>) (\<lambda>a. Inr (a, it3)))))
      (word_bytes 20 (is_currency iss) @ word_bytes 20 (is_account iss)) a"
    using assms(2) by (intro reads_bind [OF reads_get160]) simp
  with assms(1) show ?thesis
    unfolding st_deserialize_def by (intro reads_bind [OF reads_get64]) (simp add: and_cNotNative)
qed

lemma st_issued_from_wire_pack:
  assumes "st_wf a" "\<not> sa_native a" "sa_value a < 2 ^ 54" "sa_value a \<noteq> 0"
    and "v = sa_value a OR push_bit 54 (word_of_int ((if sa_negative a then 512 else 768) + (sa_offset a + 97)))"
  shows "bit v 63" "st_issued_from_wire v (sa_issue a) = Inr a"
proof -
  have w: "cMinValue \<le> sa_value a" "sa_value a \<le> cMaxValue" "cMinOffset \<le> sa_offset a" "sa_offset a \<le> cMaxOffset"
    using assms(1,2,4) by (simp_all add: st_wf_def)
  have x: "0 \<le> sa_offset a + 97" "sa_offset a + 97 < 256" using w(3,4) by (simp_all add: st_params)
  note p = st_issued_unpack [OF assms(3) x assms(5)]
  note f = wire_offset [OF x]
  have "st_unchecked (sa_issue a) (sa_value a) (sa_offset a) False (sa_negative a) = a"
    using assms(2) by (cases a) (simp add: st_unchecked_def)
  then have c: "canonicalize (st_unchecked (sa_issue a) (sa_value a) (sa_offset a) False (sa_negative a)) = Inr a"
    using canonicalize_id [OF assms(1,4)] by simp
  show "bit v 63" by (rule p)
  show "st_issued_from_wire v (sa_issue a) = Inr a"
    using w c assms(4) f unfolding st_issued_from_wire_def p Let_def
    by (cases "sa_negative a") (simp_all add: linorder_not_less [symmetric])
qed

lemma st_wire_roundtrip:
  assumes "st_wire_ok a"
  shows "\<exists>bs. st_serialize a s = Inr (s @ bs) \<and> reads st_deserialize bs a"
proof (cases "sa_native a")
  case True
  define v where "v = (if sa_negative a then sa_value a else sa_value a OR cPosNative)"
  have w: "sa_value a \<le> cMaxNativeN" "sa_offset a = 0" "sa_issue a = cscIssue" "sa_value a = 0 \<longrightarrow> \<not> sa_negative a"
    using assms True by (auto simp: st_wire_ok_def st_wf_def)
  note b = native_bits [OF w(1)]
  have "st_native_from_wire v = Inr a"
    using w b True by (cases a) (auto simp: st_native_from_wire_def v_def and_cPosNative st_unchecked_def)
  moreover have "\<not> bit v 63" using b by (simp add: v_def)
  ultimately have "reads st_deserialize (word_bytes 8 v) a" by (rule reads_native)
  moreover have "st_serialize a s = Inr (s @ word_bytes 8 v)"
    using True w(2) by (simp add: st_serialize_def rassert_def add64_def v_def)
  ultimately show ?thesis by blast
next
  case False
  have w: "\<not> isCSC (is_currency (sa_issue a))" "\<not> isCSC (is_account (sa_issue a))" "sa_value a < 2 ^ 54" "st_wf a"
    using assms False by (auto simp: st_wire_ok_def st_wf_def isCSC_def)
  define v where "v = (if sa_value a = 0 then cNotNative
    else sa_value a OR push_bit 54 (word_of_int ((if sa_negative a then 512 else 768) + (sa_offset a + 97))))"
  have "bit v 63 \<and> st_issued_from_wire v (sa_issue a) = Inr a"
  proof (cases "sa_value a = 0")
    case True
    then have z: "sa_offset a = - 100" "\<not> sa_negative a" using w(4) False by (simp_all add: st_wf_def)
    then have a: "canonicalize (st_unchecked (sa_issue a) 0 0 False False) = Inr a"
      using w(1) False True by (cases a) (simp add: canonicalize_def st_unchecked_def)
    have "uint (drop_bit 54 cNotNative) = 512" "cNotNative AND NOT (push_bit 54 1023) = 0"
      by (simp_all add: cNotNative_def)
    moreover have "bit cNotNative 63" using and_cNotNative [of cNotNative] by (simp add: cNotNative_def)
    ultimately show ?thesis using True a by (simp add: v_def st_issued_from_wire_def)
  next
    case nz: False
    then have "v = sa_value a OR push_bit 54 (word_of_int ((if sa_negative a then 512 else 768) + (sa_offset a + 97)))"
      by (simp add: v_def)
    from st_issued_from_wire_pack [OF w(4) False w(3) nz this] show ?thesis by blast
  qed
  then have "reads st_deserialize (word_bytes 8 v @ word_bytes 20 (is_currency (sa_issue a)) @
      word_bytes 20 (is_account (sa_issue a))) a" using w by (intro reads_issued) auto
  moreover have "st_serialize a s = Inr (s @ word_bytes 8 v @ word_bytes 20 (is_currency (sa_issue a)) @
      word_bytes 20 (is_account (sa_issue a)))"
    using False by (simp add: st_serialize_def add64_def add160_def v_def st_isZero_def st_signum_def algebra_simps)
  ultimately show ?thesis by blast
qed

text \<open>
  C28: amounts round trip on the wire. A canonical native amount other than negative zero,
  and a canonical issued amount whose mantissa fits the 54 bits of the format, is written
  without a failed assertion, and reading takes exactly the bytes written and gives the
  amount back.
\<close>

theorem amount_wire_roundtrip:
  assumes "st_wire_ok a"
  shows "\<exists>bs. st_serialize a s = Inr (s @ bs) \<and>
    (\<forall>it rest. si_rest it = bs @ rest \<longrightarrow> (\<exists>it'. st_deserialize it = Inr (a, it') \<and> si_rest it' = rest))"
  using st_wire_roundtrip [OF assms, of s] unfolding reads_def by blast

theorem amount_wire_roundtrip_witness:
  "\<exists>bs. st_serialize (st_unchecked \<lparr>is_currency = 5, is_account = 9\<rparr> 1234567890123456 (- 20) False True) [] = Inr bs \<and>
    (\<forall>it rest. si_rest it = bs @ rest \<longrightarrow>
      (\<exists>it'. st_deserialize it =
         Inr (st_unchecked \<lparr>is_currency = 5, is_account = 9\<rparr> 1234567890123456 (- 20) False True, it') \<and> si_rest it' = rest))"
proof -
  have "st_wire_ok (st_unchecked \<lparr>is_currency = 5, is_account = 9\<rparr> 1234567890123456 (- 20) False True)"
    by (simp add: st_wire_ok_def st_unchecked_def st_wf_def isCSC_def st_params)
  from amount_wire_roundtrip [OF this, of "[]"] show ?thesis by simp
qed

end
