(* ===== verification/LexicalCast.thy ===== *)
theory LexicalCast
  imports Prelude
begin

text \<open>
  Numbers as text (\<open>beast/core/LexicalCast.h\<close>): the parsers of integral types with
  their overflow tests, and decimal notation as \<open>std::to_string\<close> writes it. An
  integral type is given by its smallest and largest value.
\<close>

section \<open>Decimal notation\<close>

definition digit_char :: "nat \<Rightarrow> char" where
  "digit_char d = char_of (48 + d)"

function decimal :: "nat \<Rightarrow> string" where
  "decimal n = (if n < 10 then [digit_char n] else decimal (n div 10) @ [digit_char (n mod 10)])"
  by pat_completeness auto
termination by (relation "measure (\<lambda>n. n)") auto

declare decimal.simps [simp del]

definition to_string :: "int \<Rightarrow> string" where
  "to_string i = (if i < 0 then CHR ''-'' # decimal (nat (- i)) else decimal (nat i))"

section \<open>Parsing\<close>

definition char_digit :: "char \<Rightarrow> int" where
  "char_digit c = int (of_char c) - 48"

definition is_digit :: "char \<Rightarrow> bool" where
  "is_digit c \<longleftrightarrow> \<not> (char_digit c < 0 \<or> char_digit c > 9)"

text \<open>The loop of \<open>parse_integral\<close>; the accumulator refuses a digit that overflows.\<close>

primrec parse_loop :: "(int \<Rightarrow> int \<Rightarrow> int option) \<Rightarrow> int \<Rightarrow> string \<Rightarrow> int option" where
  "parse_loop accumulator num [] = Some num"
| "parse_loop accumulator num (c # cs) =
     (if \<not> is_digit c then None
      else case accumulator num (char_digit c) of
             None \<Rightarrow> None | Some num' \<Rightarrow> parse_loop accumulator num' cs)"

definition parse_integral :: "(int \<Rightarrow> int \<Rightarrow> int option) \<Rightarrow> string \<Rightarrow> int option" where
  "parse_integral accumulator s = (if s = [] then None else parse_loop accumulator 0 s)"

text \<open>The accumulators, for the smallest and the largest value of the type.\<close>

definition negative_accumulator :: "int \<Rightarrow> int \<Rightarrow> int \<Rightarrow> int option" where
  "negative_accumulator mn value digit =
     (let limit_value = mn sdiv 10; limit_digit = \<bar>mn - limit_value * 10\<bar>
      in if value < limit_value \<or> value = limit_value \<and> digit > limit_digit then None
         else Some (value * 10 - digit))"

definition positive_accumulator :: "int \<Rightarrow> int \<Rightarrow> int \<Rightarrow> int option" where
  "positive_accumulator mx value digit =
     (let limit_value = mx sdiv 10; limit_digit = mx - limit_value * 10
      in if value > limit_value \<or> value = limit_value \<and> digit > limit_digit then None
         else Some (value * 10 + digit))"

definition parse_negative_integral :: "int \<Rightarrow> string \<Rightarrow> int option" where
  "parse_negative_integral mn = parse_integral (negative_accumulator mn)"

definition parse_positive_integral :: "int \<Rightarrow> string \<Rightarrow> int option" where
  "parse_positive_integral mx = parse_integral (positive_accumulator mx)"

definition parseSigned :: "int \<Rightarrow> int \<Rightarrow> string \<Rightarrow> int option" where
  "parseSigned mn mx s =
     (if s \<noteq> [] \<and> hd s = CHR ''-'' then parse_negative_integral mn (tl s)
      else if s \<noteq> [] \<and> hd s = CHR ''+'' then parse_positive_integral mx (tl s)
      else parse_positive_integral mx s)"

definition parseUnsigned :: "int \<Rightarrow> string \<Rightarrow> int option" where
  "parseUnsigned mx s =
     (if s \<noteq> [] \<and> hd s = CHR ''+'' then parse_positive_integral mx (tl s)
      else parse_positive_integral mx s)"

definition lexicalCast_u64 :: "string \<Rightarrow> int res" where
  "lexicalCast_u64 s =
     (case parseUnsigned (2 ^ 64 - 1) s of None \<Rightarrow> Inl (Thrown ''BadLexicalCast'') | Some i \<Rightarrow> Inr i)"

definition lexicalCast_int :: "string \<Rightarrow> int res" where
  "lexicalCast_int s =
     (case parseSigned (- (2 ^ 31)) (2 ^ 31 - 1) s of
        None \<Rightarrow> Inl (Thrown ''BadLexicalCast'') | Some i \<Rightarrow> Inr i)"

section \<open>The number a string of digits stands for\<close>

definition digits_val :: "string \<Rightarrow> int" where
  "digits_val = foldl (\<lambda>n c. n * 10 + char_digit c) 0"

definition all_digits :: "string \<Rightarrow> bool" where
  "all_digits s \<longleftrightarrow> (\<forall>c \<in> set s. is_digit c)"

lemma all_digits_simps [simp]:
  "all_digits []" "all_digits (c # s) \<longleftrightarrow> is_digit c \<and> all_digits s"
  "all_digits (s @ t) \<longleftrightarrow> all_digits s \<and> all_digits t"
  by (auto simp: all_digits_def)

lemma digits_foldl:
  "foldl (\<lambda>n c. n * 10 + char_digit c) a s = a * 10 ^ length s + digits_val s"
proof (induction s arbitrary: a)
  case (Cons c s)
  show ?case
    using Cons [of "a * 10 + char_digit c"] Cons [of "char_digit c"]
    by (simp add: digits_val_def algebra_simps)
qed (simp add: digits_val_def)

lemma digits_val_simps [simp]:
  "digits_val [] = 0" "digits_val (c # s) = char_digit c * 10 ^ length s + digits_val s"
  "digits_val (s @ t) = digits_val s * 10 ^ length t + digits_val t"
proof -
  show "digits_val [] = 0" by (simp add: digits_val_def)
  show "digits_val (c # s) = char_digit c * 10 ^ length s + digits_val s"
    using digits_foldl [of "char_digit c" s] by (simp add: digits_val_def)
  show "digits_val (s @ t) = digits_val s * 10 ^ length t + digits_val t"
    using digits_foldl [of "digits_val s" t] by (simp add: digits_val_def)
qed

lemma digits_val_nonneg: "all_digits s \<Longrightarrow> 0 \<le> digits_val s"
  by (induction s) (auto simp: is_digit_def)

lemma digits_val_less: "all_digits s \<Longrightarrow> digits_val s < 10 ^ length s"
proof (induction s)
  case (Cons c s)
  then have "char_digit c \<le> 9" "digits_val s < 10 ^ length s" by (auto simp: is_digit_def)
  then have "char_digit c * 10 ^ length s \<le> 9 * 10 ^ length s" by (intro mult_right_mono) auto
  with \<open>digits_val s < 10 ^ length s\<close> show ?case
    unfolding digits_val_simps length_Cons power_Suc by linarith
qed simp

lemma char_digit_char [simp]: "d < 10 \<Longrightarrow> char_digit (digit_char d) = int d"
  by (simp add: char_digit_def digit_char_def)

lemma is_digit_char [simp]: "d < 10 \<Longrightarrow> is_digit (digit_char d)"
  by (simp add: is_digit_def)

lemma decimal_digits [simp]: "all_digits (decimal n)"
  by (induction n rule: decimal.induct) (subst decimal.simps, simp)

lemma decimal_val [simp]: "digits_val (decimal n) = int n"
proof (induction n rule: decimal.induct)
  case (1 n)
  then show ?case
    by (subst decimal.simps) (simp add: zdiv_int zmod_int)
qed

lemma decimal_nonempty [simp]: "decimal n \<noteq> []"
  by (subst decimal.simps) simp

lemma decimal_hd: "0 < n \<Longrightarrow> char_digit (hd (decimal n)) \<noteq> 0"
proof (induction n rule: decimal.induct)
  case (1 n)
  show ?case
  proof (cases "n < 10")
    case False
    then show ?thesis using 1 by (subst decimal.simps) (simp add: div_greater_zero_iff)
  qed (use 1 in \<open>subst decimal.simps, simp\<close>)
qed

lemma decimal_length:
  "0 < n \<Longrightarrow> 10 ^ (length (decimal n) - 1) \<le> n \<and> n < 10 ^ length (decimal n)"
proof (induction n rule: decimal.induct)
  case (1 n)
  show ?case
  proof (cases "n < 10")
    case True
    with 1(2) show ?thesis by (subst decimal.simps, subst (2) decimal.simps) simp
  next
    case False
    let ?l = "length (decimal (n div 10))"
    have l: "length (decimal n) = Suc ?l" using False by (subst decimal.simps) simp
    have IH: "10 ^ (?l - 1) \<le> n div 10" "n div 10 < 10 ^ ?l" using 1 False by simp_all
    have p: "0 < ?l" by simp
    have "(10::nat) ^ ?l = 10 * 10 ^ (?l - 1)" using p by (cases ?l) auto
    also have "\<dots> \<le> n" using IH(1) by simp
    finally show ?thesis using IH(2) by (simp add: l)
  qed
qed

section \<open>Parsing gives the number\<close>

lemma positive_accumulator_exact:
  assumes "0 \<le> mx" "0 \<le> d" "d \<le> 9"
  shows "positive_accumulator mx v d = (if v * 10 + d \<le> mx then Some (v * 10 + d) else None)"
proof -
  have "mx sdiv 10 = mx div 10" using assms by (simp add: sdiv_nonneg)
  then show ?thesis using assms by (auto simp: positive_accumulator_def Let_def)
qed

lemma negative_accumulator_exact:
  assumes "mn \<le> 0" "0 \<le> d" "d \<le> 9"
  shows "negative_accumulator mn v d = (if mn \<le> v * 10 - d then Some (v * 10 - d) else None)"
proof -
  define q where "q = - mn div 10"
  have "mn sdiv 10 = - q" "\<bar>mn - mn sdiv 10 * 10\<bar> = - mn - q * 10"
    using assms by (auto simp: q_def signed_divide_int_def sgn_if)
  then show ?thesis using assms by (auto simp: negative_accumulator_def Let_def q_def)
qed

lemma parse_loop_positive:
  assumes "0 \<le> num" "num \<le> mx"
  shows "parse_loop (positive_accumulator mx) num s =
    (if all_digits s \<and> num * 10 ^ length s + digits_val s \<le> mx
     then Some (num * 10 ^ length s + digits_val s) else None)"
  using assms
proof (induction s arbitrary: num)
  case (Cons c s)
  let ?v = "num * 10 + char_digit c"
  let ?r = "num * 10 ^ length (c # s) + digits_val (c # s)"
  have r: "?r = ?v * 10 ^ length s + digits_val s" by (simp add: algebra_simps)
  show ?case
  proof (cases "is_digit c")
    case d: True
    then have d': "0 \<le> char_digit c" "char_digit c \<le> 9" "0 \<le> ?v" using Cons.prems by (simp_all add: is_digit_def)
    have acc: "positive_accumulator mx num (char_digit c) = (if ?v \<le> mx then Some ?v else None)"
      using positive_accumulator_exact d' Cons.prems by simp
    have big: "?v \<le> ?r" if "all_digits s"
    proof -
      have "?v * 1 \<le> ?v * 10 ^ length s" using d'(3) by (intro mult_left_mono) auto
      then show ?thesis using digits_val_nonneg [OF that] unfolding r by simp
    qed
    show ?thesis
    proof (cases "?v \<le> mx")
      case True
      then show ?thesis using Cons.IH [OF d'(3) True] d acc unfolding r by simp
    next
      case False
      with big have "\<not> (all_digits (c # s) \<and> ?r \<le> mx)" by auto
      then show ?thesis using acc False d by (simp only: if_False parse_loop.simps option.case) simp
    qed
  qed simp
qed simp

lemma parse_positive_exact:
  assumes "0 \<le> mx"
  shows "parse_positive_integral mx s =
    (if s \<noteq> [] \<and> all_digits s \<and> digits_val s \<le> mx then Some (digits_val s) else None)"
  using parse_loop_positive [of 0 mx s] assms
  by (simp add: parse_positive_integral_def parse_integral_def)

lemma parse_loop_negative:
  assumes "num \<le> 0" "mn \<le> num"
  shows "parse_loop (negative_accumulator mn) num s =
    (if all_digits s \<and> mn \<le> num * 10 ^ length s - digits_val s
     then Some (num * 10 ^ length s - digits_val s) else None)"
  using assms
proof (induction s arbitrary: num)
  case (Cons c s)
  let ?v = "num * 10 - char_digit c"
  let ?r = "num * 10 ^ length (c # s) - digits_val (c # s)"
  have r: "?r = ?v * 10 ^ length s - digits_val s" by (simp add: algebra_simps)
  show ?case
  proof (cases "is_digit c")
    case d: True
    then have d': "0 \<le> char_digit c" "char_digit c \<le> 9" "?v \<le> 0" using Cons.prems by (simp_all add: is_digit_def)
    have acc: "negative_accumulator mn num (char_digit c) = (if mn \<le> ?v then Some ?v else None)"
      using negative_accumulator_exact d' Cons.prems by simp
    have small: "?r \<le> ?v" if "all_digits s"
    proof -
      have "?v * 10 ^ length s \<le> ?v * 1" using d'(3) by (intro mult_left_mono_neg) auto
      then show ?thesis using digits_val_nonneg [OF that] unfolding r by simp
    qed
    show ?thesis
    proof (cases "mn \<le> ?v")
      case True
      then show ?thesis using Cons.IH [OF d'(3) True] d acc unfolding r by simp
    next
      case False
      with small have "\<not> (all_digits (c # s) \<and> mn \<le> ?r)" by auto
      then show ?thesis using acc False d by (simp only: if_False parse_loop.simps option.case) simp
    qed
  qed simp
qed simp

lemma parse_negative_exact:
  assumes "mn \<le> 0"
  shows "parse_negative_integral mn s =
    (if s \<noteq> [] \<and> all_digits s \<and> mn \<le> - digits_val s then Some (- digits_val s) else None)"
  using parse_loop_negative [of 0 mn s] assms
  by (simp add: parse_negative_integral_def parse_integral_def)

lemma digit_not_sign: "is_digit c \<Longrightarrow> c \<noteq> CHR ''-'' \<and> c \<noteq> CHR ''+'' \<and> c \<noteq> CHR ''.'' \<and> c \<noteq> CHR ''e'' \<and> c \<noteq> CHR ''E''"
  by (auto simp: is_digit_def char_digit_def)

lemma parseUnsigned_digits:
  assumes "0 \<le> mx" "all_digits s" "s \<noteq> []"
  shows "parseUnsigned mx s = (if digits_val s \<le> mx then Some (digits_val s) else None)"
  using assms digit_not_sign by (cases s) (auto simp: parseUnsigned_def parse_positive_exact)

lemma parseSigned_digits:
  assumes "0 \<le> mx" "all_digits s" "s \<noteq> []"
  shows "parseSigned mn mx s = (if digits_val s \<le> mx then Some (digits_val s) else None)"
  using assms digit_not_sign by (cases s) (auto simp: parseSigned_def parse_positive_exact)

text \<open>
  C35: numbers round trip through text. Parsing an integral type accepts exactly the
  non-empty strings of digits, with an optional sign, whose number lies in the type's
  range and gives that number: no overflow goes unnoticed, at either end. In particular
  what \<open>to_string\<close> writes is read back for every value of the type.
\<close>

theorem lexical_cast_exact:
  assumes "mn \<le> 0" "0 \<le> mx" "mn \<le> i" "i \<le> mx"
  shows "parseSigned mn mx (to_string i) = Some i \<and>
    parseUnsigned mx s =
      (let d = (if take 1 s = ''+'' then tl s else s)
       in if d \<noteq> [] \<and> all_digits d \<and> digits_val d \<le> mx then Some (digits_val d) else None) \<and>
    parseSigned mn mx s =
      (let d = (if take 1 s = ''+'' \<or> take 1 s = ''-'' then tl s else s);
           v = (if take 1 s = ''-'' then - digits_val d else digits_val d)
       in if d \<noteq> [] \<and> all_digits d \<and> mn \<le> v \<and> v \<le> mx then Some v else None)"
proof (intro conjI)
  show "parseSigned mn mx (to_string i) = Some i"
  proof (cases "i < 0")
    case True
    then show ?thesis using assms by (simp add: to_string_def parseSigned_def parse_negative_exact)
  next
    case False
    then show ?thesis using assms parseSigned_digits [of mx "decimal (nat i)" mn] by (simp add: to_string_def)
  qed
  show "parseUnsigned mx s =
      (let d = (if take 1 s = ''+'' then tl s else s)
       in if d \<noteq> [] \<and> all_digits d \<and> digits_val d \<le> mx then Some (digits_val d) else None)"
    using assms by (cases s) (simp_all add: parseUnsigned_def parse_positive_exact)
  have le: "mn \<le> digits_val d" "- digits_val d \<le> mx" if "all_digits d" for d
    using assms digits_val_nonneg [OF that] by simp_all
  show "parseSigned mn mx s =
      (let d = (if take 1 s = ''+'' \<or> take 1 s = ''-'' then tl s else s);
           v = (if take 1 s = ''-'' then - digits_val d else digits_val d)
       in if d \<noteq> [] \<and> all_digits d \<and> mn \<le> v \<and> v \<le> mx then Some v else None)"
  proof (cases s)
    case Nil
    then show ?thesis using assms by (simp add: parseSigned_def parse_positive_exact)
  next
    case (Cons c cs)
    then show ?thesis
      using assms le [of cs] le [of s]
      by (cases "c = CHR ''-''"; cases "c = CHR ''+''")
        (auto simp: parseSigned_def parse_positive_exact parse_negative_exact)
  qed
qed

theorem lexical_cast_exact_witness:
  "parseSigned (- (2 ^ 31)) (2 ^ 31 - 1) (to_string (- (2 ^ 31))) = Some (- 2147483648) \<and>
   parseUnsigned (2 ^ 31 - 1) ''2147483648'' = None"
proof -
  have "(- (2 ^ 31) :: int) \<le> 0" "(0::int) \<le> 2 ^ 31 - 1" "(- (2 ^ 31) :: int) \<le> - (2 ^ 31)" "(- (2 ^ 31) :: int) \<le> 2 ^ 31 - 1"
    by simp_all
  from lexical_cast_exact [OF this, of "''2147483648''"] show ?thesis
    by (simp add: Let_def is_digit_def char_digit_def)
qed

end
