(* ===== verification/AmountText.thy ===== *)
theory AmountText
  imports AmountWire LexicalCast
begin

text \<open>
  Amounts as text: \<open>STAmount::getText\<close>, \<open>to_string(IOUAmount)\<close> and
  \<open>amountFromString\<close> (\<open>protocol/impl/STAmount.cpp\<close>, \<open>IOUAmount.cpp\<close>). The
  regular expression of \<open>amountFromString\<close> is a parser of its groups in order; no
  group can give characters back to an earlier one, so there is nothing to backtrack.
\<close>

section \<open>Printing\<close>

text \<open>
  Without an exponent: the digits are padded with zeros on both sides, cut at the decimal
  point, and the zeros cropped again.
\<close>

definition plainText :: "string \<Rightarrow> int \<Rightarrow> string" where
  "plainText raw_value exponent =
     (let pad_prefix = 27; pad_suffix = 23;
          val = replicate pad_prefix (CHR ''0'') @ raw_value @ replicate pad_suffix (CHR ''0'');
          offset = nat (exponent + 43);
          pre = take offset val; post = drop offset val;
          pre1 = (if length pre > pad_prefix then drop pad_prefix pre else pre);
          pre2 = dropWhile (\<lambda>c. c = CHR ''0'') pre1;
          post1 = (if length post > pad_suffix then take (length post - pad_suffix) post else post);
          post2 = rev (dropWhile (\<lambda>c. c = CHR ''0'') (rev post1))
      in (if pre2 = [] then ''0'' else pre2) @ (if post2 = [] then [] else CHR ''.'' # post2))"

definition scientific :: "int \<Rightarrow> bool" where
  "scientific off \<longleftrightarrow> off \<noteq> 0 \<and> (off < - 25 \<or> off > - 5)"

definition getText :: "st_amount \<Rightarrow> string res" where
  "getText a =
     (if st_isZero a then Inr ''0''
      else let raw_value = to_string (uint (sa_value a));
               sign = (if sa_negative a then ''-'' else '''')
           in if sa_native a \<or> scientific (sa_offset a)
              then Inr (sign @ raw_value @
                     (if scientific (sa_offset a) then CHR ''e'' # to_string (sa_offset a) else []))
              else rassert (sa_offset a + 43 > 0) ''getText''
                     (Inr (sign @ plainText raw_value (sa_offset a))))"

definition iou_to_string :: "iou_amount \<Rightarrow> string res" where
  "iou_to_string a =
     (if iou_signum a = 0 then Inr ''0''
      else if scientific (iou_exponent a)
      then Inr (to_string (iou_mantissa a) @ CHR ''e'' # to_string (iou_exponent a))
      else let negative = iou_mantissa a < 0;
               mantissa = (if negative then - iou_mantissa a else iou_mantissa a)
           in rassert (iou_exponent a + 43 > 0) ''to_string''
                (Inr ((if negative then ''-'' else '''') @ plainText (to_string mantissa) (iou_exponent a))))"

section \<open>Parsing\<close>

text \<open>The groups of the regular expression, each with the rest of the input.\<close>

definition matchSign :: "string \<Rightarrow> string \<times> string" where
  "matchSign s = (if s \<noteq> [] \<and> (hd s = CHR ''-'' \<or> hd s = CHR ''+'') then ([hd s], tl s) else ([], s))"

definition matchInteger :: "string \<Rightarrow> (string \<times> string) option" where
  "matchInteger s =
     (if s = [] \<or> \<not> is_digit (hd s) then None
      else if hd s = CHR ''0'' then Some (''0'', tl s)
      else Some (takeWhile is_digit s, dropWhile is_digit s))"

definition matchFraction :: "string \<Rightarrow> (string option \<times> string) option" where
  "matchFraction s =
     (if s \<noteq> [] \<and> hd s = CHR ''.'' then
        (if takeWhile is_digit (tl s) = [] then None
         else Some (Some (takeWhile is_digit (tl s)), dropWhile is_digit (tl s)))
      else Some (None, s))"

definition matchExponent :: "string \<Rightarrow> ((string \<times> string) option \<times> string) option" where
  "matchExponent s =
     (if s \<noteq> [] \<and> (hd s = CHR ''e'' \<or> hd s = CHR ''E'') then
        (case matchSign (tl s) of (sign, rest) \<Rightarrow>
           if takeWhile is_digit rest = [] then None
           else Some (Some (sign, takeWhile is_digit rest), dropWhile is_digit rest))
      else Some (None, s))"

record number_match =
  nm_sign :: string
  nm_integer :: string
  nm_fraction :: "string option"
  nm_exponent :: "(string \<times> string) option"

definition reNumber :: "string \<Rightarrow> number_match option" where
  "reNumber s =
     (case matchSign s of (sign, r1) \<Rightarrow>
      case matchInteger r1 of None \<Rightarrow> None | Some (integer, r2) \<Rightarrow>
      case matchFraction r2 of None \<Rightarrow> None | Some (fraction, r3) \<Rightarrow>
      case matchExponent r3 of None \<Rightarrow> None | Some (ex, r4) \<Rightarrow>
        if r4 = [] then Some \<lparr>nm_sign = sign, nm_integer = integer, nm_fraction = fraction, nm_exponent = ex\<rparr>
        else None)"

definition amountFromString :: "issue \<Rightarrow> string \<Rightarrow> st_amount res" where
  "amountFromString iss amount =
     (case reNumber amount of
        None \<Rightarrow> Inl (Thrown ''Number is not valid'')
      | Some m \<Rightarrow>
          let fraction = (case nm_fraction m of None \<Rightarrow> [] | Some f \<Rightarrow> f)
          in if length (nm_integer m) + length fraction > 32 then Inl (Thrown ''Number is overlong'')
             else if isCSC (is_currency iss) \<and> nm_fraction m \<noteq> None
             then Inl (Thrown ''CSC must be specified in integral drops.'')
             else rbind (lexicalCast_u64 (nm_integer m @ fraction)) (\<lambda>mantissa.
                  rbind (case nm_exponent m of
                           None \<Rightarrow> Inr 0
                         | Some (sign, digits) \<Rightarrow>
                             rbind (lexicalCast_int digits) (\<lambda>e. Inr (if sign = ''-'' then - e else e)))
                    (\<lambda>e. st_make iss (word_of_int mantissa) (- int (length fraction) + e)
                           (nm_sign m = ''-''))))"

section \<open>Digits\<close>

lemma zero_digit [simp]: "is_digit CHR ''0''" "char_digit CHR ''0'' = 0"
  by (simp_all add: is_digit_def char_digit_def)

lemma digits_val_replicate_zero [simp]: "digits_val (replicate n (CHR ''0'')) = 0"
  by (induction n) simp_all

lemma all_digits_replicate_zero [simp]: "all_digits (replicate n (CHR ''0''))"
  by (simp add: all_digits_def)

lemma digits_val_lstrip: "digits_val (dropWhile (\<lambda>c. c = CHR ''0'') s) = digits_val s"
  by (induction s) auto

lemma all_digits_sub:
  "all_digits s \<Longrightarrow> all_digits (take n s)" "all_digits s \<Longrightarrow> all_digits (drop n s)"
  "all_digits s \<Longrightarrow> all_digits (dropWhile P s)" "all_digits (rev s) \<longleftrightarrow> all_digits s"
  by (auto simp: all_digits_def dest: in_set_takeD in_set_dropD set_dropWhileD)

lemma lstrip_zeros [simp]:
  "dropWhile (\<lambda>c. c = CHR ''0'') (replicate n (CHR ''0'') @ s) = dropWhile (\<lambda>c. c = CHR ''0'') s"
  by (induction n) simp_all

definition rstrip :: "string \<Rightarrow> string" where
  "rstrip s = rev (dropWhile (\<lambda>c. c = CHR ''0'') (rev s))"

lemma rstrip_append: "\<exists>j. s = rstrip s @ replicate j (CHR ''0'')"
proof -
  let ?z = "takeWhile (\<lambda>c. c = CHR ''0'') (rev s)"
  have "\<forall>c \<in> set ?z. c = CHR ''0''" by (auto dest: set_takeWhileD)
  then have z: "?z = replicate (length ?z) (CHR ''0'')" by (simp add: replicate_length_same)
  have "rev s = ?z @ dropWhile (\<lambda>c. c = CHR ''0'') (rev s)" by simp
  then have "s = rstrip s @ rev ?z" unfolding rstrip_def by (metis rev_append rev_rev_ident)
  also have "rev ?z = ?z" by (subst (1 2) z) simp
  finally show ?thesis using z by metis
qed

lemma rstrip_zeros [simp]: "rstrip (s @ replicate n (CHR ''0'')) = rstrip s"
  by (simp add: rstrip_def)

lemma rstrip_all_zeros [simp]: "rstrip (replicate n (CHR ''0'')) = []"
  by (simp add: rstrip_def dropWhile_eq_Nil_conv)

lemma rstrip_Nil [simp]: "rstrip [] = []"
  by (simp add: rstrip_def)

text \<open>The digits before and after the point, with their number.\<close>

lemma plainText_parts:
  assumes "length raw = 16" "all_digits raw" "- 43 < e" "e \<le> 0"
  obtains I F j where "plainText raw e = I @ (if F = [] then [] else CHR ''.'' # F)"
    and "I = ''0'' \<or> I \<noteq> [] \<and> all_digits I \<and> hd I \<noteq> CHR ''0''"
    and "all_digits F" "digits_val (I @ F) * 10 ^ j = digits_val raw" "- int (length F) - int j = e"
    and "length I + length F \<le> max 16 (1 + nat (- e))"
proof -
  define W where "W = replicate 27 (CHR ''0'') @ raw"
  define k where "k = nat (e + 43)"
  define pre where "pre = take k W"
  define X where "X = drop k W"
  let ?val = "replicate 27 (CHR ''0'') @ raw @ replicate 23 (CHR ''0'')"
  have k: "k \<le> 43" "length W = 43" "int k = e + 43" using assms by (auto simp: k_def W_def)
  have val: "?val = W @ replicate 23 (CHR ''0'')" by (simp add: W_def)
  have pr: "take k ?val = pre" "drop k ?val = X @ replicate 23 (CHR ''0'')"
    using k unfolding val pre_def X_def by simp_all
  define I0 where "I0 = dropWhile (\<lambda>c. c = CHR ''0'') pre"
  define F where "F = rstrip X"
  obtain j where j: "X = F @ replicate j (CHR ''0'')" using rstrip_append unfolding F_def by blast
  have pre: "pre = replicate (min k 27) (CHR ''0'') @ take (k - 27) raw"
    by (simp add: pre_def W_def take_append)
  then have I0: "I0 = dropWhile (\<lambda>c. c = CHR ''0'') (take (k - 27) raw)" by (simp add: I0_def)
  have crop1: "dropWhile (\<lambda>c. c = CHR ''0'') (if length pre > 27 then drop 27 pre else pre) = I0"
  proof (cases "k > 27")
    case True
    then have "drop 27 pre = take (k - 27) raw" "length pre > 27" using pre assms(1) k by simp_all
    then show ?thesis by (simp add: I0)
  next
    case False
    then have "\<not> length pre > 27" using k by (simp add: pre_def)
    then show ?thesis by (simp add: I0_def)
  qed
  have crop2: "rstrip (if length (X @ replicate 23 (CHR ''0'')) > 23
      then take (length (X @ replicate 23 (CHR ''0'')) - 23) (X @ replicate 23 (CHR ''0''))
      else X @ replicate 23 (CHR ''0'')) = F"
    by (simp add: F_def)
  define I where "I = (if I0 = [] then ''0'' else I0)"
  have t: "plainText raw e = I @ (if F = [] then [] else CHR ''.'' # F)"
    using crop1 crop2 unfolding plainText_def Let_def k_def [symmetric] pr rstrip_def I_def by simp
  have dW: "all_digits W" using assms(2) by (simp add: W_def)
  have hd: "I0 \<noteq> [] \<Longrightarrow> hd I0 \<noteq> CHR ''0''" unfolding I0_def using hd_dropWhile by blast
  have dI: "all_digits I0" "all_digits X" using dW by (simp_all add: I0_def pre_def X_def all_digits_sub)
  have dF: "all_digits F" using dI(2) j by (metis all_digits_simps(3))
  have "digits_val W = digits_val raw" by (simp add: W_def)
  moreover have "W = pre @ X" by (simp add: pre_def X_def)
  moreover have "digits_val pre = digits_val I"
    using digits_val_lstrip [of pre] by (auto simp: I_def I0_def [symmetric])
  ultimately have v: "digits_val (I @ F) * 10 ^ j = digits_val raw"
    by (simp add: j power_add algebra_simps)
  have l: "length F + j = 43 - k" using arg_cong [OF j, of length] k by (simp add: X_def)
  have "length I0 \<le> k - 27"
    using length_dropWhile_le [of "\<lambda>c. c = CHR ''0''" "take (k - 27) raw"] by (simp add: I0)
  then have "length I \<le> max 1 (k - 27)" by (simp add: I_def le_max_iff_disj)
  then have "length I + length F \<le> max 16 (1 + nat (- e))" using l k by simp
  moreover have "- int (length F) - int j = e" using l k by simp
  ultimately show ?thesis using that [OF t _ dF v] dI(1) hd by (auto simp: I_def)
qed

section \<open>The parser on well-formed numbers\<close>

definition integer_text :: "string \<Rightarrow> bool" where
  "integer_text I \<longleftrightarrow> I = ''0'' \<or> I \<noteq> [] \<and> all_digits I \<and> hd I \<noteq> CHR ''0''"

definition not_digit_start :: "string \<Rightarrow> bool" where
  "not_digit_start r \<longleftrightarrow> r = [] \<or> \<not> is_digit (hd r)"

lemma span_digits:
  assumes "all_digits s" "not_digit_start r"
  shows "takeWhile is_digit (s @ r) = s" "dropWhile is_digit (s @ r) = r"
proof -
  have "takeWhile is_digit r = []" "dropWhile is_digit r = r"
    using assms(2) by (cases r, auto simp: not_digit_start_def)+
  then show "takeWhile is_digit (s @ r) = s" "dropWhile is_digit (s @ r) = r"
    using assms(1) by (auto simp: all_digits_def takeWhile_append2 dropWhile_append2)
qed

lemma integer_text_digits: "integer_text I \<Longrightarrow> all_digits I \<and> I \<noteq> []"
  by (auto simp: integer_text_def)

lemma matchInteger_text:
  assumes "integer_text I" "not_digit_start r"
  shows "matchInteger (I @ r) = Some (I, r)"
proof (cases "I = ''0''")
  case True
  then show ?thesis by (simp add: matchInteger_def)
next
  case False
  with assms obtain c s where I: "I = c # s" "is_digit c" "c \<noteq> CHR ''0''" "all_digits I"
    by (cases I) (auto simp: integer_text_def)
  show ?thesis using span_digits [OF I(4) assms(2)] I(1-3) by (simp add: matchInteger_def)
qed

lemma matchSign_text:
  assumes "sign = [] \<or> sign = ''-'' \<or> sign = ''+''" "all_digits s" "s \<noteq> []"
  shows "matchSign (sign @ s @ r) = (sign, s @ r)"
  using assms digit_not_sign by (cases s) (auto simp: matchSign_def)

definition fraction_text :: "string \<Rightarrow> string" where
  "fraction_text F = (if F = [] then [] else CHR ''.'' # F)"

definition exponent_text :: "(string \<times> string) option \<Rightarrow> string" where
  "exponent_text ex = (case ex of None \<Rightarrow> [] | Some (sign, d) \<Rightarrow> CHR ''e'' # sign @ d)"

lemma matchFraction_text:
  assumes "all_digits F" "not_digit_start r" "r = [] \<or> hd r \<noteq> CHR ''.''"
  shows "matchFraction (fraction_text F @ r) = Some (if F = [] then None else Some F, r)"
  using assms span_digits [OF assms(1,2)] by (auto simp: matchFraction_def fraction_text_def)

lemma matchExponent_text:
  assumes "\<And>sign d. ex = Some (sign, d) \<Longrightarrow> (sign = [] \<or> sign = ''-'' \<or> sign = ''+'') \<and> all_digits d \<and> d \<noteq> []"
  shows "matchExponent (exponent_text ex) = Some (ex, [])"
proof (cases ex)
  case None
  then show ?thesis by (simp add: matchExponent_def exponent_text_def)
next
  case (Some p)
  obtain sign d where p: "ex = Some (sign, d)" using Some by (cases p) auto
  have "(sign = [] \<or> sign = ''-'' \<or> sign = ''+'')" "all_digits d" "d \<noteq> []" using assms [OF p] by simp_all
  moreover from this obtain c s where "d = c # s" "is_digit c" "\<forall>x\<in>set s. is_digit x"
    by (cases d) (auto simp: all_digits_def)
  ultimately show ?thesis using matchSign_text [of sign d "[]"] p
    by (simp add: matchExponent_def exponent_text_def)
qed

lemma exponent_text_start:
  "not_digit_start (exponent_text ex)" "exponent_text ex = [] \<or> hd (exponent_text ex) \<noteq> CHR ''.''"
  by (auto simp: not_digit_start_def exponent_text_def is_digit_def char_digit_def split: option.splits)

lemma reNumber_text:
  assumes "sign = [] \<or> sign = ''-'' \<or> sign = ''+''" "integer_text I" "all_digits F"
    and "\<And>es d. ex = Some (es, d) \<Longrightarrow> (es = [] \<or> es = ''-'' \<or> es = ''+'') \<and> all_digits d \<and> d \<noteq> []"
  shows "reNumber (sign @ I @ fraction_text F @ exponent_text ex) =
    Some \<lparr>nm_sign = sign, nm_integer = I, nm_fraction = (if F = [] then None else Some F), nm_exponent = ex\<rparr>"
proof -
  have s: "matchSign (sign @ I @ fraction_text F @ exponent_text ex) = (sign, I @ fraction_text F @ exponent_text ex)"
    using matchSign_text assms(1,2) integer_text_digits by blast
  have "not_digit_start (fraction_text F @ exponent_text ex)"
    using exponent_text_start(1) [of ex]
    by (auto simp: fraction_text_def not_digit_start_def is_digit_def char_digit_def)
  then have i: "matchInteger (I @ fraction_text F @ exponent_text ex) = Some (I, fraction_text F @ exponent_text ex)"
    by (rule matchInteger_text [OF assms(2)])
  show ?thesis
    by (simp add: reNumber_def s i matchFraction_text [OF assms(3) exponent_text_start] matchExponent_text [OF assms(4)])
qed

section \<open>Reading canonical amounts\<close>

lemma growMantissa_scale:
  assumes "m * 10 ^ j = v" "1000000000000000 \<le> v" "v \<le> 9999999999999999" "cMinOffset \<le> off - int j"
  shows "growMantissa (of_nat m) off = (of_nat v, off - int j)"
  using assms
proof (induction j arbitrary: m off)
  case 0
  then have "\<not> (of_nat m :: u64) < cMinValue" by (simp add: cMinValue_def word_less_nat_alt unat_of_nat)
  then show ?case using 0 by (simp add: growMantissa.simps)
next
  case (Suc j)
  have e: "(m * 10) * 10 ^ j = v" using Suc.prems(1) by simp
  have "m * 10 \<le> v" unfolding e [symmetric] by simp
  then have "m < 1000000000000000" using Suc.prems(3) by simp
  then have "(of_nat m :: u64) < cMinValue" by (simp add: cMinValue_def word_less_nat_alt unat_of_nat)
  moreover have "off > cMinOffset" using Suc.prems(4) by simp
  ultimately have "growMantissa (of_nat m) off = growMantissa (of_nat (m * 10)) (off - 1)"
    by (subst growMantissa.simps) simp
  then show ?case using Suc.IH [OF e] Suc.prems by simp
qed

lemma canonicalize_scale:
  assumes "st_wf a" "\<not> sa_native a" "sa_value a \<noteq> 0" "sa_value a \<le> 9999999999999999"
    and "m * 10 ^ j = unat (sa_value a)" "off - int j = sa_offset a"
  shows "st_make (sa_issue a) (of_nat m) off (sa_negative a) = Inr a"
proof -
  let ?v = "unat (sa_value a)"
  have w: "cMinValue \<le> sa_value a" "cMinOffset \<le> sa_offset a" "\<not> isCSC (is_currency (sa_issue a))"
    using assms(1-3) by (auto simp: st_wf_def)
  have v: "1000000000000000 \<le> ?v" "?v \<le> 9999999999999999"
    using w(1) assms(4) by (simp_all add: cMinValue_def word_le_nat_alt)
  have "growMantissa (of_nat m) off = (of_nat ?v, sa_offset a)"
    using growMantissa_scale [OF assms(5) v] w(2) assms(6) by simp
  then have g: "growMantissa (of_nat m) off = (sa_value a, sa_offset a)" by simp
  have "\<not> cMaxValue < sa_value a" "sa_value a \<le> cMaxValue" "sa_offset a \<le> cMaxOffset"
    using assms(1-3) by (auto simp: st_wf_def)
  then have s: "shrinkMantissa (sa_value a) (sa_offset a) = Inr (sa_value a, sa_offset a)"
    "\<not> sa_offset a < cMinOffset" "\<not> sa_value a < cMinValue" "\<not> cMaxOffset < sa_offset a" "sa_value a \<le> cMaxValue"
    using w by (simp_all add: shrinkMantissa.simps [of "sa_value a"] leD)
  have "(of_nat m :: u64) \<noteq> 0"
  proof
    assume "(of_nat m :: u64) = 0"
    then have "growMantissa (0 :: u64) off = (sa_value a, sa_offset a)" using g by simp
    moreover have "fst (growMantissa (0 :: u64) off) = 0" for off
      by (induction "0 :: u64" off rule: growMantissa.induct) (subst growMantissa.simps, simp)
    ultimately show False using assms(3) by (metis fst_conv)
  qed
  then have "st_make (sa_issue a) (of_nat m) off (sa_negative a) =
      Inr (st_unchecked (sa_issue a) (sa_value a) (sa_offset a) False (sa_negative a))"
    using w g s assms(3) by (simp add: st_make_def canonicalize_def st_unchecked_def rassert_def linorder_not_less)
  also have "st_unchecked (sa_issue a) (sa_value a) (sa_offset a) False (sa_negative a) = a"
    using assms(2) by (cases a) (simp add: st_unchecked_def)
  finally show ?thesis .
qed

lemma lexicalCast_digits:
  assumes "all_digits s" "s \<noteq> []"
  shows "digits_val s < 2 ^ 64 \<Longrightarrow> lexicalCast_u64 s = Inr (digits_val s)"
    "digits_val s < 2 ^ 31 \<Longrightarrow> lexicalCast_int s = Inr (digits_val s)"
  using parseUnsigned_digits [OF _ assms, of "2 ^ 64 - 1"] parseSigned_digits [OF _ assms, of "2 ^ 31 - 1"]
  by (simp_all add: lexicalCast_u64_def lexicalCast_int_def)

lemma amountFromString_text:
  assumes "sign = [] \<or> sign = ''-''" "integer_text I" "all_digits F" "length I + length F \<le> 32"
    and "F \<noteq> [] \<longrightarrow> \<not> isCSC (is_currency iss)" "digits_val (I @ F) < 2 ^ 64" "\<bar>off\<bar> < 2 ^ 31"
  shows "amountFromString iss (sign @ I @ fraction_text F @ (if off = 0 then [] else CHR ''e'' # to_string off)) =
    st_make iss (word_of_int (digits_val (I @ F))) (off - int (length F)) (sign = ''-'')"
proof -
  define ex where "ex = (if off = 0 then None else if off < 0 then Some (''-'', decimal (nat (- off)))
    else Some ([], decimal (nat off)))"
  have t: "(if off = 0 then [] else CHR ''e'' # to_string off) = exponent_text ex"
    by (simp add: ex_def exponent_text_def to_string_def)
  have e: "(case ex of None \<Rightarrow> Inr 0 | Some (s, d) \<Rightarrow>
      rbind (lexicalCast_int d) (\<lambda>e. Inr (if s = ''-'' then - e else e))) = Inr off"
    using assms(7) lexicalCast_digits(2) [of "decimal (nat \<bar>off\<bar>)"] by (auto simp: ex_def)
  have n: "reNumber (sign @ I @ fraction_text F @ exponent_text ex) =
      Some \<lparr>nm_sign = sign, nm_integer = I, nm_fraction = (if F = [] then None else Some F), nm_exponent = ex\<rparr>"
    using assms(1) by (intro reNumber_text [OF _ assms(2,3)]) (auto simp: ex_def split: if_splits)
  have f: "(case (if F = [] then None else Some F) of None \<Rightarrow> [] | Some f \<Rightarrow> f) = F" by simp
  have "all_digits (I @ F)" "I @ F \<noteq> []" using integer_text_digits [OF assms(2)] assms(3) by auto
  from lexicalCast_digits(1) [OF this assms(6)]
  have "lexicalCast_u64 (I @ F) = Inr (digits_val (I @ F))" .
  then show ?thesis unfolding t amountFromString_def n option.case number_match.simps f Let_def e
    using assms(4,5) by (simp add: algebra_simps)
qed

lemma to_string_text:
  assumes "0 < i"
  shows "integer_text (to_string i)" "all_digits (to_string i)" "digits_val (to_string i) = i"
proof -
  have "char_digit (hd (decimal (nat i))) \<noteq> 0" using assms by (intro decimal_hd) simp
  then have "hd (decimal (nat i)) \<noteq> CHR ''0''" by auto
  then show "integer_text (to_string i)" using assms by (simp add: integer_text_def to_string_def)
qed (use assms in \<open>simp_all add: to_string_def\<close>)

lemma to_string_length16:
  assumes "1000000000000000 \<le> i" "i \<le> 9999999999999999"
  shows "length (to_string i) = 16"
proof -
  let ?l = "length (decimal (nat i))"
  have p: "10 ^ (?l - 1) \<le> nat i" "nat i < 10 ^ ?l" using decimal_length [of "nat i"] assms by simp_all
  have "nat i < 10 ^ 16" "10 ^ 15 \<le> nat i" using assms by simp_all
  then have "(10::nat) ^ (?l - 1) < 10 ^ 16" "(10::nat) ^ 15 < 10 ^ ?l" using p by linarith+
  then have "?l - 1 < 16" "15 < ?l" by (simp_all only: power_strict_increasing_iff)
  then show ?thesis using assms by (simp add: to_string_def)
qed

section \<open>Round trip\<close>

lemma getText_issued:
  assumes "st_wf a" "\<not> sa_native a" "sa_value a \<noteq> 0" "sa_value a \<le> 9999999999999999"
  shows "\<exists>s. getText a = Inr s \<and> amountFromString (sa_issue a) s = Inr a"
proof -
  let ?v = "uint (sa_value a)"
  let ?raw = "to_string ?v"
  let ?sign = "if sa_negative a then ''-'' else []"
  have w: "cMinValue \<le> sa_value a" "cMinOffset \<le> sa_offset a" "sa_offset a \<le> cMaxOffset" "\<not> isCSC (is_currency (sa_issue a))"
    using assms(1-3) by (auto simp: st_wf_def)
  have v: "1000000000000000 \<le> ?v" "?v \<le> 9999999999999999"
    using w(1) assms(4) by (simp_all add: cMinValue_def word_le_def)
  then have "0 < ?v" by simp
  note ts = to_string_text [OF this]
  have len: "length ?raw = 16" using v by (rule to_string_length16)
  have nz: "\<not> st_isZero a" using assms(3) by (simp add: st_isZero_def st_signum_def)
  have neg: "(?sign = ''-'') = sa_negative a" by simp
  have mk: "st_make (sa_issue a) (word_of_int m) off (sa_negative a) = Inr a"
    if "m * 10 ^ j = ?v" "off - int j = sa_offset a" "0 \<le> m" for m j off
  proof -
    have "nat m * 10 ^ j = unat (sa_value a)"
      using arg_cong [OF that(1), of nat] that(3) by (simp add: nat_mult_distrib nat_power_eq)
    from canonicalize_scale [OF assms this that(2)] show ?thesis using that(3) by simp
  qed
  show ?thesis
  proof (cases "scientific (sa_offset a)")
    case True
    then have o: "sa_offset a \<noteq> 0" by (simp add: scientific_def)
    have "amountFromString (sa_issue a) (?sign @ ?raw @ CHR ''e'' # to_string (sa_offset a)) =
      st_make (sa_issue a) (word_of_int ?v) (sa_offset a) (?sign = ''-'')"
      using amountFromString_text [of ?sign ?raw "[]" "sa_issue a" "sa_offset a"] ts len v w(2,3) o
      by (simp add: cMinOffset_def cMaxOffset_def fraction_text_def)
    also have "\<dots> = Inr a" using mk [of ?v 0 "sa_offset a"] unfolding neg by simp
    finally show ?thesis using True o nz by (simp add: getText_def)
  next
    case False
    then have o: "- 43 < sa_offset a" "sa_offset a \<le> 0" "nat (- sa_offset a) \<le> 25" by (auto simp: scientific_def)
    obtain I F j where p: "plainText ?raw (sa_offset a) = I @ (if F = [] then [] else CHR ''.'' # F)"
      "I = ''0'' \<or> I \<noteq> [] \<and> all_digits I \<and> hd I \<noteq> CHR ''0''" "all_digits F"
      "digits_val (I @ F) * 10 ^ j = digits_val ?raw" "- int (length F) - int j = sa_offset a"
      "length I + length F \<le> max 16 (1 + nat (- sa_offset a))"
      by (rule plainText_parts [OF len ts(2) o(1,2)])
    have I: "integer_text I" using p(2) by (simp add: integer_text_def)
    have nn: "0 \<le> digits_val (I @ F)" using integer_text_digits [OF I] p(3) by (intro digits_val_nonneg) simp
    have "digits_val (I @ F) * 1 \<le> digits_val (I @ F) * 10 ^ j" using nn by (intro mult_left_mono) auto
    then have small: "digits_val (I @ F) < 2 ^ 64" using p(4) ts(3) v by simp
    have "length I + length F \<le> 32" using p(6) o(3) by simp
    then have "amountFromString (sa_issue a) (?sign @ I @ fraction_text F) =
      st_make (sa_issue a) (word_of_int (digits_val (I @ F))) (0 - int (length F)) (?sign = ''-'')"
      using amountFromString_text [OF _ I p(3), of ?sign "sa_issue a" 0] small w(4) by simp
    also have "\<dots> = Inr a"
      using mk [of "digits_val (I @ F)" j "0 - int (length F)"] p(4,5) nn ts(3) unfolding neg by simp
    finally show ?thesis
      using False nz assms(2) p(1) o(1) by (simp add: getText_def fraction_text_def rassert_def)
  qed
qed

lemma getText_native:
  assumes "st_wf a" "sa_native a" "sa_value a = 0 \<longrightarrow> \<not> sa_negative a"
  shows "\<exists>s. getText a = Inr s \<and> amountFromString (sa_issue a) s = Inr a"
proof (cases "sa_value a = 0")
  case True
  have "amountFromString (sa_issue a) ''0'' = st_make (sa_issue a) 0 0 False"
    using amountFromString_text [of "[]" "''0''" "[]" "sa_issue a" 0] by (simp add: integer_text_def fraction_text_def)
  also have "\<dots> = Inr a"
    using assms True by (cases a) (auto simp: st_wf_def st_make_def canonicalize_def st_unchecked_def)
  finally show ?thesis using True by (simp add: getText_def st_isZero_def st_signum_def)
next
  case False
  let ?v = "uint (sa_value a)"
  let ?sign = "if sa_negative a then ''-'' else []"
  have w: "sa_offset a = 0" "sa_value a \<le> cMaxNativeN" "isCSC (is_currency (sa_issue a))"
    using assms False by (auto simp: st_wf_def)
  have "?v \<noteq> 0" using False by (simp add: uint_0_iff)
  then have v: "0 < ?v" "?v < 10 ^ 32" using w(2) uint_ge_0 [of "sa_value a"]
    by (simp_all add: cMaxNativeN_def word_le_def order_less_le)
  note ts = to_string_text [OF v(1)]
  have "nat ?v \<le> 4000000000000000000" "0 < nat ?v"
    using w(2) v(1) by (simp_all add: cMaxNativeN_def word_le_nat_alt del: nat_uint_eq) (simp add: word_le_nat_alt)
  then have "(10::nat) ^ (length (to_string ?v) - 1) < 10 ^ 32"
    using decimal_length [of "nat ?v"] by (simp add: to_string_def)
  then have "length (to_string ?v) - 1 < 32" by (simp only: power_strict_increasing_iff)
  then have "length (to_string ?v) \<le> 32" by simp
  then have "amountFromString (sa_issue a) (?sign @ to_string ?v) =
      canonicalize (st_unchecked (sa_issue a) (sa_value a) 0 False (sa_negative a))"
    using amountFromString_text [of ?sign "to_string ?v" "[]" "sa_issue a" 0] ts w(2)
    by (simp add: fraction_text_def cMaxNativeN_def word_le_def st_make_def)
  also have "\<dots> = canonicalize a"
    using w assms(2) by (cases a) (simp add: canonicalize_def st_unchecked_def split: prod.split)
  finally show ?thesis using canonicalize_id [OF assms(1) False] False assms(2) w(1)
    by (simp add: getText_def st_isZero_def st_signum_def scientific_def fraction_text_def)
qed

lemma iou_text_agrees:
  assumes "iou_wf a" "iou_mantissa a \<noteq> 0"
    and "sa_value b = word_of_int \<bar>iou_mantissa a\<bar>" "sa_offset b = iou_exponent a"
      "sa_negative b = (iou_mantissa a < 0)" "\<not> sa_native b"
  shows "getText b = iou_to_string a"
proof -
  have w: "minMantissa \<le> \<bar>iou_mantissa a\<bar>" "\<bar>iou_mantissa a\<bar> \<le> maxMantissa"
    using assms(1,2) by (auto simp: iou_wf_def iou_zero_def)
  then have u: "uint (sa_value b) = \<bar>iou_mantissa a\<bar>"
    unfolding assms(3) by (subst uint_word_of_int_eq) (simp add: take_bit_int_eq_self iou_params)
  then have "sa_value b \<noteq> 0" using assms(2) by auto
  then have "\<not> st_isZero b" by (simp add: st_isZero_def st_signum_def)
  moreover have "iou_exponent a + 43 > 0" if "\<not> scientific (iou_exponent a)"
    using that by (auto simp: scientific_def)
  ultimately show ?thesis
    using assms(2,4-6) u by (auto simp: getText_def iou_to_string_def iou_signum_def to_string_def rassert_def)
qed

text \<open>
  C29: amounts round trip through text. Printing a canonical amount never trips an
  assertion, and parsing the text in terms of the same issue gives the amount back: every
  native amount but negative zero, and every issued amount whose mantissa has the sixteen
  digits that the printer's padding is made for, whether it prints with an exponent or
  with a decimal point.
\<close>

theorem text_roundtrip:
  assumes "st_wf a"
    and "if sa_native a then sa_value a = 0 \<longrightarrow> \<not> sa_negative a else sa_value a \<le> 9999999999999999"
  shows "\<exists>s. getText a = Inr s \<and> amountFromString (sa_issue a) s = Inr a"
proof (cases "sa_native a \<or> sa_value a \<noteq> 0")
  case True
  then show ?thesis using getText_native [of a] getText_issued [of a] assms by (cases "sa_native a") auto
next
  case False
  then have a: "\<not> sa_native a" "sa_value a = 0" "sa_offset a = - 100" "\<not> sa_negative a" "\<not> isCSC (is_currency (sa_issue a))"
    using assms(1) by (auto simp: st_wf_def)
  have "amountFromString (sa_issue a) ''0'' = st_make (sa_issue a) 0 0 False"
    using amountFromString_text [of "[]" "''0''" "[]" "sa_issue a" 0] by (simp add: integer_text_def fraction_text_def)
  also have "\<dots> = Inr a" using a by (cases a) (simp add: st_make_def canonicalize_def st_unchecked_def)
  finally show ?thesis using a by (simp add: getText_def st_isZero_def st_signum_def)
qed

definition sample_issued :: "u64 \<Rightarrow> int \<Rightarrow> st_amount" where
  "sample_issued v off = st_unchecked \<lparr>is_currency = 5, is_account = 9\<rparr> v off False True"

theorem text_roundtrip_witness:
  "\<exists>s. getText (sample_issued 1234500000000000 (- 12)) = Inr s \<and>
     amountFromString \<lparr>is_currency = 5, is_account = 9\<rparr> s = Inr (sample_issued 1234500000000000 (- 12))"
  using text_roundtrip [of "sample_issued 1234500000000000 (- 12)"]
  by (simp add: sample_issued_def st_unchecked_def st_wf_def isCSC_def st_params)

lemma digit_chars: "digit_char 0 = CHR ''0''" "digit_char (Suc 0) = CHR ''1''"
  by code_simp+

text \<open>
  A mantissa of seventeen digits, which \<open>cMaxValue\<close> allows, prints with the decimal
  point one place too far to the left: the canonical amount of a million prints as
  \<open>100000\<close>, which parses to a hundred thousand.
\<close>

lemma long_mantissa_text:
  "\<exists>a b. st_wf a \<and> sa_value a = 10000000000000000 \<and> sa_offset a = - 10 \<and> \<not> sa_native a \<and>
     getText a = Inr ''100000'' \<and> amountFromString (sa_issue a) ''100000'' = Inr b \<and>
     sa_value b = 1000000000000000 \<and> sa_offset b = - 10"
proof -
  let ?i = "\<lparr>is_currency = 5, is_account = 9\<rparr>"
  let ?a = "st_unchecked ?i 10000000000000000 (- 10) False False"
  let ?b = "st_unchecked ?i 1000000000000000 (- 10) False False"
  have w: "st_wf ?a" by (simp add: st_unchecked_def st_wf_def isCSC_def st_params)
  have "to_string 10000000000000000 = ''10000000000000000''"
    by (simp add: to_string_def decimal.simps digit_chars)
  moreover have "plainText ''10000000000000000'' (- 10) = ''100000''" by code_simp
  ultimately have t: "getText ?a = Inr ''100000''"
    by (simp add: getText_def st_isZero_def st_signum_def st_unchecked_def scientific_def rassert_def)
  have "integer_text ''100000''" "digits_val ''100000'' = 100000"
    by (simp_all add: integer_text_def is_digit_def char_digit_def)
  then have "amountFromString ?i ''100000'' = st_make ?i 100000 0 False"
    using amountFromString_text [of "[]" "''100000''" "[]" ?i 0] by (simp add: fraction_text_def)
  then have "amountFromString ?i ''100000'' = Inr ?b"
    by (simp add: st_make_def canonicalize_def st_unchecked_def isCSC_def growMantissa.simps shrinkMantissa.simps
        st_params rassert_def)
  then show ?thesis using w t by (intro exI [of _ ?a] exI [of _ ?b]) (simp add: st_unchecked_def)
qed

end
