(* ===== verification/AmountArith.thy ===== *)
theory AmountArith
  imports AmountText
begin

text \<open>
  What the arithmetic on amounts does to the numbers they stand for: every operation ends
  in a canonical amount or an exception, directed rounding rounds in the direction asked
  for, and the order of amounts and of packed rates is that of the numbers, as long as
  mantissas have the sixteen digits the code was written for.
\<close>

section \<open>Canonical results\<close>

definition thrown :: "error set" where
  "thrown = range Thrown"

lemma Thrown_thrown [simp]: "Thrown msg \<in> thrown"
  by (simp add: thrown_def)

lemma shrinkMantissa_ok: "rok thrown (\<lambda>(v, off). v \<le> cMaxValue) (shrinkMantissa v off)"
proof (induction v off rule: shrinkMantissa.induct)
  case (1 v off)
  show ?case
    using 1 by (subst shrinkMantissa.simps) (auto simp: linorder_not_less)
qed

lemma canonicalize_ok: "rok thrown (\<lambda>b. st_wf b \<and> sa_issue b = sa_issue a) (canonicalize a)"
proof (cases "canonicalize a")
  case (Inr b)
  then show ?thesis using canonicalize_wf [OF Inr] by simp
next
  case (Inl e)
  have "e \<in> thrown"
  proof (cases "isCSC (is_currency (sa_issue a)) \<or> sa_value a = 0")
    case True
    then show ?thesis using Inl by (auto simp: canonicalize_def split: prod.splits if_splits)
  next
    case False
    obtain v1 o1 where g: "growMantissa (sa_value a) (sa_offset a) = (v1, o1)" by (rule prod.exhaust)
    show ?thesis
    proof (cases "shrinkMantissa v1 o1")
      case s: (Inl e')
      then show ?thesis using Inl False g shrinkMantissa_ok [of v1 o1] by (simp add: canonicalize_def)
    next
      case s: (Inr x)
      then show ?thesis using Inl False g shrinkMantissa_ok [of v1 o1]
        by (auto simp: canonicalize_def rassert_def linorder_not_less split: if_splits)
    qed
  qed
  then show ?thesis by (simp add: Inl)
qed

lemma st_make_ok: "rok thrown (\<lambda>b. st_wf b \<and> sa_issue b = i) (st_make i m e n)"
  using canonicalize_ok [of "st_unchecked i m e False n"] by (simp add: st_make_def st_unchecked_def)

lemma st_zero_ok: "rok thrown (\<lambda>b. st_wf b \<and> sa_issue b = i) (st_zero i)"
  by (simp add: st_zero_def st_make_ok)

text \<open>The loop on native mantissas ends and scales exactly.\<close>

lemma bringIntoRange_total:
  assumes "v \<noteq> 0"
  shows "\<exists>j. bringIntoRange v off = Some (of_nat (unat v * 10 ^ j), off - int j) \<and>
    10 ^ 15 \<le> unat v * 10 ^ j \<and> unat v * 10 ^ j < 2 ^ 64 \<and> (j = 0 \<or> unat v * 10 ^ j < 10 ^ 16)"
  using assms
proof (induction "10 ^ 15 - unat v" arbitrary: v off rule: less_induct)
  case less
  show ?case
  proof (cases "v < cMinValue")
    case False
    then have "10 ^ 15 \<le> unat v" by (simp add: cMinValue_def word_less_nat_alt)
    moreover have "bringIntoRange v off = Some (v, off)" using False by (simp add: bringIntoRange.simps)
    moreover have "unat v < 2 ^ 64" using unsigned_less [of v, where ?'a = nat] by simp
    ultimately show ?thesis by (intro exI [of _ 0]) simp
  next
    case True
    then have s: "unat v < 10 ^ 15" by (simp add: cMinValue_def word_less_nat_alt)
    have p: "0 < unat v" using less.prems by (simp add: unat_gt_0)
    have m: "unat (v * 10) = unat v * 10" using s by (simp add: unat_mult_lem [THEN iffD1])
    then have nz: "v * 10 \<noteq> 0" using p by (metis mult_is_0 unat_0 unat_gt_0 zero_neq_numeral)
    have "10 ^ 15 - unat (v * 10) < 10 ^ 15 - unat v" using s p m by simp
    from less.hyps [OF this nz, of "off - 1"] obtain j where
      j: "bringIntoRange (v * 10) (off - 1) = Some (of_nat (unat (v * 10) * 10 ^ j), off - 1 - int j)"
        "10 ^ 15 \<le> unat (v * 10) * 10 ^ j" "unat (v * 10) * 10 ^ j < 2 ^ 64"
        "j = 0 \<or> unat (v * 10) * 10 ^ j < 10 ^ 16" by blast
    have "bringIntoRange v off = bringIntoRange (v * 10) (off - 1)"
      using True by (subst bringIntoRange.simps) simp
    then show ?thesis using j s m by (intro exI [of _ "Suc j"]) (auto simp: algebra_simps)
  qed
qed

lemma bringNative_ok: "sa_value a \<noteq> 0 \<Longrightarrow> rok thrown (\<lambda>_. True) (bringNative a)"
  using bringIntoRange_total [of "sa_value a" "sa_offset a"] by (auto simp: bringNative_def)

lemma muldiv_ok: "rok thrown (\<lambda>_. True) (muldiv x y z)" "rok thrown (\<lambda>_. True) (muldiv_round x y z r)"
  by (simp_all add: muldiv_def muldiv_round_def Let_def)

lemma nonzero_value: "\<not> st_isZero a \<Longrightarrow> sa_value a \<noteq> 0"
  by (auto simp: st_isZero_def st_signum_def)

lemma rok_if: "(c \<Longrightarrow> rok E P x) \<Longrightarrow> (\<not> c \<Longrightarrow> rok E P y) \<Longrightarrow> rok E P (if c then x else y)"
  by simp

lemma rok_prod: "(\<And>x y. p = (x, y) \<Longrightarrow> rok E P (f x y)) \<Longrightarrow> rok E P (case p of (x, y) \<Rightarrow> f x y)"
  by (cases p) simp

lemma roundResult_ok: "rok thrown (\<lambda>b. st_wf b \<and> sa_issue b = i) (roundResult so so2 i up neg amount off)"
  unfolding roundResult_def Let_def
  by (intro rok_prod rok_bind [OF st_make_ok] rok_if st_make_ok) simp

lemma mulNative_ok: "sa_native a \<Longrightarrow> sa_native b \<Longrightarrow> rok thrown (\<lambda>_. True) (mulNative a b)"
  by (simp add: mulNative_def getSNValue_def Let_def)

lemmas st_op_rules = rok_bind [OF bringNative_ok] rok_bind [OF muldiv_ok(1)] rok_bind [OF muldiv_ok(2)]

lemma st_divide_ok: "rok thrown (\<lambda>r. st_wf r \<and> sa_issue r = i) (st_divide a b i)"
  unfolding st_divide_def
  by (intro rok_prod st_op_rules rok_if st_make_ok st_zero_ok nonzero_value; simp)

lemma divRound_ok: "rok thrown (\<lambda>r. st_wf r \<and> sa_issue r = i) (divRound so so2 a b i up)"
  unfolding divRound_def Let_def
  by (intro rok_prod st_op_rules rok_if roundResult_ok st_zero_ok nonzero_value; simp)

lemma st_multiply_ok:
  "\<not> (sa_native a \<and> sa_native b \<and> isCSC (is_currency i)) \<Longrightarrow>
     rok thrown (\<lambda>r. st_wf r \<and> sa_issue r = i) (st_multiply a b i)"
  unfolding st_multiply_def
  by (intro rok_prod st_op_rules rok_if st_make_ok st_zero_ok nonzero_value; simp)

lemma mulRound_ok:
  "\<not> (sa_native a \<and> sa_native b \<and> isCSC (is_currency i)) \<Longrightarrow>
     rok thrown (\<lambda>r. st_wf r \<and> sa_issue r = i) (mulRound so so2 a b i up)"
  unfolding mulRound_def Let_def
  by (intro rok_prod st_op_rules rok_if roundResult_ok st_zero_ok nonzero_value; simp)

lemma st_add_ok:
  assumes "st_wf a"
  shows "rok thrown (\<lambda>r. sa_native a \<or> st_wf r \<and> sa_issue r = sa_issue a) (st_add a b)"
proof -
  have m: "rok thrown (\<lambda>r. sa_native a \<or> st_wf r \<and> sa_issue r = sa_issue a) (st_make (sa_issue a) v e n)" for v e n
    by (rule rok_mono [OF st_make_ok]) auto
  have z: "rok thrown (\<lambda>r. sa_native a \<or> st_wf r \<and> sa_issue r = sa_issue a) (st_zero (sa_issue a))"
    by (rule rok_mono [OF st_zero_ok]) auto
  show ?thesis
    unfolding st_add_def Let_def
    by (intro rok_prod rok_if m z; use assms in \<open>simp add: areComparable_def getSNValue_def\<close>)
qed

section \<open>The number an amount stands for\<close>

definition st_val :: "st_amount \<Rightarrow> real" where
  "st_val a = (if sa_negative a then - 1 else 1) * (of_int (uint (sa_value a)) * 10 powi sa_offset a)"

lemma st_val_abs: "\<bar>st_val a\<bar> = of_int (uint (sa_value a)) * 10 powi sa_offset a"
  by (simp add: st_val_def abs_mult del: of_int_uint)

text \<open>An operand whose mantissa has sixteen digits at most, and is not zero.\<close>

definition st_operand :: "st_amount \<Rightarrow> bool" where
  "st_operand a \<longleftrightarrow> st_wf a \<and> sa_value a \<noteq> 0 \<and> sa_value a \<le> 9999999999999999"

lemma bringNative_spec:
  assumes "st_operand a"
  obtains v off where "bringNative a = Inr (v, off)" "1000000000000000 \<le> uint v" "uint v \<le> 9999999999999999"
    "of_int (uint v) * 10 powi off = \<bar>st_val a\<bar>"
proof (cases "sa_native a")
  case False
  then have "cMinValue \<le> sa_value a" using assms by (auto simp: st_operand_def st_wf_def)
  then show ?thesis
    using False assms that [of "sa_value a" "sa_offset a"]
    by (simp add: bringNative_def st_val_abs st_operand_def cMinValue_def word_le_def)
next
  case True
  from assms obtain j where j: "bringIntoRange (sa_value a) (sa_offset a) =
      Some (of_nat (unat (sa_value a) * 10 ^ j), sa_offset a - int j)"
    "10 ^ 15 \<le> unat (sa_value a) * 10 ^ j" "unat (sa_value a) * 10 ^ j < 2 ^ 64"
    "j = 0 \<or> unat (sa_value a) * 10 ^ j < 10 ^ 16"
    using bringIntoRange_total [of "sa_value a" "sa_offset a"] by (auto simp: st_operand_def)
  let ?n = "unat (sa_value a) * 10 ^ j"
  let ?v = "of_nat ?n :: u64"
  have "int ?n < int (2 ^ 64)" using j(3) by (simp only: of_nat_less_iff)
  then have "int ?n < 2 ^ 64" by simp
  moreover have "?v = word_of_int (int ?n)" by (simp only: of_int_of_nat_eq)
  ultimately have u: "uint ?v = int ?n"
    by (simp only: uint_word_of_int_eq, intro take_bit_int_eq_self) simp_all
  have hi: "?n \<le> 9999999999999999" using j(4) assms by (auto simp: st_operand_def word_le_nat_alt)
  have "of_int (uint ?v) * (10::real) powi (sa_offset a - int j) = \<bar>st_val a\<bar>"
    unfolding u st_val_abs by (simp add: power_int_diff)
  moreover have "int (10 ^ 15) \<le> int ?n" "int ?n \<le> int 9999999999999999"
    using j(2) hi by (simp_all only: of_nat_le_iff)
  then have "1000000000000000 \<le> uint ?v" "uint ?v \<le> 9999999999999999" unfolding u by simp_all
  moreover have "bringNative a = Inr (?v, sa_offset a - int j)" using True j(1) by (simp add: bringNative_def)
  ultimately show ?thesis by (intro that)
qed

lemma div_towards:
  fixes p d A :: int
  assumes "0 < d" "A = (p + (if away then d - 1 else 0)) div d"
  shows "if away then of_int p / of_int d \<le> (of_int A :: real) \<and> of_int A < (of_int p / of_int d + 1 :: real)
         else of_int p / of_int d - 1 < (of_int A :: real) \<and> of_int A \<le> (of_int p / of_int d :: real)"
proof (cases away)
  case True
  have "A * d + (p + d - 1) mod d = p + d - 1" using assms(2) True div_mult_mod_eq [of "p + d - 1" d] by (simp add: algebra_simps)
  then have "p \<le> A * d" "A * d < p + d"
    using pos_mod_bound [OF assms(1), of "p + d - 1"] pos_mod_sign [OF assms(1), of "p + d - 1"] by linarith+
  then have "(of_int p :: real) \<le> of_int (A * d)" "(of_int (A * d) :: real) < of_int (p + d)"
    by (simp_all only: of_int_le_iff of_int_less_iff)
  then show ?thesis using True assms(1) by (simp add: field_simps)
next
  case False
  have "A * d + p mod d = p" using assms(2) False div_mult_mod_eq [of p d] by simp
  then have "A * d \<le> p" "p < A * d + d"
    using pos_mod_bound [OF assms(1), of p] pos_mod_sign [OF assms(1), of p] by linarith+
  then have "(of_int (A * d) :: real) \<le> of_int p" "(of_int p :: real) < of_int (A * d + d)"
    by (simp_all only: of_int_le_iff of_int_less_iff)
  then show ?thesis using False assms(1) by (simp add: field_simps)
qed

lemma muldiv_round_exact:
  assumes "z \<noteq> 0" "(uint x * uint y + uint r) div uint z < 2 ^ 64"
  shows "muldiv_round x y z r = Inr (word_of_int ((uint x * uint y + uint r) div uint z))"
proof -
  have e: "int ((unat x * unat y + unat r) div unat z) = (uint x * uint y + uint r) div uint z"
    by (simp add: zdiv_int)
  then have "int ((unat x * unat y + unat r) div unat z) < int (2 ^ 64)" using assms(2) by simp
  then have "(unat x * unat y + unat r) div unat z < 2 ^ 64" by (simp only: of_nat_less_iff)
  then show ?thesis using assms(1) e by (simp add: muldiv_round_def Let_def) (metis of_int_of_nat_eq)
qed

lemma st_make_id:
  assumes "1000000000000000 \<le> A" "A \<le> 3999999999999999999" "- 96 \<le> off" "off \<le> 80" "\<not> isCSC (is_currency i)"
  shows "st_make i (word_of_int A) off neg = Inr (st_unchecked i (word_of_int A) off False neg)"
    "st_wf (st_unchecked i (word_of_int A) off False neg)" "uint (word_of_int A :: u64) = A"
proof -
  have u: "uint (word_of_int A :: u64) = A"
    using assms(1,2) by (subst uint_word_of_int_eq) (simp add: take_bit_int_eq_self)
  then have nz: "(word_of_int A :: u64) \<noteq> 0" using assms(1) by auto
  show w: "st_wf (st_unchecked i (word_of_int A) off False neg)"
    using assms nz u by (simp add: st_wf_def st_unchecked_def st_params word_le_def)
  show "st_make i (word_of_int A) off neg = Inr (st_unchecked i (word_of_int A) off False neg)"
    using canonicalize_id [OF w] nz by (simp add: st_make_def st_unchecked_def)
  show "uint (word_of_int A :: u64) = A" by (rule u)
qed

lemma roundResult_exact:
  assumes "1000000000000000 \<le> A" "A \<le> 3999999999999999999" "- 96 \<le> off" "off \<le> 80" "\<not> isCSC (is_currency i)"
  shows "roundResult so so2 i up neg (word_of_int A) off = Inr (st_unchecked i (word_of_int A) off False neg)"
proof -
  note m = st_make_id [OF assms]
  have nz: "(word_of_int A :: u64) \<noteq> 0" using assms(1) m(3) by auto
  have "\<not> (word_of_int A :: u64) > cMaxValue" using assms(2) m(3) by (simp add: cMaxValue_def word_less_def)
  then have c: "canonicalizeRound False (word_of_int A) off = (word_of_int A, off)"
    by (simp add: canonicalizeRound_def)
  have "\<not> st_isZero (st_unchecked i (word_of_int A) off False n)" for n
    using nz by (simp add: st_isZero_def st_signum_def st_unchecked_def)
  then show ?thesis using assms(5) c m(1) by (simp add: roundResult_def Let_def)
qed

section \<open>Directed rounding\<close>

text \<open>The result \<open>r\<close> is \<open>x\<close> rounded up, or down, by less than one unit in the last place.\<close>

definition rounded :: "bool \<Rightarrow> real \<Rightarrow> issue \<Rightarrow> st_amount \<Rightarrow> bool" where
  "rounded up x i r \<longleftrightarrow> st_wf r \<and> sa_issue r = i \<and> (if up then x \<le> st_val r else st_val r \<le> x) \<and>
     \<bar>st_val r - x\<bar> < 10 powi sa_offset r"

text \<open>The numbers whose rounding neither underflows nor overflows.\<close>

definition st_range :: "real \<Rightarrow> bool" where
  "st_range x \<longleftrightarrow> 10 powi (- 78) \<le> \<bar>x\<bar> \<and> \<bar>x\<bar> < 10 powi 96"

lemma ten_powi_not_le: "\<not> (10::real) powi e \<le> 0"
  using ten_powi_pos [of e] by linarith

lemma ten_powi_less_iff: "(10::real) powi e < 10 powi f \<longleftrightarrow> e < f"
proof (cases "e < f")
  case True
  then show ?thesis using power_int_strict_increasing [OF True, of "10::real"] by simp
next
  case False
  then show ?thesis using ten_powi_mono [of f e] by simp
qed

lemma round_core:
  fixes p d A off :: int and x :: real
  assumes d: "0 < d" and A: "A = (p + (if neg \<noteq> up then d - 1 else 0)) div d"
    and lo: "10 ^ 16 * d \<le> p" and hi: "p < 10 ^ 18 * d"
    and x: "x = (if neg then - 1 else 1) * (of_int p / of_int d * 10 powi off)" and r: "st_range x"
    and i: "\<not> isCSC (is_currency i)"
  shows "\<exists>r. roundResult so so2 i up neg (word_of_int A) off = Inr r \<and> rounded up x i r"
proof -
  define q where "q = (of_int p / of_int d :: real)"
  have q: "10 ^ 16 \<le> q" "q < 10 ^ 18" "0 < q"
  proof -
    have "(of_int (10 ^ 16 * d) :: real) \<le> of_int p" "(of_int p :: real) < of_int (10 ^ 18 * d)"
      using lo hi by (simp_all only: of_int_le_iff of_int_less_iff)
    then show "10 ^ 16 \<le> q" "q < 10 ^ 18" using d by (simp_all add: q_def field_simps)
    then show "0 < q" by simp
  qed
  have ax: "\<bar>x\<bar> = q * 10 powi off" unfolding x q_def [symmetric] using q(3) by (simp add: abs_mult)
  have dt: "if neg \<noteq> up then q \<le> of_int A \<and> of_int A < q + 1 else q - 1 < of_int A \<and> of_int A \<le> q"
    using div_towards [OF d A] unfolding q_def .
  have "A \<le> 10 ^ 18" "10 ^ 16 - 1 \<le> A"
  proof -
    have "of_int A < (1000000000000000001 :: real)" "(9999999999999998 :: real) < of_int A"
      using dt q by (auto split: if_splits)
    then have "A < 1000000000000000001" "9999999999999998 < A" by simp_all
    then show "A \<le> 10 ^ 18" "10 ^ 16 - 1 \<le> A" by simp_all
  qed
  moreover have "- 96 \<le> off"
  proof -
    have "(10::real) powi (- 78) \<le> q * 10 powi off" using r ax by (simp add: st_range_def)
    also have "\<dots> < 10 ^ 18 * 10 powi off" using q(2) by (intro mult_strict_right_mono) simp_all
    also have "\<dots> = 10 powi (18 + off)" by (simp add: power_int_add)
    finally show ?thesis unfolding ten_powi_less_iff by simp
  qed
  moreover have "off \<le> 80"
  proof -
    have "(10::real) powi (16 + off) = 10 ^ 16 * 10 powi off" by (simp add: power_int_add)
    also have "\<dots> \<le> q * 10 powi off" using q(1) by (intro mult_right_mono) simp_all
    also have "\<dots> < 10 powi 96" using r ax by (simp add: st_range_def)
    finally show ?thesis unfolding ten_powi_less_iff by simp
  qed
  ultimately have b: "1000000000000000 \<le> A" "A \<le> 3999999999999999999" "- 96 \<le> off" "off \<le> 80" by simp_all
  let ?r = "st_unchecked i (word_of_int A) off False neg"
  have v: "st_val ?r = (if neg then - 1 else 1) * (of_int A * 10 powi off)"
    using st_make_id(3) [OF b i] by (simp add: st_val_def st_unchecked_def del: of_int_uint)
  have e: "st_val ?r - x = (if neg then - 1 else 1) * ((of_int A - q) * 10 powi off)"
    unfolding v x q_def [symmetric] by (simp add: algebra_simps)
  have "\<bar>(of_int A - q) * 10 powi off\<bar> = \<bar>of_int A - q\<bar> * 10 powi off" by (simp add: abs_mult)
  also have "\<dots> < 1 * 10 powi off" using dt by (intro mult_strict_right_mono) (auto split: if_splits)
  finally have "\<bar>st_val ?r - x\<bar> < 10 powi off" unfolding e by (simp add: abs_mult)
  moreover have "if up then x \<le> st_val ?r else st_val ?r \<le> x"
  proof -
    have "0 \<le> (of_int A - q) * 10 powi off \<longleftrightarrow> q \<le> of_int A" "(of_int A - q) * 10 powi off \<le> 0 \<longleftrightarrow> of_int A \<le> q"
      by (simp_all add: zero_le_mult_iff mult_le_0_iff ten_powi_not_le)
    moreover have "x \<le> st_val ?r \<longleftrightarrow> 0 \<le> st_val ?r - x" "st_val ?r \<le> x \<longleftrightarrow> st_val ?r - x \<le> 0" by auto
    ultimately show ?thesis unfolding e using dt by (cases neg; cases up) simp_all
  qed
  ultimately show ?thesis
    using roundResult_exact [OF b i] st_make_id(2) [OF b i]
    by (auto simp: rounded_def st_unchecked_def)
qed

lemma operand_sign:
  assumes "st_operand a" "st_operand b"
  shows "st_val a * st_val b = (if sa_negative a \<noteq> sa_negative b then - 1 else 1) * (\<bar>st_val a\<bar> * \<bar>st_val b\<bar>)"
    "st_val a / st_val b = (if sa_negative a \<noteq> sa_negative b then - 1 else 1) * (\<bar>st_val a\<bar> / \<bar>st_val b\<bar>)"
proof -
  have "0 \<le> (of_int (uint (sa_value c)) :: real) * 10 powi sa_offset c" for c
    by (intro mult_nonneg_nonneg) (simp_all del: of_int_uint)
  then have "st_val c = (if sa_negative c then - 1 else 1) * \<bar>st_val c\<bar>" for c
    by (simp add: st_val_def del: of_int_uint)
  from this [of a] this [of b]
  show "st_val a * st_val b = (if sa_negative a \<noteq> sa_negative b then - 1 else 1) * (\<bar>st_val a\<bar> * \<bar>st_val b\<bar>)"
    "st_val a / st_val b = (if sa_negative a \<noteq> sa_negative b then - 1 else 1) * (\<bar>st_val a\<bar> / \<bar>st_val b\<bar>)"
    by (cases "sa_negative a"; cases "sa_negative b"; simp)+
qed

lemma operand_nonzero: "st_operand a \<Longrightarrow> \<not> st_isZero a"
  by (auto simp: st_operand_def st_isZero_def st_signum_def)

lemma div_fits:
  fixes p d r :: int
  assumes "0 < d" "p < 10 ^ 18 * d" "0 \<le> r" "r < d"
  shows "(p + r) div d < 2 ^ 64"
proof (rule ccontr)
  assume "\<not> ?thesis"
  then have "2 ^ 64 * d \<le> p + r" using int_le_div_iff [of d "2 ^ 64" "p + r"] assms(1) by simp
  then show False using assms by simp
qed

lemma mulRound_rounds:
  assumes "st_operand a" "st_operand b" "\<not> isCSC (is_currency i)" "st_range (st_val a * st_val b)"
  shows "\<exists>r. mulRound so so2 a b i up = Inr r \<and> rounded up (st_val a * st_val b) i r"
proof -
  obtain v1 o1 where 1: "bringNative a = Inr (v1, o1)" "1000000000000000 \<le> uint v1" "uint v1 \<le> 9999999999999999"
    "of_int (uint v1) * 10 powi o1 = \<bar>st_val a\<bar>" by (rule bringNative_spec [OF assms(1)])
  obtain v2 o2 where 2: "bringNative b = Inr (v2, o2)" "1000000000000000 \<le> uint v2" "uint v2 \<le> 9999999999999999"
    "of_int (uint v2) * 10 powi o2 = \<bar>st_val b\<bar>" by (rule bringNative_spec [OF assms(2)])
  let ?neg = "sa_negative a \<noteq> sa_negative b"
  let ?p = "uint v1 * uint v2"
  let ?A = "(?p + (if ?neg \<noteq> up then 10 ^ 14 - 1 else 0)) div 10 ^ 14"
  have lo: "10 ^ 16 * 10 ^ 14 \<le> ?p" using mult_mono [OF 1(2) 2(2)] by simp
  have hi: "?p < 10 ^ 18 * 10 ^ 14" using mult_mono [OF 1(3) 2(3)] by simp
  have c: "uint tenTo14 = 10 ^ 14" "uint tenTo14m1 = 10 ^ 14 - 1" "tenTo14 \<noteq> 0" by (simp_all add: tenTo14_def tenTo14m1_def)
  have r: "uint (if ?neg \<noteq> up then tenTo14m1 else 0) = (if ?neg \<noteq> up then 10 ^ 14 - 1 else 0)"
    by (simp only: c(2) uint_0_eq if_distrib [of uint])
  have "?A < 2 ^ 64" by (rule div_fits [OF _ hi]) simp_all
  then have "muldiv_round v1 v2 tenTo14 (if ?neg \<noteq> up then tenTo14m1 else 0) = Inr (word_of_int ?A)"
    using muldiv_round_exact [OF c(3), of v1 v2 "if ?neg \<noteq> up then tenTo14m1 else 0"] unfolding c(1) r by simp
  then have m: "mulRound so so2 a b i up = roundResult so so2 i up ?neg (word_of_int ?A) (o1 + o2 + 14)"
    using assms(3) operand_nonzero [OF assms(1)] operand_nonzero [OF assms(2)] 1(1) 2(1)
    by (simp add: mulRound_def Let_def)
  have "(10::real) powi (o1 + o2 + 14) = 10 powi o1 * 10 powi o2 * 10 ^ 14" by (simp add: power_int_add)
  then have "\<bar>st_val a\<bar> * \<bar>st_val b\<bar> = of_int ?p / of_int (10 ^ 14) * 10 powi (o1 + o2 + 14)"
    unfolding 1(4) [symmetric] 2(4) [symmetric] by (simp add: field_simps del: of_int_uint)
  then have x: "st_val a * st_val b =
      (if ?neg then - 1 else 1) * (of_int ?p / of_int (10 ^ 14) * 10 powi (o1 + o2 + 14))"
    using operand_sign(1) [OF assms(1,2)] by simp
  show ?thesis unfolding m by (rule round_core [OF _ refl lo hi x assms(4,3)]) simp
qed

lemma divRound_rounds:
  assumes "st_operand a" "st_operand b" "\<not> isCSC (is_currency i)" "st_range (st_val a / st_val b)"
  shows "\<exists>r. divRound so so2 a b i up = Inr r \<and> rounded up (st_val a / st_val b) i r"
proof -
  obtain v1 o1 where 1: "bringNative a = Inr (v1, o1)" "1000000000000000 \<le> uint v1" "uint v1 \<le> 9999999999999999"
    "of_int (uint v1) * 10 powi o1 = \<bar>st_val a\<bar>" by (rule bringNative_spec [OF assms(1)])
  obtain v2 o2 where 2: "bringNative b = Inr (v2, o2)" "1000000000000000 \<le> uint v2" "uint v2 \<le> 9999999999999999"
    "of_int (uint v2) * 10 powi o2 = \<bar>st_val b\<bar>" by (rule bringNative_spec [OF assms(2)])
  let ?neg = "sa_negative a \<noteq> sa_negative b"
  let ?p = "uint v1 * 10 ^ 17"
  let ?d = "uint v2"
  let ?A = "(?p + (if ?neg \<noteq> up then ?d - 1 else 0)) div ?d"
  have d: "0 < ?d" using 2(2) by simp
  have lo: "10 ^ 16 * ?d \<le> ?p" and hi: "?p < 10 ^ 18 * ?d" using 1(2,3) 2(2,3) by simp_all
  have c: "uint tenTo17 = 10 ^ 17" by (simp add: tenTo17_def tenTo14_def)
  have nz: "v2 \<noteq> 0" using d by auto
  have r: "uint (if ?neg \<noteq> up then v2 - 1 else 0) = (if ?neg \<noteq> up then ?d - 1 else 0)"
    using d by (simp add: uint_sub_if')
  have "?A < 2 ^ 64" by (rule div_fits [OF d hi]) (use d in simp_all)
  then have "muldiv_round v1 tenTo17 v2 (if ?neg \<noteq> up then v2 - 1 else 0) = Inr (word_of_int ?A)"
    using muldiv_round_exact [OF nz, of v1 tenTo17 "if ?neg \<noteq> up then v2 - 1 else 0"] unfolding c r by simp
  then have m: "divRound so so2 a b i up = roundResult so so2 i up ?neg (word_of_int ?A) (o1 - o2 - 17)"
    using operand_nonzero [OF assms(1)] operand_nonzero [OF assms(2)] 1(1) 2(1)
    by (simp add: divRound_def Let_def)
  have pw: "(10::real) powi (o1 - o2 - 17) = 10 powi o1 / 10 powi o2 / 10 ^ 17" by (simp add: power_int_diff)
  have "\<bar>st_val a\<bar> / \<bar>st_val b\<bar> = of_int ?p / of_int ?d * 10 powi (o1 - o2 - 17)"
    unfolding 1(4) [symmetric] 2(4) [symmetric] pw by (simp add: field_simps del: of_int_uint)
  then have x: "st_val a / st_val b =
      (if ?neg then - 1 else 1) * (of_int ?p / of_int ?d * 10 powi (o1 - o2 - 17))"
    using operand_sign(2) [OF assms(1,2)] by simp
  show ?thesis unfolding m by (rule round_core [OF d refl lo hi x assms(4,3)])
qed

section \<open>Order\<close>

text \<open>Amounts in the form the code was written for.\<close>

definition st_regular :: "st_amount \<Rightarrow> bool" where
  "st_regular a \<longleftrightarrow> st_wf a \<and>
     (if sa_native a then sa_value a = 0 \<longrightarrow> \<not> sa_negative a else sa_value a \<le> 9999999999999999)"

definition to_iou :: "st_amount \<Rightarrow> iou_amount" where
  "to_iou a = \<lparr>iou_mantissa = (if sa_negative a then - uint (sa_value a) else uint (sa_value a)), iou_exponent = sa_offset a\<rparr>"

lemma uint_zero_iff: "uint w = 0 \<longleftrightarrow> w = 0"
  by (simp add: uint_0_iff)

lemma uint_pos: "(w :: u64) \<noteq> 0 \<Longrightarrow> 0 < uint w"
  using uint_ge_0 [of w] uint_zero_iff [of w] by linarith

lemma to_iou_wf: "st_regular a \<Longrightarrow> \<not> sa_native a \<Longrightarrow> iou_wf (to_iou a)"
  by (auto simp: st_regular_def st_wf_def to_iou_def iou_wf_def iou_zero_def iou_params st_params word_le_def)

lemma to_iou_val: "iou_val (to_iou a) = st_val a"
  by (simp add: to_iou_def iou_val_def st_val_def del: of_int_uint)

lemma st_less_iou:
  assumes "areComparable a b" "sa_value a = 0 \<longrightarrow> \<not> sa_negative a" "sa_value b = 0 \<longrightarrow> \<not> sa_negative b"
  shows "st_less a b = Inr (iou_less (to_iou a) (to_iou b))"
proof -
  have n: "(iou_mantissa (to_iou c) < 0) = sa_negative c" "(iou_mantissa (to_iou c) = 0) = (sa_value c = 0)"
    "iou_exponent (to_iou c) = sa_offset c"
    if "sa_value c = 0 \<longrightarrow> \<not> sa_negative c" for c
    using that uint_pos [of "sa_value c"] by (auto simp: to_iou_def uint_zero_iff)
  have m: "sa_negative a = sa_negative b \<Longrightarrow> (iou_mantissa (to_iou a) < iou_mantissa (to_iou b)) =
      (if sa_negative a then sa_value a > sa_value b else sa_value a < sa_value b)"
    by (auto simp: to_iou_def word_less_def)
  have "(iou_mantissa (to_iou b) > 0) = (sa_value b \<noteq> 0 \<and> \<not> sa_negative b)"
    using n [OF assms(3)] by auto
  then show ?thesis using assms(1) m n(1) [OF assms(2)] n(1) [OF assms(3)] n(2) [OF assms(2)] n(2) [OF assms(3)]
    by (auto simp: st_less_def iou_less_def Let_def n(3) [OF assms(2)] n(3) [OF assms(3)])
qed

lemma st_eq_iou:
  assumes "areComparable a b" "sa_value a = 0 \<longrightarrow> \<not> sa_negative a" "sa_value b = 0 \<longrightarrow> \<not> sa_negative b"
  shows "st_eq a b \<longleftrightarrow> to_iou a = to_iou b"
  using assms uint_pos [of "sa_value a"] uint_pos [of "sa_value b"]
  by (auto simp: st_eq_def to_iou_def word_uint_eq_iff)

lemma native_less:
  assumes "iou_exponent a = 0" "iou_exponent b = 0"
  shows "iou_less a b \<longleftrightarrow> iou_val a < iou_val b" "a = b \<longleftrightarrow> iou_val a = iou_val b"
  using assms by (cases a, cases b, auto simp: iou_less_def iou_val_def Let_def)+

lemma amount_order_regular:
  assumes "st_regular a" "st_regular b" "areComparable a b"
  shows "st_less a b = Inr (st_val a < st_val b) \<and> (st_eq a b \<longleftrightarrow> st_val a = st_val b)"
proof -
  have z: "sa_value c = 0 \<longrightarrow> \<not> sa_negative c" if "st_regular c" for c
    using that by (auto simp: st_regular_def st_wf_def split: if_splits)
  have "(iou_less (to_iou a) (to_iou b) \<longleftrightarrow> st_val a < st_val b) \<and> (to_iou a = to_iou b \<longleftrightarrow> st_val a = st_val b)"
  proof (cases "sa_native a")
    case True
    then have "sa_offset a = 0" "sa_offset b = 0"
      using assms by (auto simp: st_regular_def st_wf_def areComparable_def)
    then show ?thesis
      using native_less [of "to_iou a" "to_iou b"] unfolding to_iou_val by (simp add: to_iou_def)
  next
    case False
    then have "iou_wf (to_iou a)" "iou_wf (to_iou b)"
      using to_iou_wf assms by (auto simp: areComparable_def)
    then show ?thesis
      using iou_less_val iou_val_inj by (metis to_iou_val)
  qed
  then show ?thesis
    using st_less_iou [OF assms(3) z [OF assms(1)] z [OF assms(2)]] st_eq_iou [OF assms(3) z [OF assms(1)] z [OF assms(2)]]
    by simp
qed

section \<open>Rates\<close>

lemma packRate_uint:
  assumes "st_operand r" "\<not> sa_native r"
  shows "uint (packRate r) = (sa_offset r + 100) * 2 ^ 56 + uint (sa_value r)"
proof -
  let ?x = "sa_offset r + 100"
  have o: "0 \<le> ?x" "?x < 256" "uint (sa_value r) < 2 ^ 56"
    using assms by (auto simp: st_operand_def st_wf_def st_params word_le_def)
  have v: "sa_value r < 2 ^ 56" using o(3) by (simp add: word_less_def)
  have "push_bit 56 (word_of_int ?x) AND take_bit 56 (sa_value r) = 0" by (rule bit_eqI) (auto simp: bit_simps)
  then have "push_bit 56 (word_of_int ?x) AND sa_value r = 0" using take_bit_less(3) [OF v] by simp
  then have "packRate r = push_bit 56 (word_of_int ?x) + sa_value r"
    unfolding packRate_def by (rule disjunctive_add_eq_or [symmetric])
  also have "\<dots> = word_of_int (?x * 2 ^ 56 + uint (sa_value r))" by (simp add: push_bit_eq_mult)
  finally have "uint (packRate r) = uint (word_of_int (?x * 2 ^ 56 + uint (sa_value r)) :: u64)" by simp
  also have "\<dots> = ?x * 2 ^ 56 + uint (sa_value r)"
    unfolding uint_word_of_int_eq using o by (intro take_bit_int_eq_self) simp_all
  finally show ?thesis .
qed

lemma operand_less:
  assumes "st_operand r" "st_operand s" "\<not> sa_native r" "\<not> sa_native s" "\<not> sa_negative r" "\<not> sa_negative s"
  shows "st_val r < st_val s \<longleftrightarrow>
    sa_offset r < sa_offset s \<or> sa_offset r = sa_offset s \<and> sa_value r < sa_value s"
proof -
  have w: "iou_wf (to_iou r)" "iou_wf (to_iou s)"
    using assms by (auto intro!: to_iou_wf simp: st_regular_def st_operand_def)
  have "0 < uint (sa_value r)" "0 < uint (sa_value s)" using assms(1,2) uint_pos by (auto simp: st_operand_def)
  then have "iou_less (to_iou r) (to_iou s) \<longleftrightarrow>
      sa_offset r < sa_offset s \<or> sa_offset r = sa_offset s \<and> sa_value r < sa_value s"
    using assms(5,6) by (auto simp: iou_less_def to_iou_def Let_def word_less_def)
  then show ?thesis using iou_less_val [OF w] by (simp add: to_iou_val)
qed

lemma lex_pack:
  fixes a b x y M :: int
  assumes "0 \<le> x" "x < M" "0 \<le> y" "y < M"
  shows "a * M + x < b * M + y \<longleftrightarrow> a < b \<or> a = b \<and> x < y"
proof -
  have step: "c * M + u < d * M + w" if "c < d" "u < M" "0 \<le> w" for c d u w
  proof -
    have "(c + 1) * M \<le> d * M" using that assms by (intro mult_right_mono) simp_all
    then show ?thesis using that by (simp add: algebra_simps)
  qed
  show ?thesis using step [of a b x y] step [of b a y x] assms by (cases a b rule: linorder_cases) auto
qed

lemma amountFromQuality_pack:
  assumes "st_operand r" "\<not> sa_native r" "\<not> sa_negative r"
  shows "amountFromQuality (packRate r) = Inr (st_unchecked noIssue (sa_value r) (sa_offset r) False False)"
proof -
  let ?x = "sa_offset r + 100"
  have o: "0 \<le> ?x" "?x < 256" "0 < uint (sa_value r)" "uint (sa_value r) < 2 ^ 56" "1000000000000000 \<le> uint (sa_value r)"
      "uint (sa_value r) \<le> 9999999999999999" "- 96 \<le> sa_offset r" "sa_offset r \<le> 80"
    using assms(1,2) uint_pos [of "sa_value r"] by (auto simp: st_operand_def st_wf_def st_params word_le_def)
  note u = packRate_uint [OF assms(1,2)]
  have hi: "uint (drop_bit 56 (packRate r)) = ?x"
  proof -
    have "uint (drop_bit 56 (packRate r)) = uint (packRate r) div uint (2 ^ 56 :: u64)"
      by (simp only: drop_bit_eq_div uint_div_distrib)
    also have "\<dots> = (?x * 2 ^ 56 + uint (sa_value r)) div 2 ^ 56" unfolding u by simp
    also have "\<dots> = ?x" using o(4) by (intro int_div_pos_eq [of _ _ _ "uint (sa_value r)"]) simp_all
    finally show ?thesis .
  qed
  have "packRate r AND NOT (push_bit 56 (mask 8)) = take_bit 56 (packRate r)" by (rule bit_eqI) (auto simp: bit_simps)
  then have "packRate r AND NOT (push_bit 56 255) = take_bit 56 (packRate r)" by (simp add: mask_eq_exp_minus_1)
  moreover have "uint (take_bit 56 (packRate r)) = uint (sa_value r)"
  proof -
    have "uint (take_bit 56 (packRate r)) = uint (packRate r) mod uint (2 ^ 56 :: u64)"
      by (simp only: take_bit_eq_mod uint_mod_distrib)
    also have "\<dots> = (?x * 2 ^ 56 + uint (sa_value r)) mod 2 ^ 56" unfolding u by simp
    also have "\<dots> = uint (sa_value r)" using o(4) by (intro int_mod_pos_eq [of _ _ ?x]) simp_all
    finally show ?thesis .
  qed
  ultimately have lo: "packRate r AND NOT (push_bit 56 255) = sa_value r" by (simp add: word_uint_eq_iff)
  have "packRate r \<noteq> 0" using lo o(3) by auto
  then have "amountFromQuality (packRate r) = st_make noIssue (sa_value r) (sa_offset r) False"
    unfolding amountFromQuality_def lo hi by simp
  also have "\<dots> = Inr (st_unchecked noIssue (sa_value r) (sa_offset r) False False)"
    using st_make_id(1) [of "uint (sa_value r)" "sa_offset r" noIssue False] o
    by (simp add: noIssue_def isCSC_def)
  finally show ?thesis .
qed

section \<open>Properties\<close>




lemma sample_operands:
  "st_operand (st_drops 3 False)" "st_operand (sample_issued 1000000000000000 (- 15))" "\<not> isCSC (is_currency noIssue)"
  by (simp_all add: st_operand_def st_drops_def sample_issued_def st_unchecked_def st_wf_def isCSC_def cscIssue_def
      noIssue_def st_params)


text \<open>
  C32: the order of amounts is that of the numbers they stand for. Two comparable amounts
  in regular form (native ones other than negative zero, issued ones with sixteen digits)
  compare as their values do, and are equal exactly when their values are.
\<close>

theorem amount_order:
  assumes "st_regular a" "st_regular b" "areComparable a b"
  shows "st_less a b = Inr (st_val a < st_val b) \<and> (st_eq a b \<longleftrightarrow> st_val a = st_val b)"
  using assms by (rule amount_order_regular)

theorem amount_order_witness:
  "st_less (sample_issued 1000000000000000 1) (sample_issued 9999999999999999 (- 1)) = Inr True"
proof -
  let ?a = "sample_issued 1000000000000000 1" and ?b = "sample_issued 9999999999999999 (- 1)"
  have "st_regular ?a" "st_regular ?b" "areComparable ?a ?b"
    by (simp_all add: st_regular_def areComparable_def sample_issued_def st_unchecked_def st_wf_def isCSC_def st_params)
  from amount_order [OF this] show ?thesis
    by (simp add: st_val_def sample_issued_def st_unchecked_def power_int_minus)
qed



section \<open>Mantissas of more than sixteen digits\<close>

lemma sum_of_nines:
  "st_add (st_unchecked noIssue 9999999999999999 0 False False) (st_unchecked noIssue 9999999999999999 0 False False) =
   Inr (st_unchecked noIssue 19999999999999998 0 False False)"
proof -
  have "st_make noIssue 19999999999999998 0 False = Inr (st_unchecked noIssue 19999999999999998 0 False False)"
    using st_make_id(1) [of 19999999999999998 0 noIssue False] by (simp add: noIssue_def isCSC_def)
  then show ?thesis
    by (simp add: st_add_def areComparable_def st_isZero_def st_signum_def st_unchecked_def Let_def alignTo.simps)
qed

lemma sum_of_nines_wire:
  "\<exists>bs. st_serialize (st_unchecked noIssue 19999999999999998 0 False False) [] = Inr bs \<and>
     reads st_deserialize bs (st_unchecked noIssue 1985601490518014 0 False False)"
proof -
  let ?v = "15584440312192434174 :: u64"
  have "st_issued_from_wire ?v noIssue = Inr (st_unchecked noIssue 1985601490518014 0 False False)"
    by (simp add: st_issued_from_wire_def Let_def st_params st_unchecked_def canonicalize_def noIssue_def isCSC_def
        growMantissa.simps shrinkMantissa.simps rassert_def)
  moreover have "bit ?v 63" by simp
  ultimately have "reads st_deserialize (word_bytes 8 ?v @ word_bytes 20 (is_currency noIssue) @ word_bytes 20 (is_account noIssue))
      (st_unchecked noIssue 1985601490518014 0 False False)"
    by (intro reads_issued) (simp_all add: noIssue_def isCSC_def)
  moreover have "st_serialize (st_unchecked noIssue 19999999999999998 0 False False) [] =
      Inr (word_bytes 8 ?v @ word_bytes 20 (is_currency noIssue) @ word_bytes 20 (is_account noIssue))"
    by (simp add: st_serialize_def st_unchecked_def st_isZero_def st_signum_def Let_def add64_def add160_def)
  ultimately show ?thesis by blast
qed

lemma unpacked_rate_one:
  "amountFromQuality 0x536345785D8A0005 = Inr (st_unchecked noIssue 27942405962072069 (- 17) False False)"
  using st_make_id(1) [of 27942405962072069 "- 17" noIssue False]
  by (simp add: amountFromQuality_def noIssue_def isCSC_def)


end
