(* ===== verification/SHAMapIter.thy ===== *)
theory SHAMapIter
  imports SHAMapDelta
begin

text \<open>
  Iteration over a hash tree (\<open>shamap/impl/SHAMap.cpp\<close>, \<open>SHAMap::const_iterator\<close> of
  \<open>shamap/SHAMap.h\<close>): the first item below a node, the next item after the one an iterator
  is at, and \<open>upper_bound\<close>. Iteration visits the items in the order of their keys, and
  \<open>upper_bound\<close> starts it at the first key above the given one.
\<close>

section \<open>Iterators\<close>

text \<open>
  The position of an iterator: the leaf it is at and the inner nodes above it, deepest
  first, each with its depth; the end is \<open>None\<close>. Of the node identifiers on the stack of
  the code only the depth is read.
\<close>

type_synonym const_iterator = "(sha_leaf \<times> sha_stack) option"

definition stackDepth :: "sha_stack \<Rightarrow> nat" where
  "stackDepth st = (case st of [] \<Rightarrow> 0 | f # _ \<Rightarrow> Suc (snd f))"

text \<open>The scan for the first branch from \<open>b\<close> on that is not empty.\<close>

definition firstChild :: "sha_node option list \<Rightarrow> nat \<Rightarrow> sha_node option" where
  "firstChild cs b = (case filter nonEmptyBranch (drop b cs) of [] \<Rightarrow> None | c # _ \<Rightarrow> c)"

lemma firstChild_size [termination_simp]:
  assumes "firstChild cs b = Some c"
  shows "size c < Suc (size_list (size_option size) cs)"
proof (rule size_child)
  from assms obtain xs where "filter nonEmptyBranch (drop b cs) = Some c # xs"
    by (auto simp: firstChild_def split: list.splits)
  then have "Some c \<in> set (filter nonEmptyBranch (drop b cs))" by simp
  then show "Some c \<in> set cs" using set_drop_subset by fastforce
qed

fun firstBelow :: "sha_node \<Rightarrow> sha_stack \<Rightarrow> const_iterator" where
  "firstBelow (TreeNode leaf) st = Some (leaf, st)"
| "firstBelow (InnerNode cs) st =
     (case firstChild cs 0 of None \<Rightarrow> None | Some c \<Rightarrow> firstBelow c ((cs, stackDepth st) # st))"

definition peekFirstItem :: "sha_node \<Rightarrow> const_iterator" where
  "peekFirstItem root = firstBelow root []"

text \<open>The loop up the stack that \<open>peekNextItem\<close> and \<open>upper_bound\<close> share.\<close>

fun nextAbove :: "uint256 \<Rightarrow> sha_stack \<Rightarrow> const_iterator res" where
  "nextAbove ident [] = Inr None"
| "nextAbove ident ((cs, depth) # st) =
     (case firstChild cs (selectBranch depth ident + 1) of
        None \<Rightarrow> nextAbove ident st
      | Some c \<Rightarrow> (case firstBelow c ((cs, depth) # st) of
                    None \<Rightarrow> Inl (Thrown ''SHAMapMissingNode'') | Some x \<Rightarrow> Inr (Some x)))"

definition peekNextItem :: "uint256 \<Rightarrow> sha_stack \<Rightarrow> const_iterator res" where
  "peekNextItem ident st = nextAbove ident st"

definition upper_bound :: "sha_node \<Rightarrow> uint256 \<Rightarrow> const_iterator res" where
  "upper_bound root ident =
     (case walkTowardsKey ident root 0 [] of
        (Some leaf, st) \<Rightarrow> if leaf_key leaf > ident then Inr (Some (leaf, st)) else nextAbove ident st
      | (None, st) \<Rightarrow> nextAbove ident st)"

definition iter_item :: "const_iterator \<Rightarrow> sha_item option" where
  "iter_item it = map_option (leaf_item \<circ> fst) it"

definition iter_inc :: "const_iterator \<Rightarrow> const_iterator res" where
  "iter_inc it = (case it of None \<Rightarrow> Inr None | Some (leaf, st) \<Rightarrow> peekNextItem (leaf_key leaf) st)"

text \<open>At most \<open>n\<close> rounds of a loop that collects the items from an iterator to the end.\<close>

primrec iter_items :: "nat \<Rightarrow> const_iterator \<Rightarrow> sha_item list res" where
  "iter_items 0 it = Inr []"
| "iter_items (Suc n) it =
     (case iter_item it of None \<Rightarrow> Inr []
      | Some x \<Rightarrow> rbind (iter_inc it) (\<lambda>it'. rbind (iter_items n it') (\<lambda>xs. Inr (x # xs))))"

section \<open>The order of keys\<close>

lemma unat_below_256: "unat (k :: uint256) < 2 ^ 256"
proof -
  have "unat k < 2 ^ LENGTH(256)" by (rule unsigned_less)
  then show ?thesis by simp
qed

lemma selectBranch_div:
  assumes "d < 64"
  shows "selectBranch d k = unat k div 2 ^ (252 - 4 * d) mod 16"
proof -
  have kb: "key_byte k i = unat k div 2 ^ (248 - 8 * i) mod 256" if "i < 32" for i
    using unat_below_256 [of k]
    by (simp add: key_byte_take_bit unsigned_take_bit_eq unsigned_drop_bit_eq) (simp add: take_bit_eq_mod drop_bit_eq_div)
  show ?thesis
  proof (cases "odd d")
    case True
    then obtain i where i: "d = Suc (2 * i)" by (metis oddE add.commute plus_1_eq_Suc)
    then have "252 - 4 * d = 248 - 8 * i" "i < 32" using assms by simp_all
    then show ?thesis using i by (simp add: selectBranch_def kb mod_mod_cancel)
  next
    case False
    then obtain i where i: "d = 2 * i" by (auto elim: evenE)
    then have e: "252 - 4 * d = (248 - 8 * i) + 4" "i < 32" using assms by simp_all
    have "(unat k div 2 ^ (248 - 8 * i) mod 256) div 16 = unat k div 2 ^ (248 - 8 * i) div 16 mod 16"
      using mod_mult2_eq [of "unat k div 2 ^ (248 - 8 * i)" 16 16] by simp
    also have "\<dots> = unat k div 2 ^ (252 - 4 * d) mod 16" unfolding e(1) by (simp add: power_add div_mult2_eq)
    finally show ?thesis using i e(2) by (simp add: selectBranch_def kb)
  qed
qed

lemma branch_split:
  assumes "d < 64"
  shows "unat x div 2 ^ (252 - 4 * d) = 16 * (unat x div 2 ^ (256 - 4 * d)) + selectBranch d x"
proof -
  have e: "256 - 4 * d = (252 - 4 * d) + 4" using assms by simp
  have "unat x div 2 ^ (256 - 4 * d) = unat x div 2 ^ (252 - 4 * d) div 16"
    unfolding e by (simp add: power_add div_mult2_eq)
  then show ?thesis using assms by (simp add: selectBranch_div)
qed

lemma branch_prefix_div:
  assumes "\<forall>j < d. selectBranch j a = selectBranch j b" "d \<le> 64"
  shows "unat a div 2 ^ (256 - 4 * d) = unat b div 2 ^ (256 - 4 * d)"
  using assms
proof (induction d)
  case 0
  have "unat x div 2 ^ 256 = 0" for x :: uint256 using unat_below_256 [of x] by simp
  then show ?case by (metis mult_0_right diff_zero)
next
  case (Suc d)
  have "256 - 4 * Suc d = 252 - 4 * d" by simp
  then show ?case using Suc branch_split [of d] by simp
qed

lemma branch_past_end:
  assumes "64 \<le> d"
  shows "\<exists>j < 64. \<forall>k. selectBranch d k = selectBranch j k"
proof (intro exI [of _ "62 + d mod 2"] conjI allI)
  have "248 - 8 * (d div 2) = 0" using assms by simp
  then have "key_byte k (d div 2) = key_byte k 31" for k unfolding key_byte_def by simp
  then show "selectBranch d k = selectBranch (62 + d mod 2) k" for k
    by (cases "odd d") (simp_all add: selectBranch_def odd_iff_mod_2_eq_one even_iff_mod_2_eq_zero)
qed simp

lemma less_by_branch:
  assumes "\<forall>j < d. selectBranch j a = selectBranch j b" "selectBranch d a < selectBranch d b"
  shows "a < b"
proof -
  have d: "d < 64"
  proof (rule ccontr)
    assume "\<not> d < 64"
    then obtain j where "j < 64" "\<forall>k. selectBranch d k = selectBranch j k" using branch_past_end [of d] by auto
    then show False using assms \<open>\<not> d < 64\<close> by simp
  qed
  have "unat a div 2 ^ (252 - 4 * d) < unat b div 2 ^ (252 - 4 * d)"
    using branch_prefix_div [OF assms(1)] assms(2) d branch_split [OF d] by simp
  then have "unat a < unat b" by (meson div_le_mono leD leI)
  then show ?thesis by (simp add: word_less_nat_alt)
qed

section \<open>Paths\<close>

definition branch_entries :: "sha_node option list \<Rightarrow> sha_leaf list" where
  "branch_entries cs = concat (map (\<lambda>c. case c of None \<Rightarrow> [] | Some n \<Rightarrow> entry_list n) cs)"

lemma branch_entries_simps [simp]:
  "branch_entries [] = []"
  "branch_entries (None # cs) = branch_entries cs"
  "branch_entries (Some n # cs) = entry_list n @ branch_entries cs"
  "branch_entries (cs @ cs') = branch_entries cs @ branch_entries cs'"
  by (simp_all add: branch_entries_def)

lemma entry_list_inner: "entry_list (InnerNode cs) = branch_entries cs"
  by (simp add: branch_entries_def entry_list.simps(2))

lemma branch_entries_set: "e \<in> set (branch_entries cs) \<longleftrightarrow> (\<exists>i c. getChild cs i = Some c \<and> e \<in> entries c)"
  using entries_inner [of cs] unfolding entry_list_inner by blast

text \<open>
  A node with the stack that leads to it along a key: the entries after it in the tree are
  those of the later branches on the stack.
\<close>

fun attached :: "tn_type \<Rightarrow> uint256 \<Rightarrow> sha_node \<Rightarrow> sha_stack \<Rightarrow> bool" where
  "attached ty k n [] \<longleftrightarrow> wf_node ty 0 n"
| "attached ty k n ((cs, d) # st) \<longleftrightarrow>
     d = stackDepth st \<and> getChild cs (selectBranch d k) = Some n \<and> attached ty k (InnerNode cs) st"

fun stack_rest :: "uint256 \<Rightarrow> sha_stack \<Rightarrow> sha_leaf list" where
  "stack_rest k [] = []"
| "stack_rest k ((cs, d) # st) = branch_entries (drop (Suc (selectBranch d k)) cs) @ stack_rest k st"

fun root_of :: "sha_node \<Rightarrow> sha_stack \<Rightarrow> sha_node" where
  "root_of n [] = n"
| "root_of n ((cs, d) # st) = root_of (InnerNode cs) st"

lemma stackDepth_simps [simp]: "stackDepth [] = 0" "stackDepth ((cs, d) # st) = Suc d"
  by (simp_all add: stackDepth_def)

lemma attached_wf: "attached ty k n st \<Longrightarrow> wf_node ty (stackDepth st) n"
  by (induction ty k n st rule: attached.induct) (auto dest: wf_getChild(1))

lemma attached_entry:
  assumes "attached ty k n st" "e \<in> entries n"
  shows "attached ty (leaf_key e) n st \<and> stack_rest (leaf_key e) st = stack_rest k st \<and>
    (\<forall>j < stackDepth st. selectBranch j (leaf_key e) = selectBranch j k)"
  using assms
proof (induction ty k n st rule: attached.induct)
  case (2 ty k n cs d st)
  have w: "wf_node ty d (InnerNode cs)" and c: "getChild cs (selectBranch d k) = Some n"
    using 2(2) attached_wf [of ty k "InnerNode cs" st] by auto
  have b: "selectBranch d (leaf_key e) = selectBranch d k" using wf_getChild(4) [OF w c 2(3)] .
  have "e \<in> entries (InnerNode cs)" using c 2(3) entries_inner by auto
  then show ?case using 2 b c by (auto simp: less_Suc_eq)
qed simp

lemma firstChild_entries:
  assumes "length cs = 16"
  shows "case firstChild cs b of None \<Rightarrow> branch_entries (drop b cs) = []
    | Some c \<Rightarrow> \<exists>i \<ge> b. getChild cs i = Some c \<and>
        branch_entries (drop b cs) = entry_list c @ branch_entries (drop (Suc i) cs)"
proof (induction "16 - b" arbitrary: b)
  case 0
  then show ?case using assms by (simp add: firstChild_def)
next
  case (Suc n)
  then have b: "b < length cs" using assms by simp
  then have d: "drop b cs = cs ! b # drop (Suc b) cs" by (simp add: Cons_nth_drop_Suc)
  show ?case
  proof (cases "cs ! b")
    case None
    then have "firstChild cs b = firstChild cs (Suc b)" using d by (simp add: firstChild_def)
    moreover have "n = 16 - Suc b" using Suc(2) by simp
    ultimately show ?thesis using Suc(1) [of "Suc b"] d None by (auto split: option.splits intro: Suc_leD)
  next
    case (Some c)
    then have "firstChild cs b = Some c" using d by (simp add: firstChild_def)
    then show ?thesis using d Some b by (auto simp: getChild_def intro!: exI [of _ b])
  qed
qed

lemma inner_split:
  assumes "length cs = 16" "b < 16"
  shows "entry_list (InnerNode cs) = branch_entries (take b cs) @
    (case getChild cs b of None \<Rightarrow> [] | Some c \<Rightarrow> entry_list c) @ branch_entries (drop (Suc b) cs)"
proof -
  have "cs = take b cs @ cs ! b # drop (Suc b) cs" using assms by (simp add: id_take_nth_drop)
  then have "branch_entries cs = branch_entries (take b cs) @ branch_entries (cs ! b # drop (Suc b) cs)"
    by (metis branch_entries_simps(4))
  then show ?thesis using assms by (cases "cs ! b") (simp_all add: getChild_def entry_list_inner)
qed

lemma branch_entries_take:
  "e \<in> set (branch_entries (take b cs)) \<Longrightarrow> \<exists>i < b. \<exists>c. getChild cs i = Some c \<and> e \<in> entries c"
  by (auto simp: branch_entries_set getChild_def split: if_splits)

lemma branch_entries_drop:
  "e \<in> set (branch_entries (drop (Suc b) cs)) \<Longrightarrow> \<exists>i > b. \<exists>c. getChild cs i = Some c \<and> e \<in> entries c"
proof -
  assume "e \<in> set (branch_entries (drop (Suc b) cs))"
  then obtain i c where "getChild (drop (Suc b) cs) i = Some c" "e \<in> entries c" by (auto simp: branch_entries_set)
  then show ?thesis by (intro exI [of _ "Suc b + i"] conjI exI [of _ c]) (auto simp: getChild_def split: if_splits)
qed

text \<open>The entries before and after the branch a key takes lie on the two sides of the key.\<close>

lemma branch_order:
  assumes "attached ty k (InnerNode cs) st" "d = stackDepth st"
  shows "e \<in> set (branch_entries (take (selectBranch d k) cs)) \<Longrightarrow> leaf_key e < k"
    "e \<in> set (branch_entries (drop (Suc (selectBranch d k)) cs)) \<Longrightarrow> k < leaf_key e"
proof -
  have w: "wf_node ty d (InnerNode cs)" using attached_wf [OF assms(1)] assms(2) by simp
  then have len: "length cs = 16" by (simp add: wf_inner)
  have pre: "\<forall>j < d. selectBranch j (leaf_key e) = selectBranch j k" if "getChild cs i = Some c" "e \<in> entries c" for i c e
    using attached_entry [OF assms(1), of e] that entries_inner assms(2) by auto
  {
    assume "e \<in> set (branch_entries (take (selectBranch d k) cs))"
    then obtain i c where i: "i < selectBranch d k" "getChild cs i = Some c" "e \<in> entries c"
      using branch_entries_take by blast
    then show "leaf_key e < k" using pre [OF i(2,3)] wf_getChild(4) [OF w i(2,3)] by (intro less_by_branch [of d]) auto
  next
    assume "e \<in> set (branch_entries (drop (Suc (selectBranch d k)) cs))"
    then obtain i c where i: "selectBranch d k < i" "getChild cs i = Some c" "e \<in> entries c"
      using branch_entries_drop by blast
    then show "k < leaf_key e" using pre [OF i(2,3)] wf_getChild(4) [OF w i(2,3)] by (intro less_by_branch [of d]) auto
  }
qed

lemma attached_split:
  assumes "attached ty k n st"
  shows "\<exists>pre. entry_list (root_of n st) = pre @ entry_list n @ stack_rest k st \<and>
    (\<forall>e \<in> set pre. leaf_key e < k) \<and> (\<forall>e \<in> set (stack_rest k st). k < leaf_key e)"
  using assms
proof (induction ty k n st rule: attached.induct)
  case (2 ty k n cs d st)
  then have a: "attached ty k (InnerNode cs) st" "d = stackDepth st" and c: "getChild cs (selectBranch d k) = Some n"
    by auto
  have len: "length cs = 16" using attached_wf [OF a(1)] by (simp add: wf_inner)
  from 2(1) [OF a(1)] obtain pre where "entry_list (root_of (InnerNode cs) st) = pre @ entry_list (InnerNode cs) @ stack_rest k st"
    "\<forall>e \<in> set pre. leaf_key e < k" "\<forall>e \<in> set (stack_rest k st). k < leaf_key e" by auto
  then show ?case
    using inner_split [OF len selectBranch_less, of d k] c branch_order [OF a]
    by (intro exI [of _ "pre @ branch_entries (take (selectBranch d k) cs)"]) auto
qed simp

section \<open>Iteration\<close>

text \<open>
  An iterator stands for the list of entries from its own to the end.
\<close>

definition iterates :: "tn_type \<Rightarrow> const_iterator \<Rightarrow> sha_leaf list \<Rightarrow> bool" where
  "iterates ty it es \<longleftrightarrow> (case it of None \<Rightarrow> es = []
     | Some (l, st) \<Rightarrow> attached ty (leaf_key l) (TreeNode l) st \<and> es = l # stack_rest (leaf_key l) st)"

lemma firstBelow_iterates:
  assumes "attached ty k n st" "entries n \<noteq> {}"
  shows "iterates ty (firstBelow n st) (entry_list n @ stack_rest k st)"
  using assms
proof (induction n st arbitrary: k rule: firstBelow.induct)
  case (1 leaf st)
  then show ?case using attached_entry [OF 1(1)] by (simp add: iterates_def)
next
  case (2 cs st)
  have w: "wf_node ty (stackDepth st) (InnerNode cs)" by (rule attached_wf [OF 2(2)])
  then have "length cs = 16" by (simp add: wf_inner)
  moreover have "branch_entries cs \<noteq> []" using 2(3) by (simp add: entry_list_inner)
  ultimately obtain c i where c: "firstChild cs 0 = Some c" "getChild cs i = Some c"
    "branch_entries cs = entry_list c @ branch_entries (drop (Suc i) cs)"
    using firstChild_entries [of cs 0] by (auto split: option.splits)
  from wf_getChild(3) [OF w c(2)] obtain e where e: "e \<in> entries c" by (metis ex_in_conv)
  then have b: "selectBranch (stackDepth st) (leaf_key e) = i" and "e \<in> entries (InnerNode cs)"
    using wf_getChild(4) [OF w c(2)] c(2) entries_inner by auto
  from attached_entry [OF 2(2) this(2)]
  have "attached ty (leaf_key e) c ((cs, stackDepth st) # st)" "stack_rest (leaf_key e) st = stack_rest k st"
    using b c(2) by auto
  then show ?case
    using 2(1) [OF c(1), of "leaf_key e"] wf_getChild(3) [OF w c(2)] b c by (auto simp: entry_list_inner)
qed

definition on_path :: "tn_type \<Rightarrow> uint256 \<Rightarrow> sha_stack \<Rightarrow> bool" where
  "on_path ty k st \<longleftrightarrow> (case st of [] \<Rightarrow> True
     | (cs, d) # st' \<Rightarrow> d = stackDepth st' \<and> attached ty k (InnerNode cs) st')"

lemma attached_on_path: "attached ty k n st \<Longrightarrow> on_path ty k st"
  by (cases "(ty, k, n, st)" rule: attached.cases) (auto simp: on_path_def)

lemma nextAbove_iterates:
  assumes "on_path ty k st"
  shows "\<exists>it. nextAbove k st = Inr it \<and> iterates ty it (stack_rest k st)"
  using assms
proof (induction k st rule: nextAbove.induct)
  case (2 k cs d st)
  then have a: "attached ty k (InnerNode cs) st" "d = stackDepth st" by (auto simp: on_path_def)
  have w: "wf_node ty d (InnerNode cs)" using attached_wf [OF a(1)] a(2) by simp
  then have len: "length cs = 16" by (simp add: wf_inner)
  show ?case
  proof (cases "firstChild cs (selectBranch d k + 1)")
    case None
    then show ?thesis using 2(1) attached_on_path [OF a(1)] firstChild_entries [OF len, of "selectBranch d k + 1"] by simp
  next
    case (Some c)
    then obtain i where c: "getChild cs i = Some c"
      "branch_entries (drop (Suc (selectBranch d k)) cs) = entry_list c @ branch_entries (drop (Suc i) cs)"
      using firstChild_entries [OF len, of "selectBranch d k + 1"] by auto
    from wf_getChild(3) [OF w c(1)] obtain e where e: "e \<in> entries c" by (metis ex_in_conv)
    then have b: "selectBranch d (leaf_key e) = i" and "e \<in> entries (InnerNode cs)"
      using wf_getChild(4) [OF w c(1)] c(1) entries_inner by auto
    from attached_entry [OF a(1) this(2)]
    have "attached ty (leaf_key e) c ((cs, d) # st)" "stack_rest (leaf_key e) st = stack_rest k st"
      using a b c(1) by auto
    then have "iterates ty (firstBelow c ((cs, d) # st)) (stack_rest k ((cs, d) # st))"
      using firstBelow_iterates [of ty "leaf_key e" c "(cs, d) # st"] wf_getChild(3) [OF w c(1)] b c(2) by auto
    then show ?thesis using Some wf_getChild(3) [OF w c(1)] c(2) by (auto simp: iterates_def split: option.splits)
  qed
qed (simp add: iterates_def)

lemma walk_attached:
  assumes "attached ty k n st"
  shows "case walkTowardsKey k n (stackDepth st) st of
      (Some l, st') \<Rightarrow> attached ty k (TreeNode l) st' \<and> root_of (TreeNode l) st' = root_of n st
    | (None, st') \<Rightarrow> (\<exists>cs d st''. st' = (cs, d) # st'' \<and> d = stackDepth st'' \<and> attached ty k (InnerNode cs) st'' \<and>
        getChild cs (selectBranch d k) = None \<and> root_of (InnerNode cs) st'' = root_of n st)"
  using assms
proof (induction k n "stackDepth st" st rule: walkTowardsKey.induct)
  case (2 k cs st)
  then show ?case
    by (cases "getChild cs (selectBranch (stackDepth st) k)") (auto split: prod.splits option.splits)
qed simp

lemma upper_bound_iterates:
  assumes "wf_map ty root"
  shows "\<exists>it. upper_bound root k = Inr it \<and> iterates ty it (filter (\<lambda>e. k < leaf_key e) (entry_list root))"
proof -
  have a: "attached ty k root []" using assms by (simp add: wf_map_def)
  show ?thesis
  proof (cases "walkTowardsKey k root 0 []")
    case (Pair x st)
    show ?thesis
    proof (cases x)
      case (Some l)
      then have l: "attached ty k (TreeNode l) st" "root_of (TreeNode l) st = root"
        using walk_attached [OF a] Pair by simp_all
      from attached_split [OF l(1)] l(2) obtain pre where
        pre: "entry_list root = pre @ l # stack_rest k st" "\<forall>e \<in> set pre. leaf_key e < k"
          "\<forall>e \<in> set (stack_rest k st). k < leaf_key e" by auto
      then have f: "filter (\<lambda>e. k < leaf_key e) (entry_list root) = (if k < leaf_key l then [l] else []) @ stack_rest k st"
        by (auto simp: filter_empty_conv)
      have "iterates ty (Some (l, st)) (l # stack_rest k st)"
        using attached_entry [OF l(1)] by (simp add: iterates_def)
      then show ?thesis
        using Pair Some f nextAbove_iterates [OF attached_on_path [OF l(1)]] by (auto simp: upper_bound_def)
    next
      case None
      then obtain cs d st' where st: "st = (cs, d) # st'" "d = stackDepth st'" "attached ty k (InnerNode cs) st'"
        "getChild cs (selectBranch d k) = None" "root_of (InnerNode cs) st' = root"
        using walk_attached [OF a] Pair by auto
      have len: "length cs = 16" using attached_wf [OF st(3)] by (simp add: wf_inner)
      from attached_split [OF st(3)] st(5) obtain pre where
        pre: "entry_list root = pre @ entry_list (InnerNode cs) @ stack_rest k st'" "\<forall>e \<in> set pre. leaf_key e < k"
          "\<forall>e \<in> set (stack_rest k st'). k < leaf_key e" by auto
      have "filter (\<lambda>e. k < leaf_key e) (entry_list root) = stack_rest k st"
        using pre inner_split [OF len selectBranch_less, of d k] st(1,4) branch_order [OF st(3,2)]
        by (auto simp: filter_empty_conv filter_id_conv dest: less_asym)
      then show ?thesis
        using Pair None st nextAbove_iterates [of ty k st] by (auto simp: upper_bound_def on_path_def)
    qed
  qed
qed

lemma iter_items_all:
  assumes "iterates ty it es" "length es \<le> n"
  shows "iter_items n it = Inr (map leaf_item es)"
  using assms
proof (induction n arbitrary: it es)
  case 0
  then show ?case by simp
next
  case (Suc n)
  show ?case
  proof (cases it)
    case None
    then show ?thesis using Suc(2) by (simp add: iterates_def iter_item_def)
  next
    case (Some p)
    obtain l st where p: "p = (l, st)" by (cases p)
    then have l: "attached ty (leaf_key l) (TreeNode l) st" "es = l # stack_rest (leaf_key l) st"
      using Suc(2) Some by (simp_all add: iterates_def)
    from nextAbove_iterates [OF attached_on_path [OF l(1)]] obtain it' where
      "nextAbove (leaf_key l) st = Inr it'" "iterates ty it' (stack_rest (leaf_key l) st)" by auto
    then show ?thesis using Suc(1) [of it' "stack_rest (leaf_key l) st"] Suc(3) l(2) Some p
      by (simp add: iter_item_def iter_inc_def peekNextItem_def)
  qed
qed

lemma sorted_wrt_splits:
  assumes "distinct es" "\<And>e. e \<in> set es \<Longrightarrow> \<exists>pre rest. es = pre @ e # rest \<and> (\<forall>x \<in> set rest. R e x)"
  shows "sorted_wrt R es"
  unfolding sorted_wrt_iff_nth_less
proof (intro allI impI)
  fix i j assume ij: "i < j" "j < length es"
  define e where "e = es ! i"
  then have "e \<in> set es" using ij by simp
  then obtain pre rest where es: "es = pre @ e # rest" "\<forall>x \<in> set rest. R e x" using assms(2) by blast
  have "es ! length pre = e" "length pre < length es" unfolding es(1) by simp_all
  then have "length pre = i" using assms(1) ij unfolding e_def by (metis nth_eq_iff_index_eq less_trans)
  then have "es ! j = rest ! (j - Suc i)" "j - Suc i < length rest" using ij es(1) by (auto simp: nth_append)
  then show "R (es ! i) (es ! j)" using es(2) e_def by simp
qed

lemma entry_list_sorted:
  assumes "wf_map ty root"
  shows "sorted_wrt (\<lambda>a b. leaf_key a < leaf_key b) (entry_list root)"
proof (rule sorted_wrt_splits)
  have w: "wf_node ty 0 root" using assms by (simp add: wf_map_def)
  show "distinct (entry_list root)" using wf_distinct_keys [OF w] by (simp add: distinct_map)
  fix e assume e: "e \<in> entries root"
  obtain st where st: "walkTowardsKey (leaf_key e) root 0 [] = (Some e, st)"
    using walk_finds [OF w e, of "[]"] by (metis prod.collapse)
  have "attached ty (leaf_key e) (TreeNode e) st" "root_of (TreeNode e) st = root"
    using walk_attached [of ty "leaf_key e" root "[]"] w st by simp_all
  then show "\<exists>pre rest. entry_list root = pre @ e # rest \<and> (\<forall>x \<in> set rest. leaf_key e < leaf_key x)"
    using attached_split [of ty "leaf_key e" "TreeNode e" st] by auto
qed

text \<open>
  C7: iteration over a hash tree visits every item exactly once, in ascending order of the
  keys, without meeting a missing node; and \<open>upper_bound\<close> gives an iterator over exactly
  the items whose key is greater than the given one, whether the key is in the tree or not.
\<close>

theorem shamap_iteration:
  assumes "wf_map ty root"
  shows "\<exists>items. sorted_wrt (\<lambda>a b. item_key a < item_key b) items \<and>
    (\<forall>x. x \<in> set items \<longleftrightarrow> peekItem root (item_key x) = Some x) \<and>
    (\<forall>n \<ge> length items. iter_items n (peekFirstItem root) = Inr items \<and>
      (\<forall>k. \<exists>it. upper_bound root k = Inr it \<and> iter_items n it = Inr (filter (\<lambda>x. k < item_key x) items)))"
proof (intro exI [of _ "map leaf_item (entry_list root)"] conjI allI impI)
  let ?items = "map leaf_item (entry_list root)"
  show "sorted_wrt (\<lambda>a b. item_key a < item_key b) ?items"
    using entry_list_sorted [OF assms] by (simp add: sorted_wrt_map)
  show "x \<in> set ?items \<longleftrightarrow> peekItem root (item_key x) = Some x" for x
    using entries_peekItem [OF assms] by force
  fix n assume n: "n \<ge> length ?items"
  have a: "attached ty 0 root []" using assms by (simp add: wf_map_def)
  have "iterates ty (firstBelow root []) (entry_list root)"
  proof (cases "entries root = {}")
    case True
    obtain cs where "root = InnerNode cs" "length cs = 16"
      using assms by (cases root) (auto simp: wf_map_def wf_inner)
    then show ?thesis using True firstChild_entries [of cs 0] wf_getChild(3) [of ty 0 cs] a
      by (auto simp: iterates_def entry_list_inner split: option.splits)
  qed (use firstBelow_iterates [OF a] in simp)
  then show "iter_items n (peekFirstItem root) = Inr ?items"
    using iter_items_all n by (simp add: peekFirstItem_def)
  fix k
  from upper_bound_iterates [OF assms, of k] obtain it where
    it: "upper_bound root k = Inr it" "iterates ty it (filter (\<lambda>e. k < leaf_key e) (entry_list root))" by auto
  have "length (filter (\<lambda>e. k < leaf_key e) (entry_list root)) \<le> n"
    using n le_trans [OF length_filter_le] by simp
  then show "\<exists>it. upper_bound root k = Inr it \<and> iter_items n it = Inr (filter (\<lambda>x. k < item_key x) ?items)"
    using it iter_items_all [OF it(2)] by (simp add: filter_map comp_def)
qed

theorem shamap_iteration_witness:
  "wf_map TnTRANSACTION_NM sample_map \<and>
   (\<exists>items. sorted_wrt (\<lambda>a b. item_key a < item_key b) items \<and> iter_items (length items) (peekFirstItem sample_map) = Inr items)"
  using shamap_iteration [OF sample_map_wf] sample_map_wf by blast

end
