(* ===== verification/ReadView.thy ===== *)
theory ReadView
  imports Prelude
begin

text \<open>
  Views of the ledger state: ledger entries and their keylets (\<open>protocol/Keylet.h\<close>), the
  interface \<open>ReadView\<close> that every view offers for looking entries up, and the interface
  \<open>RawView\<close> for changing them. The two interfaces are the locales \<open>read_view\<close> and
  \<open>raw_view\<close>: what a view promises, in terms of the finite map from keys to entries it
  stands for. Entries are shared by pointer in the code; a store of entries is a list and a
  pointer is an index.
\<close>

section \<open>Entries and keylets\<close>

datatype ledger_entry_type =
    LtANY | LtCHILD | LtINVALID
  | LtACCOUNT_ROOT | LtDIR_NODE | LtCASINOCOIN_STATE | LtTICKET | LtSIGNER_LIST | LtOFFER
  | LtLEDGER_HASHES | LtAMENDMENTS | LtFEE_SETTINGS | LtESCROW | LtPAYCHAN | LtNICKNAME

text \<open>The fields of an entry other than its key and its type are left open.\<close>

record 'd sle =
  sle_key :: uint256
  sle_type :: ledger_entry_type
  sle_data :: 'd

record keylet =
  kl_type :: ledger_entry_type
  kl_key :: uint256

definition kl_check :: "keylet \<Rightarrow> 'd sle \<Rightarrow> bool res" where
  "kl_check k s =
     (if kl_type k = LtANY then Inr True
      else if kl_type k = LtINVALID then Inr False
      else if kl_type k = LtCHILD then
        rassert (sle_type s \<noteq> LtDIR_NODE) ''Keylet::check'' (Inr (sle_type s \<noteq> LtDIR_NODE))
      else rassert (sle_type s = kl_type k) ''Keylet::check'' (Inr (sle_type s = kl_type k)))"

definition kl_unchecked :: "uint256 \<Rightarrow> keylet" where
  "kl_unchecked k = \<lparr>kl_type = LtANY, kl_key = k\<rparr>"

type_synonym 'd heap = "'d sle list"

section \<open>The interface for reading\<close>

record 'd read_view =
  rv_exists :: "keylet \<Rightarrow> bool res"
  rv_succ :: "uint256 \<Rightarrow> uint256 option \<Rightarrow> uint256 option res"
  rv_read :: "keylet \<Rightarrow> 'd sle option res"

text \<open>What the operations of a view of a finite map return.\<close>

definition checked :: "keylet \<Rightarrow> 'd sle \<Rightarrow> 'd sle option res" where
  "checked k s = rbind (kl_check k s) (\<lambda>ok. Inr (if ok then Some s else None))"

definition read_of :: "(uint256 \<rightharpoonup> 'd sle) \<Rightarrow> keylet \<Rightarrow> 'd sle option res" where
  "read_of M k = (case M (kl_key k) of None \<Rightarrow> Inr None | Some s \<Rightarrow> checked k s)"

definition succ_in :: "uint256 set \<Rightarrow> uint256 \<Rightarrow> uint256 option" where
  "succ_in D key = (if {k \<in> D. key < k} = {} then None else Some (Min {k \<in> D. key < k}))"

definition below :: "uint256 option \<Rightarrow> uint256 option \<Rightarrow> uint256 option" where
  "below bound next =
     (case (bound, next) of (Some l, Some n) \<Rightarrow> if n \<ge> l then None else next | _ \<Rightarrow> next)"

definition exists_ok :: "(uint256 \<rightharpoonup> 'd sle) \<Rightarrow> keylet \<Rightarrow> bool res \<Rightarrow> bool" where
  "exists_ok M k r \<longleftrightarrow>
     (case M (kl_key k) of None \<Rightarrow> r = Inr False | Some s \<Rightarrow> kl_check k s = Inr True \<longrightarrow> r = Inr True)"

locale read_view =
  fixes base :: "'d read_view" and M :: "uint256 \<rightharpoonup> 'd sle"
  assumes base_finite: "finite (dom M)"
    and base_key: "M k = Some s \<Longrightarrow> sle_key s = k"
    and base_exists: "kl_key kl \<noteq> 0 \<Longrightarrow> exists_ok M kl (rv_exists base kl)"
    and base_read: "kl_key kl \<noteq> 0 \<Longrightarrow> rv_read base kl = read_of M kl"
    and base_succ: "rv_succ base key bound = Inr (below bound (succ_in (dom M) key))"

section \<open>The successor of a key\<close>

text \<open>
  Both state tables find the next key in the same way: the base is asked until it names a
  key that is not erased in the table, and the result is compared with the first live key
  of the table. The loop ends when the base has no further key.
\<close>

partial_function (option) baseSucc ::
    "'d read_view \<Rightarrow> (uint256 \<Rightarrow> bool) \<Rightarrow> uint256 option \<Rightarrow> uint256 \<Rightarrow> uint256 option res option" where
  "baseSucc base erased bound key =
     (case rv_succ base key bound of
        Inl e \<Rightarrow> Some (Inl e)
      | Inr None \<Rightarrow> Some (Inr None)
      | Inr (Some n) \<Rightarrow> if erased n then baseSucc base erased bound n else Some (Inr (Some n)))"

declare baseSucc.simps [code]

definition succOver :: "'d read_view \<Rightarrow> (uint256 \<Rightarrow> bool) \<Rightarrow> uint256 list \<Rightarrow> uint256 \<Rightarrow> uint256 option \<Rightarrow>
    uint256 option res" where
  "succOver base erased live key bound =
     (case baseSucc base erased bound key of
        None \<Rightarrow> Inl OutOfFuel
      | Some r \<Rightarrow> rbind r (\<lambda>next.
          let next' = (case find (\<lambda>k. key < k) live of
                         None \<Rightarrow> next
                       | Some k \<Rightarrow> (case next of None \<Rightarrow> Some k | Some n \<Rightarrow> if n > k then Some k else next))
          in Inr (below bound next')))"

lemma succ_in_Some:
  assumes "finite D"
  shows "succ_in D key = Some n \<longleftrightarrow> n \<in> D \<and> key < n \<and> (\<forall>k \<in> D. key < k \<longrightarrow> n \<le> k)"
proof -
  let ?S = "{k \<in> D. key < k}"
  have "finite ?S" using assms by simp
  then show ?thesis
    unfolding succ_in_def by (auto simp: eq_Min_iff Min_eq_iff)
qed

lemma succ_in_None: "succ_in D key = None \<longleftrightarrow> (\<forall>k \<in> D. \<not> key < k)"
  by (auto simp: succ_in_def)

lemma below_simps [simp]: "below bound None = None" "below None next = next"
  by (simp_all add: below_def split: option.splits)

lemma find_succ:
  assumes "sorted live"
  shows "find (\<lambda>k. key < k) live = succ_in (set live) key"
  using assms
proof (induction live)
  case Nil
  show ?case by (simp add: succ_in_def)
next
  case (Cons a live)
  show ?case
  proof (cases "key < a")
    case True
    then have "succ_in (set (a # live)) key = Some a" using Cons(2) by (auto simp: succ_in_Some)
    then show ?thesis using True by simp
  next
    case False
    then have "{k \<in> set (a # live). key < k} = {k \<in> set live. key < k}" by auto
    then show ?thesis using False Cons by (simp add: succ_in_def)
  qed
qed

lemma succ_in_union:
  assumes "finite A" "finite B"
  shows "succ_in (A \<union> B) key =
    (case succ_in B key of None \<Rightarrow> succ_in A key
     | Some b \<Rightarrow> (case succ_in A key of None \<Rightarrow> Some b | Some a \<Rightarrow> if a > b then Some b else Some a))"
proof (cases "succ_in B key")
  case None
  then have "{k \<in> A \<union> B. key < k} = {k \<in> A. key < k}" by (auto simp: succ_in_None)
  then show ?thesis using None by (simp add: succ_in_def)
next
  case b: (Some b)
  show ?thesis
  proof (cases "succ_in A key")
    case None
    then have "{k \<in> A \<union> B. key < k} = {k \<in> B. key < k}" by (auto simp: succ_in_None)
    then have "succ_in (A \<union> B) key = succ_in B key" by (simp add: succ_in_def)
    then show ?thesis using None b by simp
  next
    case (Some a)
    then have ab: "a \<in> A" "key < a" "\<forall>k \<in> A. key < k \<longrightarrow> a \<le> k" "b \<in> B" "key < b" "\<forall>k \<in> B. key < k \<longrightarrow> b \<le> k"
      using b assms by (auto simp: succ_in_Some)
    then have "succ_in (A \<union> B) key = Some (if a > b then b else a)"
      using assms by (auto simp: succ_in_Some not_less intro: order.trans less_imp_le)
    then show ?thesis using b Some by simp
  qed
qed

text \<open>The bound does not matter to the comparison with the table's own keys.\<close>

lemma below_merge:
  "below bound (case x of None \<Rightarrow> below bound next
     | Some k \<Rightarrow> (case below bound next of None \<Rightarrow> Some k | Some n \<Rightarrow> if n > k then Some k else below bound next)) =
   below bound (case x of None \<Rightarrow> next
     | Some k \<Rightarrow> (case next of None \<Rightarrow> Some k | Some n \<Rightarrow> if n > k then Some k else Some n))"
  by (auto simp: below_def split: option.splits)

context read_view
begin

lemma base_succ_skips:
  "baseSucc base erased bound key = Some (Inr (below bound (succ_in (dom M - {k. erased k}) key)))"
proof (induction "card {k \<in> dom M. key < k}" arbitrary: key rule: less_induct)
  case less
  show ?case
  proof (cases "below bound (succ_in (dom M) key)")
    case None
    have "below bound (succ_in (dom M - {k. erased k}) key) = None"
    proof (cases "succ_in (dom M - {k. erased k}) key")
      case (Some n)
      then have n: "n \<in> dom M" "key < n" using base_finite by (simp_all add: succ_in_Some)
      then obtain m where m: "succ_in (dom M) key = Some m" by (cases "succ_in (dom M) key") (auto simp: succ_in_None)
      then have "m \<le> n" using n base_finite by (simp add: succ_in_Some)
      then show ?thesis using None m Some by (auto simp: below_def split: option.splits if_splits)
    qed simp
    then show ?thesis using None by (subst baseSucc.simps) (simp add: base_succ)
  next
    case (Some n)
    then have s: "succ_in (dom M) key = Some n" by (auto simp: below_def split: option.splits if_splits)
    then have n: "n \<in> dom M" "key < n" "\<forall>k \<in> dom M. key < k \<longrightarrow> n \<le> k" using base_finite by (auto simp: succ_in_Some)
    show ?thesis
    proof (cases "erased n")
      case True
      have "{k \<in> dom M - {k. erased k}. n < k} = {k \<in> dom M - {k. erased k}. key < k}"
        using n True by (auto simp: order.strict_iff_order)
      then have "succ_in (dom M - {k. erased k}) n = succ_in (dom M - {k. erased k}) key" by (simp add: succ_in_def)
      moreover have "card {k \<in> dom M. n < k} < card {k \<in> dom M. key < k}"
        using n base_finite by (intro psubset_card_mono) auto
      ultimately show ?thesis using less [of n] Some True by (subst baseSucc.simps) (simp add: base_succ)
    next
      case False
      then have "succ_in (dom M - {k. erased k}) key = Some n" using n base_finite by (simp add: succ_in_Some)
      then show ?thesis using Some s False by (subst baseSucc.simps) (simp add: base_succ)
    qed
  qed
qed

lemma succ_over:
  assumes "sorted live" "dom M - {k. erased k} \<union> set live = D"
  shows "succOver base erased live key bound = Inr (below bound (succ_in D key))"
  using below_merge [of bound "succ_in (dom M - {k. erased k}) key" "succ_in (set live) key"] base_finite
  by (simp add: succOver_def base_succ_skips Let_def find_succ [OF assms(1)] succ_in_union assms(2) [symmetric])

end

section \<open>The interface for changing entries\<close>

text \<open>The entry that an operation is given is a pointer into the store.\<close>

record 's raw_view =
  rw_erase :: "nat \<Rightarrow> 's \<Rightarrow> 's res"
  rw_insert :: "nat \<Rightarrow> 's \<Rightarrow> 's res"
  rw_replace :: "nat \<Rightarrow> 's \<Rightarrow> 's res"
  rw_destroyCSC :: "int \<Rightarrow> 's \<Rightarrow> 's"

text \<open>
  A view promises nothing for the removal or replacement of an entry it does not have and
  for the insertion of one it has.
\<close>

locale raw_view =
  fixes to :: "'s raw_view" and h :: "'d heap"
    and contents :: "'s \<Rightarrow> uint256 \<rightharpoonup> 'd sle" and destroyed :: "'s \<Rightarrow> int" and inv :: "'s \<Rightarrow> bool"
  assumes raw_erase_law: "inv s \<Longrightarrow> p < length h \<Longrightarrow> contents s (sle_key (h ! p)) \<noteq> None \<Longrightarrow>
      \<exists>s'. rw_erase to p s = Inr s' \<and> inv s' \<and> destroyed s' = destroyed s \<and>
        contents s' = (contents s)(sle_key (h ! p) := None)"
    and raw_insert_law: "inv s \<Longrightarrow> p < length h \<Longrightarrow> contents s (sle_key (h ! p)) = None \<Longrightarrow>
      \<exists>s'. rw_insert to p s = Inr s' \<and> inv s' \<and> destroyed s' = destroyed s \<and>
        contents s' = (contents s)(sle_key (h ! p) := Some (h ! p))"
    and raw_replace_law: "inv s \<Longrightarrow> p < length h \<Longrightarrow> contents s (sle_key (h ! p)) \<noteq> None \<Longrightarrow>
      \<exists>s'. rw_replace to p s = Inr s' \<and> inv s' \<and> destroyed s' = destroyed s \<and>
        contents s' = (contents s)(sle_key (h ! p) := Some (h ! p))"
    and raw_destroy_law: "inv s \<Longrightarrow> inv (rw_destroyCSC to n s) \<and> contents (rw_destroyCSC to n s) = contents s \<and>
      destroyed (rw_destroyCSC to n s) = destroyed s + n"

section \<open>Committing changes\<close>

text \<open>
  What a state table does to the view it is applied to, entry by entry in key order; a
  cached entry is left alone.
\<close>

datatype change = ChErase | ChInsert | ChReplace | ChNone

fun perform :: "'s raw_view \<Rightarrow> uint256 \<times> change \<times> nat \<Rightarrow> 's \<Rightarrow> 's res" where
  "perform to (k, ChErase, p) s = rw_erase to p s"
| "perform to (k, ChInsert, p) s = rw_insert to p s"
| "perform to (k, ChReplace, p) s = rw_replace to p s"
| "perform to (k, ChNone, p) s = Inr s"

definition changed :: "'d heap \<Rightarrow> (uint256 \<rightharpoonup> 'd sle) \<Rightarrow> (uint256 \<times> change \<times> nat) list \<Rightarrow> uint256 \<rightharpoonup> 'd sle" where
  "changed h M chs k =
     (case map_of chs k of None \<Rightarrow> M k | Some (ChNone, p) \<Rightarrow> M k | Some (ChErase, p) \<Rightarrow> None
      | Some (_, p) \<Rightarrow> Some (h ! p))"

text \<open>Changes that fit the map they are made to.\<close>

definition change_fits :: "'d heap \<Rightarrow> (uint256 \<rightharpoonup> 'd sle) \<Rightarrow> uint256 \<times> change \<times> nat \<Rightarrow> bool" where
  "change_fits h M x \<longleftrightarrow> (case x of (k, c, p) \<Rightarrow> p < length h \<and> sle_key (h ! p) = k \<and> (c = ChInsert \<longleftrightarrow> M k = None))"

lemma changed_Nil [simp]: "changed h M [] = M"
  by (simp add: changed_def fun_eq_iff)

lemma changed_Cons:
  "changed h M ((k, c, p) # chs) = (changed h M chs)
     (k := (case c of ChNone \<Rightarrow> M k | ChErase \<Rightarrow> None | _ \<Rightarrow> Some (h ! p)))"
  by (auto simp: changed_def fun_eq_iff split: change.splits)

lemma changed_upd_other: "k \<notin> fst ` set chs \<Longrightarrow> changed h (M(k := x)) chs = (changed h M chs)(k := x)"
  by (auto simp: changed_def fun_eq_iff map_of_eq_None_iff [symmetric] split: option.splits change.splits)

lemma change_fits_other:
  "k \<notin> fst ` set chs \<Longrightarrow> \<forall>x \<in> set chs. change_fits h M x \<Longrightarrow> \<forall>x \<in> set chs. change_fits h (M(k := y)) x"
  by (force simp: change_fits_def)

context raw_view
begin

lemma perform_law:
  assumes "inv s" "change_fits h (contents s) (k, c, p)"
  shows "\<exists>s'. perform to (k, c, p) s = Inr s' \<and> inv s' \<and> destroyed s' = destroyed s \<and>
    contents s' = (contents s)(k := (case c of ChNone \<Rightarrow> contents s k | ChErase \<Rightarrow> None | _ \<Rightarrow> Some (h ! p)))"
  using assms raw_erase_law [of s p] raw_insert_law [of s p] raw_replace_law [of s p]
  by (cases c) (auto simp: change_fits_def)

lemma commit_law:
  assumes "inv s" "distinct (map fst chs)" "\<forall>x \<in> set chs. change_fits h (contents s) x"
  shows "\<exists>s'. rfold (perform to) chs s = Inr s' \<and> inv s' \<and> destroyed s' = destroyed s \<and>
    contents s' = changed h (contents s) chs"
  using assms
proof (induction chs arbitrary: s)
  case (Cons x chs)
  obtain k c p where x: "x = (k, c, p)" by (cases x)
  have k: "k \<notin> fst ` set chs" using Cons(3) x by simp
  from perform_law [of s k c p] obtain s1 where
    s1: "perform to x s = Inr s1" "inv s1" "destroyed s1 = destroyed s"
      "contents s1 = (contents s)(k := (case c of ChNone \<Rightarrow> contents s k | ChErase \<Rightarrow> None | _ \<Rightarrow> Some (h ! p)))"
    using Cons(2,4) x by auto
  have "\<forall>y \<in> set chs. change_fits h (contents s1) y"
    unfolding s1(4) by (rule change_fits_other [OF k]) (use Cons(4) in simp)
  from Cons(1) [OF s1(2) _ this] Cons(3) obtain s' where
    "rfold (perform to) chs s1 = Inr s'" "inv s'" "destroyed s' = destroyed s1" "contents s' = changed h (contents s1) chs"
    by auto
  then show ?case
    using s1 x changed_upd_other [OF k, of h "contents s"] by (auto simp: changed_Cons)
qed simp

end

end
