(* ===== verification/RawStateTable.thy ===== *)
theory RawStateTable
  imports ReadView
begin

text \<open>
  The table of changes of an open view (\<open>ledger/detail/RawStateTable.h\<close>,
  \<open>ledger/impl/RawStateTable.cpp\<close>): entries to be inserted, replaced or erased in a base
  view when the table is applied to it. Reading through the table shows the base with the
  changes made; iteration merges the two.
\<close>

section \<open>Data and operations\<close>

datatype raw_action = RawErase | RawInsert | RawReplace

record raw_table =
  rt_items :: "(uint256, raw_action \<times> nat) ord_map"
  rt_dropsDestroyed :: int

definition raw_empty :: raw_table where
  "raw_empty = \<lparr>rt_items = [], rt_dropsDestroyed = 0\<rparr>"

fun raw_change :: "raw_action \<Rightarrow> change" where
  "raw_change RawErase = ChErase"
| "raw_change RawInsert = ChInsert"
| "raw_change RawReplace = ChReplace"

abbreviation raw_changes :: "(uint256, raw_action \<times> nat) ord_map \<Rightarrow> (uint256 \<times> change \<times> nat) list" where
  "raw_changes items \<equiv> map (\<lambda>(k, a, p). (k, raw_change a, p)) items"

definition raw_apply :: "raw_table \<Rightarrow> 's raw_view \<Rightarrow> 's \<Rightarrow> 's res" where
  "raw_apply t to s = rfold (perform to) (raw_changes (rt_items t)) (rw_destroyCSC to (rt_dropsDestroyed t) s)"

definition raw_exists :: "'d heap \<Rightarrow> raw_table \<Rightarrow> 'd read_view \<Rightarrow> keylet \<Rightarrow> bool res" where
  "raw_exists h t base k =
     rassert (kl_key k \<noteq> 0) ''RawStateTable::exists''
       (case map_of (rt_items t) (kl_key k) of
          None \<Rightarrow> rv_exists base k
        | Some (RawErase, p) \<Rightarrow> Inr False
        | Some (_, p) \<Rightarrow> kl_check k (h ! p))"

definition raw_erased :: "raw_table \<Rightarrow> uint256 \<Rightarrow> bool" where
  "raw_erased t k \<longleftrightarrow> (case map_of (rt_items t) k of Some (RawErase, p) \<Rightarrow> True | _ \<Rightarrow> False)"

definition raw_live :: "raw_table \<Rightarrow> uint256 list" where
  "raw_live t = map fst (filter (\<lambda>(k, a, p). a \<noteq> RawErase) (rt_items t))"

definition raw_succ :: "raw_table \<Rightarrow> 'd read_view \<Rightarrow> uint256 \<Rightarrow> uint256 option \<Rightarrow> uint256 option res" where
  "raw_succ t base key bound = succOver base (raw_erased t) (raw_live t) key bound"

definition raw_erase :: "'d heap \<Rightarrow> nat \<Rightarrow> raw_table \<Rightarrow> raw_table res" where
  "raw_erase h p t =
     (let k = sle_key (h ! p); items = rt_items t
      in case map_of items k of
           None \<Rightarrow> Inr (t\<lparr>rt_items := om_put k (RawErase, p) items\<rparr>)
         | Some (RawErase, _) \<Rightarrow> Inl (Thrown ''RawStateTable::erase: already erased'')
         | Some (RawInsert, _) \<Rightarrow> Inr (t\<lparr>rt_items := AList.delete k items\<rparr>)
         | Some (RawReplace, _) \<Rightarrow> Inr (t\<lparr>rt_items := om_put k (RawErase, p) items\<rparr>))"

definition raw_insert :: "'d heap \<Rightarrow> nat \<Rightarrow> raw_table \<Rightarrow> raw_table res" where
  "raw_insert h p t =
     (let k = sle_key (h ! p); items = rt_items t
      in case map_of items k of
           None \<Rightarrow> Inr (t\<lparr>rt_items := om_put k (RawInsert, p) items\<rparr>)
         | Some (RawErase, _) \<Rightarrow> Inr (t\<lparr>rt_items := om_put k (RawReplace, p) items\<rparr>)
         | Some (RawInsert, _) \<Rightarrow> Inl (Thrown ''RawStateTable::insert: already inserted'')
         | Some (RawReplace, _) \<Rightarrow> Inl (Thrown ''RawStateTable::insert: already exists''))"

definition raw_replace :: "'d heap \<Rightarrow> nat \<Rightarrow> raw_table \<Rightarrow> raw_table res" where
  "raw_replace h p t =
     (let k = sle_key (h ! p); items = rt_items t
      in case map_of items k of
           None \<Rightarrow> Inr (t\<lparr>rt_items := om_put k (RawReplace, p) items\<rparr>)
         | Some (RawErase, _) \<Rightarrow> Inl (Thrown ''RawStateTable::replace: was erased'')
         | Some (a, _) \<Rightarrow> Inr (t\<lparr>rt_items := om_put k (a, p) items\<rparr>))"

definition raw_read :: "'d heap \<Rightarrow> raw_table \<Rightarrow> 'd read_view \<Rightarrow> keylet \<Rightarrow> 'd sle option res" where
  "raw_read h t base k =
     (case map_of (rt_items t) (kl_key k) of
        None \<Rightarrow> rv_read base k
      | Some (RawErase, p) \<Rightarrow> Inr None
      | Some (_, p) \<Rightarrow> checked k (h ! p))"

definition raw_destroyCSC :: "int \<Rightarrow> raw_table \<Rightarrow> raw_table" where
  "raw_destroyCSC fee t = t\<lparr>rt_dropsDestroyed := rt_dropsDestroyed t + fee\<rparr>"

text \<open>The two interfaces of the table.\<close>

definition raw_read_view :: "'d heap \<Rightarrow> raw_table \<Rightarrow> 'd read_view \<Rightarrow> 'd read_view" where
  "raw_read_view h t base =
     \<lparr>rv_exists = raw_exists h t base, rv_succ = raw_succ t base, rv_read = raw_read h t base\<rparr>"

definition raw_ops :: "'d heap \<Rightarrow> raw_table raw_view" where
  "raw_ops h = \<lparr>rw_erase = raw_erase h, rw_insert = raw_insert h, rw_replace = raw_replace h,
                rw_destroyCSC = raw_destroyCSC\<rparr>"

section \<open>Iteration\<close>

text \<open>
  The iterator of the table merges the entries of the table with those of the base: the
  lists are what is left of the two. Comparing with the key of \<open>sle0_\<close> when the base is
  exhausted would follow a null pointer.
\<close>

type_synonym 'd sles_iter = "(uint256, raw_action \<times> nat) ord_map \<times> 'd sle list"

fun iter_skip :: "'d heap \<Rightarrow> 'd sles_iter \<Rightarrow> 'd sles_iter res" where
  "iter_skip h ((k, RawErase, p) # l1, []) = Inl (AssertFailed ''sle0'')"
| "iter_skip h ((k, RawErase, p) # l1, s # l0) =
     (if sle_key s = sle_key (h ! p) then if l0 = [] then Inr (l1, l0) else iter_skip h (l1, l0)
      else Inr ((k, RawErase, p) # l1, s # l0))"
| "iter_skip h it = Inr it"

definition iter_make :: "'d heap \<Rightarrow> 'd sles_iter \<Rightarrow> 'd sles_iter res" where
  "iter_make h it = (if fst it \<noteq> [] then iter_skip h it else Inr it)"

fun iter_deref :: "'d heap \<Rightarrow> 'd sles_iter \<Rightarrow> 'd sle option" where
  "iter_deref h ([], []) = None"
| "iter_deref h ([], s # l0) = Some s"
| "iter_deref h ((k, a, p) # l1, []) = Some (h ! p)"
| "iter_deref h ((k, a, p) # l1, s # l0) = Some (if sle_key (h ! p) \<le> sle_key s then h ! p else s)"

fun iter_increment :: "'d heap \<Rightarrow> 'd sles_iter \<Rightarrow> 'd sles_iter res" where
  "iter_increment h ([], []) = Inl (AssertFailed ''increment'')"
| "iter_increment h ([], s # l0) = Inr ([], l0)"
| "iter_increment h (x # l1, []) = Inr (l1, [])"
| "iter_increment h ((k, a, p) # l1, s # l0) =
     iter_skip h (if sle_key (h ! p) = sle_key s then (l1, l0)
                  else if sle_key (h ! p) < sle_key s then (l1, s # l0) else ((k, a, p) # l1, l0))"

text \<open>At most \<open>n\<close> rounds of a loop over the entries.\<close>

primrec iter_sles :: "'d heap \<Rightarrow> nat \<Rightarrow> 'd sles_iter \<Rightarrow> 'd sle list res" where
  "iter_sles h 0 it = Inr []"
| "iter_sles h (Suc n) it =
     (case iter_deref h it of None \<Rightarrow> Inr []
      | Some s \<Rightarrow> rbind (iter_increment h it) (\<lambda>it'. rbind (iter_sles h n it') (\<lambda>ss. Inr (s # ss))))"

definition raw_slesBegin :: "'d heap \<Rightarrow> raw_table \<Rightarrow> 'd sle list \<Rightarrow> 'd sles_iter res" where
  "raw_slesBegin h t base_sles = iter_make h (rt_items t, base_sles)"

definition raw_slesUpperBound :: "'d heap \<Rightarrow> raw_table \<Rightarrow> uint256 \<Rightarrow> 'd sle list \<Rightarrow> 'd sles_iter res" where
  "raw_slesUpperBound h t key base_above =
     iter_make h (dropWhile (\<lambda>x. fst x \<le> key) (rt_items t), base_above)"

section \<open>The map a table stands for\<close>

text \<open>
  A table that fits the contents of its base: the items point to entries with their key,
  and exactly the inserted keys are missing from the base.
\<close>

definition raw_ok :: "'d heap \<Rightarrow> (uint256 \<rightharpoonup> 'd sle) \<Rightarrow> raw_table \<Rightarrow> bool" where
  "raw_ok h M t \<longleftrightarrow> om_wf (rt_items t) \<and> (\<forall>x \<in> set (raw_changes (rt_items t)). change_fits h M x)"

definition raw_contents :: "'d heap \<Rightarrow> (uint256 \<rightharpoonup> 'd sle) \<Rightarrow> raw_table \<Rightarrow> uint256 \<rightharpoonup> 'd sle" where
  "raw_contents h M t = changed h M (raw_changes (rt_items t))"

lemma map_of_raw_changes: "map_of (raw_changes items) k = map_option (\<lambda>(a, p). (raw_change a, p)) (map_of items k)"
  by (induction items) auto

lemma raw_contents_iff:
  "raw_contents h M t k = (case map_of (rt_items t) k of None \<Rightarrow> M k | Some (RawErase, p) \<Rightarrow> None | Some (_, p) \<Rightarrow> Some (h ! p))"
  by (auto simp: raw_contents_def changed_def map_of_raw_changes split: option.splits raw_action.splits change.splits)

lemma raw_ok_iff:
  "raw_ok h M t \<longleftrightarrow> om_wf (rt_items t) \<and>
     (\<forall>k a p. map_of (rt_items t) k = Some (a, p) \<longrightarrow>
        p < length h \<and> sle_key (h ! p) = k \<and> (a = RawInsert \<longleftrightarrow> M k = None))"
proof -
  have "raw_change a = ChInsert \<longleftrightarrow> a = RawInsert" for a by (cases a) auto
  then have "(\<forall>x \<in> set (raw_changes (rt_items t)). change_fits h M x) \<longleftrightarrow>
      (\<forall>k a p. (k, a, p) \<in> set (rt_items t) \<longrightarrow>
        p < length h \<and> sle_key (h ! p) = k \<and> (a = RawInsert \<longleftrightarrow> M k = None))"
    by (auto simp: change_fits_def)
  then show ?thesis
    by (cases "om_wf (rt_items t)") (simp add: raw_ok_def om_wf_def, simp add: raw_ok_def)
qed

lemma om_wf_delete [simp]: "om_wf m \<Longrightarrow> om_wf (AList.delete k m)"
  by (induction m) (auto simp: om_wf_def AList.delete_eq)

lemma raw_ok_distinct: "raw_ok h M t \<Longrightarrow> distinct (map fst (raw_changes (rt_items t)))"
  by (simp add: raw_ok_def om_wf_def comp_def case_prod_unfold)

text \<open>Changes to the table are changes to the map.\<close>

lemma raw_put_ok:
  assumes "raw_ok h M t" "p < length h" "sle_key (h ! p) = k" "a = RawInsert \<longleftrightarrow> M k = None"
  shows "raw_ok h M (t\<lparr>rt_items := om_put k (a, p) (rt_items t)\<rparr>)"
    "raw_contents h M (t\<lparr>rt_items := om_put k (a, p) (rt_items t)\<rparr>) =
       (raw_contents h M t)(k := (if a = RawErase then None else Some (h ! p)))"
proof -
  have w: "om_wf (rt_items t)" using assms(1) by (simp add: raw_ok_iff)
  show "raw_ok h M (t\<lparr>rt_items := om_put k (a, p) (rt_items t)\<rparr>)"
    using assms by (auto simp: raw_ok_iff map_of_om_put [OF w] split: if_splits)
  show "raw_contents h M (t\<lparr>rt_items := om_put k (a, p) (rt_items t)\<rparr>) =
       (raw_contents h M t)(k := (if a = RawErase then None else Some (h ! p)))"
    by (cases a) (auto simp: raw_contents_iff map_of_om_put [OF w])
qed

lemma raw_delete_ok:
  assumes "raw_ok h M t" "map_of (rt_items t) k = Some (RawInsert, p)"
  shows "raw_ok h M (t\<lparr>rt_items := AList.delete k (rt_items t)\<rparr>)"
    "raw_contents h M (t\<lparr>rt_items := AList.delete k (rt_items t)\<rparr>) = (raw_contents h M t)(k := None)"
  using assms by (auto simp: raw_ok_iff raw_contents_iff delete_conv' fun_eq_iff)

lemma raw_item:
  assumes "raw_ok h M t"
  obtains (absent) "map_of (rt_items t) k = None" "raw_contents h M t k = M k"
  | (erased) q where "map_of (rt_items t) k = Some (RawErase, q)" "raw_contents h M t k = None" "M k \<noteq> None"
  | (inserted) q where "map_of (rt_items t) k = Some (RawInsert, q)" "raw_contents h M t k = Some (h ! q)" "M k = None"
  | (replaced) q where "map_of (rt_items t) k = Some (RawReplace, q)" "raw_contents h M t k = Some (h ! q)" "M k \<noteq> None"
proof (cases "map_of (rt_items t) k")
  case (Some x)
  obtain a q where x: "x = (a, q)" by (cases x)
  then have "a = RawInsert \<longleftrightarrow> M k = None" using assms Some by (simp add: raw_ok_iff)
  then show ?thesis using that(2,3,4) Some x by (cases a) (simp_all add: raw_contents_iff)
qed (use that(1) in \<open>simp add: raw_contents_iff\<close>)

lemma raw_erase_ok:
  assumes "raw_ok h M t" "p < length h" "raw_contents h M t (sle_key (h ! p)) \<noteq> None"
  shows "\<exists>t'. raw_erase h p t = Inr t' \<and> raw_ok h M t' \<and> rt_dropsDestroyed t' = rt_dropsDestroyed t \<and>
    raw_contents h M t' = (raw_contents h M t)(sle_key (h ! p) := None)"
  using raw_put_ok [OF assms(1,2) refl, of RawErase] raw_delete_ok [OF assms(1)] assms(3)
  by (cases rule: raw_item [OF assms(1), of "sle_key (h ! p)"]) (simp_all add: raw_erase_def Let_def)

lemma raw_insert_ok:
  assumes "raw_ok h M t" "p < length h" "raw_contents h M t (sle_key (h ! p)) = None"
  shows "\<exists>t'. raw_insert h p t = Inr t' \<and> raw_ok h M t' \<and> rt_dropsDestroyed t' = rt_dropsDestroyed t \<and>
    raw_contents h M t' = (raw_contents h M t)(sle_key (h ! p) := Some (h ! p))"
  using raw_put_ok [OF assms(1,2) refl, of RawInsert] raw_put_ok [OF assms(1,2) refl, of RawReplace] assms(3)
  by (cases rule: raw_item [OF assms(1), of "sle_key (h ! p)"]) (simp_all add: raw_insert_def Let_def)

lemma raw_replace_ok:
  assumes "raw_ok h M t" "p < length h" "raw_contents h M t (sle_key (h ! p)) \<noteq> None"
  shows "\<exists>t'. raw_replace h p t = Inr t' \<and> raw_ok h M t' \<and> rt_dropsDestroyed t' = rt_dropsDestroyed t \<and>
    raw_contents h M t' = (raw_contents h M t)(sle_key (h ! p) := Some (h ! p))"
  using raw_put_ok [OF assms(1,2) refl, of RawInsert] raw_put_ok [OF assms(1,2) refl, of RawReplace] assms(3)
  by (cases rule: raw_item [OF assms(1), of "sle_key (h ! p)"]) (simp_all add: raw_replace_def Let_def)

lemma raw_destroy_ok:
  "raw_ok h M (raw_destroyCSC n t) \<longleftrightarrow> raw_ok h M t" "raw_contents h M (raw_destroyCSC n t) = raw_contents h M t"
  "rt_dropsDestroyed (raw_destroyCSC n t) = rt_dropsDestroyed t + n"
  by (simp_all add: raw_destroyCSC_def raw_ok_def raw_contents_def)

interpretation raw_table_view: raw_view "raw_ops h" h "raw_contents h M" rt_dropsDestroyed "raw_ok h M" for h M
  by unfold_locales
    (simp_all add: raw_ops_def raw_erase_ok raw_insert_ok raw_replace_ok raw_destroy_ok del: not_None_eq)

text \<open>Reading through a table is reading the changed map.\<close>

lemma raw_live_sorted: "om_wf (rt_items t) \<Longrightarrow> sorted (raw_live t)"
  unfolding raw_live_def om_wf_def by (simp add: sorted_filter)

lemma raw_live_set:
  assumes "om_wf (rt_items t)"
  shows "k \<in> set (raw_live t) \<longleftrightarrow> (\<exists>a p. map_of (rt_items t) k = Some (a, p) \<and> a \<noteq> RawErase)"
  using assms unfolding raw_live_def om_wf_def by force

context read_view
begin

lemma raw_read_view:
  assumes "raw_ok h M t"
  shows "read_view (raw_read_view h t base) (raw_contents h M t)"
proof
  have w: "om_wf (rt_items t)" using assms by (simp add: raw_ok_iff)
  have "dom (raw_contents h M t) \<subseteq> dom M \<union> fst ` set (rt_items t)"
    by (auto simp: raw_contents_iff map_of_eq_None_iff split: option.splits) (force dest: map_of_SomeD)
  then show "finite (dom (raw_contents h M t))" by (rule finite_subset) (simp add: base_finite)
  show "sle_key s = k" if "raw_contents h M t k = Some s" for k s
    using that assms base_key by (cases rule: raw_item [OF assms, of k]) (auto simp: raw_ok_iff)
  show "exists_ok (raw_contents h M t) kl (rv_exists (raw_read_view h t base) kl)" if "kl_key kl \<noteq> 0" for kl
    using base_exists [OF that] that
    by (cases rule: raw_item [OF assms, of "kl_key kl"]) (simp_all add: raw_read_view_def raw_exists_def exists_ok_def)
  show "rv_read (raw_read_view h t base) kl = read_of (raw_contents h M t) kl" if "kl_key kl \<noteq> 0" for kl
    using base_read [OF that]
    by (cases rule: raw_item [OF assms, of "kl_key kl"]) (simp_all add: raw_read_view_def raw_read_def read_of_def)
  have "k \<in> dom M - {k. raw_erased t k} \<union> set (raw_live t) \<longleftrightarrow> k \<in> dom (raw_contents h M t)" for k
    by (cases rule: raw_item [OF assms, of k]) (simp_all add: raw_live_set [OF w] raw_erased_def dom_def)
  then have "dom M - {k. raw_erased t k} \<union> set (raw_live t) = dom (raw_contents h M t)" by blast
  then show "rv_succ (raw_read_view h t base) key bound = Inr (below bound (succ_in (dom (raw_contents h M t)) key))" for key bound
    using succ_over [OF raw_live_sorted [OF w]] by (simp add: raw_read_view_def raw_succ_def)
qed

end

context raw_view
begin

lemma raw_apply_law:
  assumes "inv s" "raw_ok h (contents s) t"
  shows "\<exists>s'. raw_apply t to s = Inr s' \<and> inv s' \<and> destroyed s' = destroyed s + rt_dropsDestroyed t \<and>
    contents s' = raw_contents h (contents s) t"
  using commit_law [of "rw_destroyCSC to (rt_dropsDestroyed t) s" "raw_changes (rt_items t)"]
    raw_destroy_law [OF assms(1), of "rt_dropsDestroyed t"] raw_ok_distinct [OF assms(2)] assms(2)
  by (simp add: raw_apply_def raw_ok_def raw_contents_def)

end

section \<open>Iteration over the changed map\<close>

abbreviation keys_ascend :: "'d sle list \<Rightarrow> bool" where
  "keys_ascend \<equiv> sorted_wrt (\<lambda>a b. sle_key a < sle_key b)"

definition iter_ok :: "'d heap \<Rightarrow> 'd sles_iter \<Rightarrow> bool" where
  "iter_ok h it \<longleftrightarrow> sorted_wrt (\<lambda>a b. fst a < fst b) (fst it) \<and> keys_ascend (snd it) \<and>
     (\<forall>(k, a, p) \<in> set (fst it). sle_key (h ! p) = k \<and> (a = RawErase \<longrightarrow> k \<in> sle_key ` set (snd it)))"

definition live_entries :: "'d heap \<Rightarrow> (uint256, raw_action \<times> nat) ord_map \<Rightarrow> 'd sle set" where
  "live_entries h l1 = set (map (\<lambda>(k, a, p). h ! p) (filter (\<lambda>(k, a, p). a \<noteq> RawErase) l1))"

lemma live_entries_simps [simp]:
  "live_entries h [] = {}"
  "live_entries h ((k, a, p) # l1) = (if a = RawErase then live_entries h l1 else insert (h ! p) (live_entries h l1))"
  by (simp_all add: live_entries_def)

definition iter_entries :: "'d heap \<Rightarrow> 'd sles_iter \<Rightarrow> 'd sle set" where
  "iter_entries h it = live_entries h (fst it) \<union> {s \<in> set (snd it). sle_key s \<notin> fst ` set (fst it)}"

fun iter_at :: "'d heap \<Rightarrow> 'd sles_iter \<Rightarrow> bool" where
  "iter_at h ((k, RawErase, p) # l1, s # l0) \<longleftrightarrow> sle_key s \<noteq> sle_key (h ! p)"
| "iter_at h it \<longleftrightarrow> True"

definition iter_size :: "'d sles_iter \<Rightarrow> nat" where
  "iter_size it = length (fst it) + length (snd it)"

lemma iter_ok_tl1:
  assumes "iter_ok h ((k, a, p) # l1, l0)"
  shows "iter_ok h (l1, l0)"
  using assms by (auto simp: iter_ok_def)

lemma iter_ok_tl2:
  assumes "iter_ok h (l1, s # l0)" "sle_key s \<notin> fst ` set l1"
  shows "iter_ok h (l1, l0)"
  using assms by (force simp: iter_ok_def)

lemma iter_skip_ok:
  assumes "iter_ok h it"
  shows "\<exists>it'. iter_skip h it = Inr it' \<and> iter_ok h it' \<and> iter_at h it' \<and>
    iter_entries h it' = iter_entries h it \<and> iter_size it' \<le> iter_size it"
  using assms
proof (induction h it rule: iter_skip.induct)
  case (1 h k p l1)
  then show ?case by (auto simp: iter_ok_def)
next
  case (2 h k p l1 s l0)
  show ?case
  proof (cases "sle_key s = sle_key (h ! p)")
    case True
    have k: "sle_key (h ! p) = k" "k \<notin> fst ` set l1" "k \<notin> sle_key ` set l0" using 2(2) True by (auto simp: iter_ok_def)
    have ok: "iter_ok h (l1, l0)" using iter_ok_tl2 [OF iter_ok_tl1 [OF 2(2)]] k True by simp
    have E: "iter_entries h (l1, l0) = iter_entries h ((k, RawErase, p) # l1, s # l0)"
      using k True by (auto simp: iter_entries_def image_iff)
    show ?thesis
    proof (cases "l0 = []")
      case l0: True
      then have "iter_at h (l1, l0)" by (cases "(h, (l1, l0))" rule: iter_at.cases) auto
      then show ?thesis using True l0 ok E by (simp add: iter_size_def)
    next
      case False
      then show ?thesis using 2(1) [OF True False ok] True E by (auto simp: iter_size_def)
    qed
  qed (use 2(2) in \<open>simp add: iter_size_def\<close>)
qed (auto simp: iter_size_def)

lemma iter_step:
  assumes "iter_ok h it" "iter_at h it"
  shows "case iter_deref h it of None \<Rightarrow> iter_entries h it = {}
    | Some s \<Rightarrow> \<exists>it'. iter_increment h it = Inr it' \<and> iter_ok h it' \<and> iter_at h it' \<and> iter_size it' < iter_size it \<and>
        iter_entries h it = insert s (iter_entries h it') \<and> (\<forall>x \<in> iter_entries h it'. sle_key s < sle_key x)"
  using assms
proof (induction h it rule: iter_deref.induct)
  case (1 h)
  then show ?case by (simp add: iter_entries_def)
next
  case (2 h s l0)
  then show ?case by (auto simp: iter_entries_def iter_ok_def iter_size_def)
next
  case (3 h k a p l1)
  then have a: "a \<noteq> RawErase" "sle_key (h ! p) = k" by (auto simp: iter_ok_def)
  have live: "\<forall>x \<in> live_entries h l1. k < sle_key x" using 3(1) by (fastforce simp: iter_ok_def live_entries_def)
  have "iter_at h (l1, [])" by (cases "(h, (l1, [] :: 'a sle list))" rule: iter_at.cases) auto
  then show ?case
    using iter_ok_tl1 [OF 3(1)] a live by (simp add: iter_entries_def iter_size_def)
next
  case (4 h k a p l1 s l0)
  have k: "sle_key (h ! p) = k" "\<forall>x \<in> fst ` set l1. k < x" "\<forall>x \<in> set l0. sle_key s < sle_key x"
    using 4(1) by (auto simp: iter_ok_def)
  have live: "\<forall>x \<in> live_entries h l1. k < sle_key x" using 4(1) by (fastforce simp: iter_ok_def live_entries_def)
  consider (eq) "k = sle_key s" | (less) "k < sle_key s" | (greater) "sle_key s < k" by (metis linorder_neqE)
  then show ?case
  proof cases
    case eq
    then have a: "a \<noteq> RawErase" using 4(2) k(1) by (cases a) auto
    have "iter_ok h (l1, l0)" using iter_ok_tl2 [OF iter_ok_tl1 [OF 4(1)]] k(2) eq by blast
    moreover have "iter_entries h ((k, a, p) # l1, s # l0) = insert (h ! p) (iter_entries h (l1, l0))"
      using a eq k(3) by (auto simp: iter_entries_def)
    moreover have "\<forall>x \<in> iter_entries h (l1, l0). k < sle_key x"
      using k(3) eq live by (auto simp: iter_entries_def)
    ultimately show ?thesis using iter_skip_ok [of h "(l1, l0)"] eq k(1) by (auto simp: iter_size_def)
  next
    case less
    then have a: "a \<noteq> RawErase" using 4(1) k(3) by (auto simp: iter_ok_def)
    have "iter_entries h ((k, a, p) # l1, s # l0) = insert (h ! p) (iter_entries h (l1, s # l0))"
      using a less k(3) by (auto simp: iter_entries_def)
    moreover have "\<forall>x \<in> iter_entries h (l1, s # l0). k < sle_key x"
      using k(3) less live by (auto simp: iter_entries_def)
    ultimately show ?thesis
      using iter_skip_ok [OF iter_ok_tl1 [OF 4(1)]] less k(1) by (auto simp: iter_size_def)
  next
    case greater
    then have n: "sle_key s \<notin> fst ` set ((k, a, p) # l1)" using k(2) by auto
    have "iter_entries h ((k, a, p) # l1, s # l0) = insert s (iter_entries h ((k, a, p) # l1, l0))"
      using n by (auto simp: iter_entries_def)
    moreover have "\<forall>x \<in> iter_entries h ((k, a, p) # l1, l0). sle_key s < sle_key x"
      using k greater live by (auto simp: iter_entries_def)
    ultimately show ?thesis
      using iter_skip_ok [OF iter_ok_tl2 [OF 4(1) n]] greater k(1) by (auto simp: iter_size_def)
  qed
qed

lemma iter_sles_ok:
  assumes "iter_ok h it" "iter_at h it" "iter_size it \<le> n"
  shows "\<exists>es. iter_sles h n it = Inr es \<and> keys_ascend es \<and> set es = iter_entries h it"
  using assms
proof (induction n arbitrary: it)
  case 0
  then show ?case by (auto simp: iter_size_def iter_entries_def)
next
  case (Suc n)
  show ?case
  proof (cases "iter_deref h it")
    case None
    then show ?thesis using iter_step [OF Suc(2,3)] by simp
  next
    case (Some s)
    then obtain it' where it': "iter_increment h it = Inr it'" "iter_ok h it'" "iter_at h it'" "iter_size it' < iter_size it"
      "iter_entries h it = insert s (iter_entries h it')" "\<forall>x \<in> iter_entries h it'. sle_key s < sle_key x"
      using iter_step [OF Suc(2,3)] by auto
    with Suc(1) [OF it'(2,3)] Suc(4) Some show ?thesis by auto
  qed
qed

lemma om_sorted_wrt: "om_wf m \<Longrightarrow> sorted_wrt (\<lambda>a b. fst a < fst b) m"
  unfolding om_wf_def by (metis sorted_wrt_map strict_sorted_iff)

lemma om_dropWhile_le: "om_wf m \<Longrightarrow> dropWhile (\<lambda>x. fst x \<le> key) m = filter (\<lambda>x. key < fst x) m"
proof (induction m)
  case (Cons x m)
  then have "\<forall>y \<in> set m. fst x < fst y" "om_wf m" by (auto simp: om_wf_def order.strict_iff_order)
  then show ?case using Cons(1) by (auto simp: not_le intro!: filter_True [symmetric] intro: less_trans)
qed simp

definition enumerates :: "'d sle list \<Rightarrow> (uint256 \<rightharpoonup> 'd sle) \<Rightarrow> bool" where
  "enumerates es M \<longleftrightarrow> keys_ascend es \<and> (\<forall>k s. M k = Some s \<longleftrightarrow> s \<in> set es \<and> sle_key s = k)"

lemma merged_entries:
  assumes ok: "raw_ok h M t" and bs: "enumerates bs M" and n: "length (rt_items t) + length bs \<le> n"
  shows "\<exists>it es. iter_make h (filter (\<lambda>x. P (fst x)) (rt_items t), filter (\<lambda>s. P (sle_key s)) bs) = Inr it \<and>
    iter_sles h n it = Inr es \<and> enumerates es (\<lambda>k. if P k then raw_contents h M t k else None)"
proof -
  let ?l1 = "filter (\<lambda>x. P (fst x)) (rt_items t)" and ?l0 = "filter (\<lambda>s. P (sle_key s)) bs"
  have w: "om_wf (rt_items t)" using ok by (simp add: raw_ok_iff)
  have items: "(k, a, p) \<in> set (rt_items t) \<longleftrightarrow> map_of (rt_items t) k = Some (a, p)" for k a p
    using w by (simp add: om_wf_def)
  have base: "k \<in> sle_key ` set ?l0" if "P k" "map_of (rt_items t) k = Some (RawErase, p)" for k p
  proof -
    from ok that(2) have "M k \<noteq> None" by (auto simp: raw_ok_iff)
    then obtain s where "M k = Some s" by blast
    then show ?thesis using bs that(1) by (auto simp: enumerates_def)
  qed
  have i: "iter_ok h (?l1, ?l0)"
    using ok bs om_sorted_wrt [OF w] base
    by (auto simp: iter_ok_def raw_ok_iff items enumerates_def sorted_wrt_filter)
  have live: "x \<in> live_entries h ?l1 \<longleftrightarrow> (\<exists>k a p. P k \<and> map_of (rt_items t) k = Some (a, p) \<and> a \<noteq> RawErase \<and> x = h ! p)" for x
    by (force simp: live_entries_def items [symmetric])
  have key: "sle_key (h ! p) = k" if "map_of (rt_items t) k = Some (a, p)" for k a p
    using ok that by (simp add: raw_ok_iff)
  have absent: "k \<in> fst ` {x \<in> set (rt_items t). P (fst x)} \<longleftrightarrow> P k \<and> map_of (rt_items t) k \<noteq> None" for k
    by (force simp: map_of_eq_None_iff image_iff)
  have E: "s \<in> iter_entries h (?l1, ?l0) \<and> sle_key s = k \<longleftrightarrow> P k \<and> raw_contents h M t k = Some s" for s k
  proof -
    have "s \<in> iter_entries h (?l1, ?l0) \<and> sle_key s = k \<longleftrightarrow>
        P k \<and> ((\<exists>a p. map_of (rt_items t) k = Some (a, p) \<and> a \<noteq> RawErase \<and> s = h ! p) \<or>
          map_of (rt_items t) k = None \<and> M k = Some s)"
      using bs key by (auto simp: iter_entries_def live absent enumerates_def simp del: not_None_eq)
    also have "\<dots> \<longleftrightarrow> P k \<and> raw_contents h M t k = Some s"
      by (cases rule: raw_item [OF ok, of k]) auto
    finally show ?thesis .
  qed
  obtain it where it: "iter_make h (?l1, ?l0) = Inr it" "iter_ok h it" "iter_at h it"
    "iter_entries h it = iter_entries h (?l1, ?l0)" "iter_size it \<le> iter_size (?l1, ?l0)"
    using iter_skip_ok [OF i] i by (cases "?l1 = []") (auto simp: iter_make_def)
  have "iter_size it \<le> n"
    using it(5) n length_filter_le [of "\<lambda>x. P (fst x)" "rt_items t"] length_filter_le [of "\<lambda>s. P (sle_key s)" bs]
    unfolding iter_size_def fst_conv snd_conv by linarith
  from iter_sles_ok [OF it(2,3) this] obtain es where
    "iter_sles h n it = Inr es" "keys_ascend es" "set es = iter_entries h (?l1, ?l0)" using it(4) by auto
  then show ?thesis using it(1) E by (auto simp: enumerates_def)
qed


definition sample_sle :: "uint256 \<Rightarrow> nat \<Rightarrow> nat sle" where
  "sample_sle k d = \<lparr>sle_key = k, sle_type = LtOFFER, sle_data = d\<rparr>"


end
