(* ===== verification/ApplyStateTable.thy ===== *)
theory ApplyStateTable
  imports RawStateTable
begin

text \<open>
  The table of changes of a sandbox (\<open>ledger/detail/ApplyStateTable.h\<close>,
  \<open>ledger/impl/ApplyStateTable.cpp\<close>, used by \<open>ApplyViewBase\<close> and \<open>Sandbox\<close>): entries are
  peeked at, which caches a private copy, changed in place, and reported as updated,
  inserted or erased; committing the sandbox makes the changes in the parent view. The
  metadata that \<open>apply\<close> builds for a transaction is not modelled.
\<close>

section \<open>Data and operations\<close>

datatype apply_action = ACache | AErase | AInsert | AModify

record apply_table =
  at_items :: "(uint256, apply_action \<times> nat) ord_map"
  at_dropsDestroyed :: int

definition app_empty :: apply_table where
  "app_empty = \<lparr>at_items = [], at_dropsDestroyed = 0\<rparr>"

fun app_change :: "apply_action \<Rightarrow> change" where
  "app_change ACache = ChNone"
| "app_change AErase = ChErase"
| "app_change AInsert = ChInsert"
| "app_change AModify = ChReplace"

abbreviation app_changes :: "(uint256, apply_action \<times> nat) ord_map \<Rightarrow> (uint256 \<times> change \<times> nat) list" where
  "app_changes items \<equiv> map (\<lambda>(k, a, p). (k, app_change a, p)) items"

definition app_apply :: "apply_table \<Rightarrow> 's raw_view \<Rightarrow> 's \<Rightarrow> 's res" where
  "app_apply t to s = rfold (perform to) (app_changes (at_items t)) (rw_destroyCSC to (at_dropsDestroyed t) s)"

definition app_size :: "apply_table \<Rightarrow> nat" where
  "app_size t = length (filter (\<lambda>(k, a, p). a \<noteq> ACache) (at_items t))"

text \<open>The calls that \<open>visit\<close> makes: key, whether it is a deletion, entry before and after.\<close>

fun visit_items :: "'d heap \<Rightarrow> 'd read_view \<Rightarrow> (uint256, apply_action \<times> nat) ord_map \<Rightarrow>
    (uint256 \<times> bool \<times> 'd sle option \<times> 'd sle) list res" where
  "visit_items h to [] = Inr []"
| "visit_items h to ((k, a, p) # items) =
     (if a = ACache then visit_items h to items
      else rbind (if a = AInsert then Inr None else rv_read to (kl_unchecked k)) (\<lambda>before.
           rbind (visit_items h to items) (\<lambda>xs. Inr ((k, a = AErase, before, h ! p) # xs))))"

definition app_visit :: "'d heap \<Rightarrow> apply_table \<Rightarrow> 'd read_view \<Rightarrow> (uint256 \<times> bool \<times> 'd sle option \<times> 'd sle) list res" where
  "app_visit h t to = visit_items h to (at_items t)"

definition app_exists :: "'d heap \<Rightarrow> apply_table \<Rightarrow> 'd read_view \<Rightarrow> keylet \<Rightarrow> bool res" where
  "app_exists h t base k =
     (case map_of (at_items t) (kl_key k) of
        None \<Rightarrow> rv_exists base k
      | Some (AErase, p) \<Rightarrow> Inr False
      | Some (_, p) \<Rightarrow> kl_check k (h ! p))"

definition app_erased :: "apply_table \<Rightarrow> uint256 \<Rightarrow> bool" where
  "app_erased t k \<longleftrightarrow> (case map_of (at_items t) k of Some (AErase, p) \<Rightarrow> True | _ \<Rightarrow> False)"

definition app_live :: "apply_table \<Rightarrow> uint256 list" where
  "app_live t = map fst (filter (\<lambda>(k, a, p). a \<noteq> AErase) (at_items t))"

definition app_succ :: "apply_table \<Rightarrow> 'd read_view \<Rightarrow> uint256 \<Rightarrow> uint256 option \<Rightarrow> uint256 option res" where
  "app_succ t base key bound = succOver base (app_erased t) (app_live t) key bound"

definition app_read :: "'d heap \<Rightarrow> apply_table \<Rightarrow> 'd read_view \<Rightarrow> keylet \<Rightarrow> 'd sle option res" where
  "app_read h t base k =
     (case map_of (at_items t) (kl_key k) of
        None \<Rightarrow> rv_read base k
      | Some (AErase, p) \<Rightarrow> Inr None
      | Some (_, p) \<Rightarrow> checked k (h ! p))"

text \<open>\<open>peek\<close> makes a private copy of an entry of the base; the result is a pointer.\<close>

definition app_peek :: "'d heap \<Rightarrow> apply_table \<Rightarrow> 'd read_view \<Rightarrow> keylet \<Rightarrow>
    ('d heap \<times> apply_table \<times> nat option) res" where
  "app_peek h t base k =
     (case map_of (at_items t) (kl_key k) of
        None \<Rightarrow> rbind (rv_read base k) (\<lambda>r.
          case r of None \<Rightarrow> Inr (h, t, None)
          | Some s \<Rightarrow>
              (let items = om_insert (sle_key s) (ACache, length h) (at_items t)
               in Inr (h @ [s], t\<lparr>at_items := items\<rparr>, map_option snd (map_of items (sle_key s)))))
      | Some (AErase, p) \<Rightarrow> Inr (h, t, None)
      | Some (_, p) \<Rightarrow> rbind (kl_check k (h ! p)) (\<lambda>ok. Inr (h, t, if ok then Some p else None)))"

definition app_erase :: "'d heap \<Rightarrow> nat \<Rightarrow> apply_table \<Rightarrow> apply_table res" where
  "app_erase h p t =
     (let k = sle_key (h ! p); items = at_items t
      in case map_of items k of
           None \<Rightarrow> Inl (Thrown ''ApplyStateTable::erase: missing key'')
         | Some (a, q) \<Rightarrow>
             if q \<noteq> p then Inl (Thrown ''ApplyStateTable::erase: unknown SLE'')
             else if a = AErase then Inl (Thrown ''ApplyStateTable::erase: double erase'')
             else if a = AInsert then Inr (t\<lparr>at_items := AList.delete k items\<rparr>)
             else Inr (t\<lparr>at_items := om_put k (AErase, q) items\<rparr>))"

definition app_rawErase :: "'d heap \<Rightarrow> nat \<Rightarrow> apply_table \<Rightarrow> apply_table res" where
  "app_rawErase h p t =
     (let k = sle_key (h ! p); items = at_items t
      in case map_of items k of
           None \<Rightarrow> Inr (t\<lparr>at_items := om_put k (AErase, p) items\<rparr>)
         | Some (AErase, _) \<Rightarrow> Inl (Thrown ''ApplyStateTable::rawErase: double erase'')
         | Some (AInsert, _) \<Rightarrow> Inr (t\<lparr>at_items := AList.delete k items\<rparr>)
         | Some (_, _) \<Rightarrow> Inr (t\<lparr>at_items := om_put k (AErase, p) items\<rparr>))"

definition app_insert :: "'d heap \<Rightarrow> nat \<Rightarrow> apply_table \<Rightarrow> apply_table res" where
  "app_insert h p t =
     (let k = sle_key (h ! p); items = at_items t
      in case map_of items k of
           None \<Rightarrow> Inr (t\<lparr>at_items := om_put k (AInsert, p) items\<rparr>)
         | Some (ACache, _) \<Rightarrow> Inl (Thrown ''ApplyStateTable::insert: already cached'')
         | Some (AInsert, _) \<Rightarrow> Inl (Thrown ''ApplyStateTable::insert: already inserted'')
         | Some (AModify, _) \<Rightarrow> Inl (Thrown ''ApplyStateTable::insert: already modified'')
         | Some (AErase, _) \<Rightarrow> Inr (t\<lparr>at_items := om_put k (AModify, p) items\<rparr>))"

definition app_replace :: "'d heap \<Rightarrow> nat \<Rightarrow> apply_table \<Rightarrow> apply_table res" where
  "app_replace h p t =
     (let k = sle_key (h ! p); items = at_items t
      in case map_of items k of
           None \<Rightarrow> Inr (t\<lparr>at_items := om_put k (AModify, p) items\<rparr>)
         | Some (AErase, _) \<Rightarrow> Inl (Thrown ''ApplyStateTable::replace: already erased'')
         | Some (a, _) \<Rightarrow> Inr (t\<lparr>at_items := om_put k (if a = ACache then AModify else a, p) items\<rparr>))"

definition app_update :: "'d heap \<Rightarrow> nat \<Rightarrow> apply_table \<Rightarrow> apply_table res" where
  "app_update h p t =
     (let k = sle_key (h ! p); items = at_items t
      in case map_of items k of
           None \<Rightarrow> Inl (Thrown ''ApplyStateTable::update: missing key'')
         | Some (a, q) \<Rightarrow>
             if q \<noteq> p then Inl (Thrown ''ApplyStateTable::update: unknown SLE'')
             else if a = AErase then Inl (Thrown ''ApplyStateTable::update: erased'')
             else if a = ACache then Inr (t\<lparr>at_items := om_put k (AModify, q) items\<rparr>)
             else Inr t)"

definition app_destroyCSC :: "int \<Rightarrow> apply_table \<Rightarrow> apply_table" where
  "app_destroyCSC fee t = t\<lparr>at_dropsDestroyed := at_dropsDestroyed t + fee\<rparr>"

text \<open>The two interfaces of a sandbox, as \<open>ApplyViewBase\<close> forwards them to its table.\<close>

definition app_read_view :: "'d heap \<Rightarrow> apply_table \<Rightarrow> 'd read_view \<Rightarrow> 'd read_view" where
  "app_read_view h t base =
     \<lparr>rv_exists = app_exists h t base, rv_succ = app_succ t base, rv_read = app_read h t base\<rparr>"

definition app_ops :: "'d heap \<Rightarrow> apply_table raw_view" where
  "app_ops h = \<lparr>rw_erase = app_rawErase h, rw_insert = app_insert h, rw_replace = app_replace h,
                rw_destroyCSC = app_destroyCSC\<rparr>"

section \<open>The map a table stands for\<close>

definition app_ok :: "'d heap \<Rightarrow> (uint256 \<rightharpoonup> 'd sle) \<Rightarrow> apply_table \<Rightarrow> bool" where
  "app_ok h M t \<longleftrightarrow> om_wf (at_items t) \<and>
     (\<forall>k a p. map_of (at_items t) k = Some (a, p) \<longrightarrow>
        p < length h \<and> sle_key (h ! p) = k \<and> (a = AInsert \<longleftrightarrow> M k = None))"

definition app_contents :: "'d heap \<Rightarrow> (uint256 \<rightharpoonup> 'd sle) \<Rightarrow> apply_table \<Rightarrow> uint256 \<rightharpoonup> 'd sle" where
  "app_contents h M t k =
     (case map_of (at_items t) k of None \<Rightarrow> M k | Some (AErase, p) \<Rightarrow> None | Some (_, p) \<Rightarrow> Some (h ! p))"

text \<open>Cached entries that were not reported as updated are still those of the base.\<close>

definition app_clean :: "'d heap \<Rightarrow> (uint256 \<rightharpoonup> 'd sle) \<Rightarrow> apply_table \<Rightarrow> bool" where
  "app_clean h M t \<longleftrightarrow> (\<forall>k p. map_of (at_items t) k = Some (ACache, p) \<longrightarrow> M k = Some (h ! p))"

lemma app_okD:
  assumes "app_ok h M t" "map_of (at_items t) k = Some (a, p)"
  shows "p < length h" "sle_key (h ! p) = k" "a = AInsert \<longleftrightarrow> M k = None"
  using assms unfolding app_ok_def by blast+

lemma map_of_app_changes: "map_of (app_changes items) k = map_option (\<lambda>(a, p). (app_change a, p)) (map_of items k)"
  by (induction items) auto

lemma app_changes_fit:
  assumes "app_ok h M t"
  shows "distinct (map fst (app_changes (at_items t)))" "\<forall>x \<in> set (app_changes (at_items t)). change_fits h M x"
proof -
  have w: "om_wf (at_items t)" using assms by (simp add: app_ok_def)
  then show "distinct (map fst (app_changes (at_items t)))" by (simp add: om_wf_def comp_def case_prod_unfold)
  have "app_change a = ChInsert \<longleftrightarrow> a = AInsert" for a by (cases a) auto
  moreover have "(k, a, p) \<in> set (at_items t) \<longleftrightarrow> map_of (at_items t) k = Some (a, p)" for k a p
    using w by (simp add: om_wf_def)
  ultimately show "\<forall>x \<in> set (app_changes (at_items t)). change_fits h M x"
    using assms by (auto simp: change_fits_def app_ok_def)
qed

lemma app_clean_changed: "app_clean h M t \<Longrightarrow> changed h M (app_changes (at_items t)) = app_contents h M t"
  by (auto simp: app_clean_def app_contents_def changed_def map_of_app_changes fun_eq_iff
      split: option.splits apply_action.splits change.splits)

lemma app_item:
  assumes "app_ok h M t"
  obtains (absent) "map_of (at_items t) k = None" "app_contents h M t k = M k"
  | (erased) q where "map_of (at_items t) k = Some (AErase, q)" "app_contents h M t k = None" "M k \<noteq> None"
  | (cached) q where "map_of (at_items t) k = Some (ACache, q)" "app_contents h M t k = Some (h ! q)" "M k \<noteq> None"
  | (inserted) q where "map_of (at_items t) k = Some (AInsert, q)" "app_contents h M t k = Some (h ! q)" "M k = None"
  | (modified) q where "map_of (at_items t) k = Some (AModify, q)" "app_contents h M t k = Some (h ! q)" "M k \<noteq> None"
proof (cases "map_of (at_items t) k")
  case (Some x)
  obtain a q where x: "x = (a, q)" by (cases x)
  then have "a = AInsert \<longleftrightarrow> M k = None" using assms Some by (simp add: app_ok_def)
  then show ?thesis using that(2,3,4,5) Some x by (cases a) (simp_all add: app_contents_def)
qed (use that(1) in \<open>simp add: app_contents_def\<close>)

lemma app_put_ok:
  assumes "app_ok h M t" "p < length h" "sle_key (h ! p) = k" "a = AInsert \<longleftrightarrow> M k = None"
  shows "app_ok h M (t\<lparr>at_items := om_put k (a, p) (at_items t)\<rparr>)"
    "app_contents h M (t\<lparr>at_items := om_put k (a, p) (at_items t)\<rparr>) =
       (app_contents h M t)(k := (if a = AErase then None else Some (h ! p)))"
proof -
  have w: "om_wf (at_items t)" using assms(1) by (simp add: app_ok_def)
  show "app_ok h M (t\<lparr>at_items := om_put k (a, p) (at_items t)\<rparr>)"
    using assms by (auto simp: app_ok_def map_of_om_put [OF w] split: if_splits)
  show "app_contents h M (t\<lparr>at_items := om_put k (a, p) (at_items t)\<rparr>) =
       (app_contents h M t)(k := (if a = AErase then None else Some (h ! p)))"
    by (cases a) (auto simp: app_contents_def map_of_om_put [OF w])
qed

lemma app_delete_ok:
  assumes "app_ok h M t" "map_of (at_items t) k = Some (AInsert, p)"
  shows "app_ok h M (t\<lparr>at_items := AList.delete k (at_items t)\<rparr>)"
    "app_contents h M (t\<lparr>at_items := AList.delete k (at_items t)\<rparr>) = (app_contents h M t)(k := None)"
  using assms by (auto simp: app_ok_def app_contents_def delete_conv' fun_eq_iff)

section \<open>What the operations do\<close>

lemma app_rawErase_ok:
  assumes "app_ok h M t" "p < length h" "app_contents h M t (sle_key (h ! p)) \<noteq> None"
  shows "\<exists>t'. app_rawErase h p t = Inr t' \<and> app_ok h M t' \<and> at_dropsDestroyed t' = at_dropsDestroyed t \<and>
    app_contents h M t' = (app_contents h M t)(sle_key (h ! p) := None)"
  using app_put_ok [OF assms(1,2) refl, of AErase] app_delete_ok [OF assms(1)] assms(3)
  by (cases rule: app_item [OF assms(1), of "sle_key (h ! p)"]) (simp_all add: app_rawErase_def Let_def)

lemma app_insert_ok:
  assumes "app_ok h M t" "p < length h" "app_contents h M t (sle_key (h ! p)) = None"
  shows "\<exists>t'. app_insert h p t = Inr t' \<and> app_ok h M t' \<and> at_dropsDestroyed t' = at_dropsDestroyed t \<and>
    app_contents h M t' = (app_contents h M t)(sle_key (h ! p) := Some (h ! p))"
  using app_put_ok [OF assms(1,2) refl, of AInsert] app_put_ok [OF assms(1,2) refl, of AModify] assms(3)
  by (cases rule: app_item [OF assms(1), of "sle_key (h ! p)"]) (simp_all add: app_insert_def Let_def)

lemma app_replace_ok:
  assumes "app_ok h M t" "p < length h" "app_contents h M t (sle_key (h ! p)) \<noteq> None"
  shows "\<exists>t'. app_replace h p t = Inr t' \<and> app_ok h M t' \<and> at_dropsDestroyed t' = at_dropsDestroyed t \<and>
    app_contents h M t' = (app_contents h M t)(sle_key (h ! p) := Some (h ! p))"
  using app_put_ok [OF assms(1,2) refl, of AInsert] app_put_ok [OF assms(1,2) refl, of AModify] assms(3)
  by (cases rule: app_item [OF assms(1), of "sle_key (h ! p)"]) (simp_all add: app_replace_def Let_def)

lemma app_destroy_ok:
  "app_ok h M (app_destroyCSC n t) \<longleftrightarrow> app_ok h M t" "app_contents h M (app_destroyCSC n t) = app_contents h M t"
  "at_dropsDestroyed (app_destroyCSC n t) = at_dropsDestroyed t + n"
  by (simp_all add: app_destroyCSC_def app_ok_def app_contents_def fun_eq_iff)

interpretation app_table_view: raw_view "app_ops h" h "app_contents h M" at_dropsDestroyed "app_ok h M" for h M
  by unfold_locales
    (simp_all add: app_ops_def app_rawErase_ok app_insert_ok app_replace_ok app_destroy_ok del: not_None_eq)

text \<open>
  \<open>erase\<close> and \<open>update\<close> take only the pointer the table itself holds; the two functions fail
  exactly when it does not.
\<close>

lemma app_erase_ok:
  assumes "app_ok h M t"
  shows "if \<exists>a. map_of (at_items t) (sle_key (h ! p)) = Some (a, p) \<and> a \<noteq> AErase
    then \<exists>t'. app_erase h p t = Inr t' \<and> app_ok h M t' \<and> app_contents h M t' = (app_contents h M t)(sle_key (h ! p) := None) \<and>
      at_dropsDestroyed t' = at_dropsDestroyed t
    else \<exists>msg. app_erase h p t = Inl (Thrown msg)"
proof (cases "map_of (at_items t) (sle_key (h ! p))")
  case (Some x)
  obtain a q where x: "x = (a, q)" by (cases x)
  show ?thesis
  proof (cases "q = p \<and> a \<noteq> AErase")
    case True
    with Some x have "map_of (at_items t) (sle_key (h ! p)) = Some (a, p)" by simp
    note app_okD(1,3) [OF assms this]
    then show ?thesis
      using app_put_ok [OF assms _ refl, of p AErase] app_delete_ok [OF assms] Some x True
      by (auto simp: app_erase_def Let_def)
  qed (use Some x in \<open>auto simp: app_erase_def Let_def\<close>)
qed (simp add: app_erase_def)

lemma app_update_ok:
  assumes "app_ok h M t"
  shows "if \<exists>a. map_of (at_items t) (sle_key (h ! p)) = Some (a, p) \<and> a \<noteq> AErase
    then \<exists>t'. app_update h p t = Inr t' \<and> app_ok h M t' \<and> app_contents h M t' = app_contents h M t \<and>
      at_dropsDestroyed t' = at_dropsDestroyed t
    else \<exists>msg. app_update h p t = Inl (Thrown msg)"
proof (cases "map_of (at_items t) (sle_key (h ! p))")
  case (Some x)
  obtain a q where x: "x = (a, q)" by (cases x)
  show ?thesis
  proof (cases "q = p \<and> a \<noteq> AErase")
    case True
    with Some x have "map_of (at_items t) (sle_key (h ! p)) = Some (a, p)" by simp
    note p = app_okD(1) [OF assms this] and M = app_okD(3) [OF assms this]
    have c: "app_contents h M t (sle_key (h ! p)) = Some (h ! p)"
      using Some x True by (cases a) (simp_all add: app_contents_def)
    show ?thesis
    proof (cases "a = ACache")
      case cached: True
      then have "app_ok h M (t\<lparr>at_items := om_put (sle_key (h ! p)) (AModify, p) (at_items t)\<rparr>)"
        "app_contents h M (t\<lparr>at_items := om_put (sle_key (h ! p)) (AModify, p) (at_items t)\<rparr>) = app_contents h M t"
        using app_put_ok [OF assms p refl, of AModify] M fun_upd_idem [of "app_contents h M t", OF c] by simp_all
      then show ?thesis using Some x True cached by (simp add: app_update_def Let_def)
    qed (use Some x True in \<open>simp add: app_update_def Let_def assms\<close>)
  qed (use Some x in \<open>auto simp: app_update_def Let_def\<close>)
qed (simp add: app_update_def)

lemma read_of_Some: "read_of M k = Inr (Some s) \<Longrightarrow> M (kl_key k) = Some s"
  by (cases "M (kl_key k)"; cases "kl_check k (the (M (kl_key k)))")
    (auto simp: read_of_def checked_def split: if_splits)

lemma app_live_sorted: "om_wf (at_items t) \<Longrightarrow> sorted (app_live t)"
  unfolding app_live_def om_wf_def by (simp add: sorted_filter)

lemma app_live_set:
  assumes "om_wf (at_items t)"
  shows "k \<in> set (app_live t) \<longleftrightarrow> (\<exists>a p. map_of (at_items t) k = Some (a, p) \<and> a \<noteq> AErase)"
  using assms unfolding app_live_def om_wf_def by force

context read_view
begin

lemma app_read_view:
  assumes "app_ok h M t"
  shows "read_view (app_read_view h t base) (app_contents h M t)"
proof
  have w: "om_wf (at_items t)" using assms by (simp add: app_ok_def)
  have "dom (app_contents h M t) \<subseteq> dom M \<union> fst ` set (at_items t)"
    by (auto simp: app_contents_def map_of_eq_None_iff split: option.splits) (force dest: map_of_SomeD)
  then show "finite (dom (app_contents h M t))" by (rule finite_subset) (simp add: base_finite)
  show "sle_key s = k" if "app_contents h M t k = Some s" for k s
    using that assms base_key by (cases rule: app_item [OF assms, of k]) (auto simp: app_ok_def)
  show "exists_ok (app_contents h M t) kl (rv_exists (app_read_view h t base) kl)" if "kl_key kl \<noteq> 0" for kl
    using base_exists [OF that] that
    by (cases rule: app_item [OF assms, of "kl_key kl"]) (simp_all add: app_read_view_def app_exists_def exists_ok_def)
  show "rv_read (app_read_view h t base) kl = read_of (app_contents h M t) kl" if "kl_key kl \<noteq> 0" for kl
    using base_read [OF that]
    by (cases rule: app_item [OF assms, of "kl_key kl"]) (simp_all add: app_read_view_def app_read_def read_of_def)
  have "k \<in> dom M - {k. app_erased t k} \<union> set (app_live t) \<longleftrightarrow> k \<in> dom (app_contents h M t)" for k
    by (cases rule: app_item [OF assms, of k]) (simp_all add: app_live_set [OF w] app_erased_def dom_def)
  then have "dom M - {k. app_erased t k} \<union> set (app_live t) = dom (app_contents h M t)" by blast
  then show "rv_succ (app_read_view h t base) key bound = Inr (below bound (succ_in (dom (app_contents h M t)) key))" for key bound
    using succ_over [OF app_live_sorted [OF w]] by (simp add: app_read_view_def app_succ_def)
qed

lemma app_peek_ok:
  assumes "app_ok h M t" "kl_key k \<noteq> 0" "app_peek h t base k = Inr (h', t', r)"
  shows "app_ok h' M t' \<and> app_contents h' M t' = app_contents h M t \<and> (\<exists>ss. h' = h @ ss) \<and>
    (app_clean h M t \<longrightarrow> app_clean h' M t') \<and> at_dropsDestroyed t' = at_dropsDestroyed t \<and>
    app_read h t base k = Inr (map_option ((!) h') r)"
proof (cases "map_of (at_items t) (kl_key k)")
  case None
  show ?thesis
  proof (cases "rv_read base k")
    case (Inr x)
    show ?thesis
    proof (cases x)
      case n: None
      then show ?thesis using assms(1,3) None Inr by (auto simp: app_peek_def app_read_def intro: exI [of _ "[]"])
    next
      case (Some s)
      have s: "M (kl_key k) = Some s"
        using base_read [OF assms(2)] Inr Some by (simp add: read_of_Some)
      then have key: "sle_key s = kl_key k" by (rule base_key)
      have w: "om_wf (at_items t)" using assms(1) by (simp add: app_ok_def)
      have ht: "h' = h @ [s]" "t' = t\<lparr>at_items := om_insert (kl_key k) (ACache, length h) (at_items t)\<rparr>" "r = Some (length h)"
        using assms(3) None Inr Some key by (auto simp: app_peek_def map_of_om_insert [OF w])
      have mo: "map_of (at_items t') = (map_of (at_items t))(kl_key k \<mapsto> (ACache, length h))"
        using None by (simp add: ht(2) map_of_om_insert [OF w])
      have old: "h' ! q = h ! q" "q < length h'" if "map_of (at_items t) k' = Some (a, q)" for k' a q
        using app_okD(1) [OF assms(1) that] by (simp_all add: ht(1) nth_append)
      have w': "om_wf (at_items t')" using w by (simp add: ht(2))
      have "q < length h' \<and> sle_key (h' ! q) = k' \<and> (a = AInsert \<longleftrightarrow> M k' = None)"
        if m: "map_of (at_items t') k' = Some (a, q)" for k' a q
      proof (cases "k' = kl_key k")
        case True
        then show ?thesis using m s key by (auto simp: mo ht(1))
      next
        case False
        then have "map_of (at_items t) k' = Some (a, q)" using m by (simp add: mo)
        with app_okD [OF assms(1) this] old [OF this] show ?thesis by simp
      qed
      then have "app_ok h' M t'" using w' by (simp add: app_ok_def)
      moreover have "app_contents h' M t' k' = app_contents h M t k'" for k'
      proof (cases "k' = kl_key k")
        case False
        then show ?thesis using old [of k']
          by (cases "map_of (at_items t) k'") (auto simp: app_contents_def mo split: apply_action.splits)
      qed (use s None in \<open>simp add: app_contents_def mo ht(1)\<close>)
      moreover have "app_clean h' M t'" if c: "app_clean h M t"
        unfolding app_clean_def
      proof (intro allI impI)
        fix k' q assume "map_of (at_items t') k' = Some (ACache, q)"
        then show "M k' = Some (h' ! q)"
          using c s old(1) [of k' ACache q] by (cases "k' = kl_key k") (auto simp: mo ht(1) app_clean_def)
      qed
      ultimately show ?thesis using None Inr Some ht by (auto simp: app_read_def fun_eq_iff)
    qed
  qed (use assms(3) None in \<open>simp add: app_peek_def\<close>)
next
  case (Some y)
  obtain a q where y: "y = (a, q)" by (cases y)
  show ?thesis
  proof (cases "a = AErase")
    case True
    then show ?thesis using assms(1,3) Some y by (auto simp: app_peek_def app_read_def)
  next
    case False
    then have e: "app_peek h t base k = rbind (kl_check k (h ! q)) (\<lambda>ok. Inr (h, t, if ok then Some q else None))"
      "app_read h t base k = checked k (h ! q)"
      using Some y by (cases a; simp add: app_peek_def app_read_def)+
    show ?thesis
    proof (cases "kl_check k (h ! q)")
      case (Inr b)
      then show ?thesis using assms(1,3) e by (auto simp: checked_def)
    qed (use assms(3) e in simp)
  qed
qed

end

section \<open>Sandboxes\<close>

text \<open>
  What a client does with a sandbox over a base view: the state is the store of entries and
  the table. The first \<open>n\<close> entries of the store belong to others and are not written to. A
  client may insert only a key that the sandbox does not have; nested sandboxes commit
  through the raw operations.
\<close>

type_synonym 'd sandbox = "'d heap \<times> apply_table"

inductive sandbox_step :: "'d read_view \<Rightarrow> (uint256 \<rightharpoonup> 'd sle) \<Rightarrow> nat \<Rightarrow> 'd sandbox \<Rightarrow> 'd sandbox \<Rightarrow> bool"
  for base M n where
  peek: "kl_key k \<noteq> 0 \<Longrightarrow> app_peek h t base k = Inr (h', t', r) \<Longrightarrow> sandbox_step base M n (h, t) (h', t')"
| make: "sandbox_step base M n (h, t) (h @ [s], t)"
| modify: "n \<le> p \<Longrightarrow> p < length h \<Longrightarrow> sle_key s = sle_key (h ! p) \<Longrightarrow> sandbox_step base M n (h, t) (h[p := s], t)"
| erase: "app_erase h p t = Inr t' \<Longrightarrow> sandbox_step base M n (h, t) (h, t')"
| update: "app_update h p t = Inr t' \<Longrightarrow> sandbox_step base M n (h, t) (h, t')"
| insert: "p < length h \<Longrightarrow> app_contents h M t (sle_key (h ! p)) = None \<Longrightarrow> app_insert h p t = Inr t' \<Longrightarrow>
    sandbox_step base M n (h, t) (h, t')"
| rawErase: "p < length h \<Longrightarrow> app_contents h M t (sle_key (h ! p)) \<noteq> None \<Longrightarrow> app_rawErase h p t = Inr t' \<Longrightarrow>
    sandbox_step base M n (h, t) (h, t')"
| rawReplace: "p < length h \<Longrightarrow> app_contents h M t (sle_key (h ! p)) \<noteq> None \<Longrightarrow> app_replace h p t = Inr t' \<Longrightarrow>
    sandbox_step base M n (h, t) (h, t')"
| destroy: "sandbox_step base M n (h, t) (h, app_destroyCSC fee t)"

definition sandbox_reach :: "'d read_view \<Rightarrow> (uint256 \<rightharpoonup> 'd sle) \<Rightarrow> 'd heap \<Rightarrow> 'd sandbox \<Rightarrow> bool" where
  "sandbox_reach base M h0 x = (sandbox_step base M (length h0))\<^sup>*\<^sup>* (h0, app_empty) x"

definition sandbox_ok :: "(uint256 \<rightharpoonup> 'd sle) \<Rightarrow> 'd heap \<Rightarrow> 'd sandbox \<Rightarrow> bool" where
  "sandbox_ok M h0 x \<longleftrightarrow> app_ok (fst x) M (snd x) \<and> length h0 \<le> length (fst x) \<and> take (length h0) (fst x) = h0"

lemma app_ok_append: "app_ok h M t \<Longrightarrow> app_ok (h @ ss) M t"
  by (fastforce simp: app_ok_def nth_append)

lemma app_ok_write:
  assumes "app_ok h M t" "p < length h" "sle_key s = sle_key (h ! p)"
  shows "app_ok (h[p := s]) M t"
  unfolding app_ok_def
proof (intro conjI allI impI)
  fix k a q assume "map_of (at_items t) k = Some (a, q)"
  note app_okD [OF assms(1) this]
  then show "q < length (h[p := s])" "sle_key (h[p := s] ! q) = k" "(a = AInsert) = (M k = None)"
    using assms(2,3) by (simp_all add: nth_list_update)
qed (use assms(1) in \<open>simp add: app_ok_def\<close>)

context read_view
begin

lemma sandbox_step_ok:
  assumes "sandbox_step base M (length h0) x y" "sandbox_ok M h0 x"
  shows "sandbox_ok M h0 y"
  using assms
proof (induction rule: sandbox_step.induct)
  case (peek k h t h' t' r)
  then show ?case using app_peek_ok [of h t k h' t' r] by (auto simp: sandbox_ok_def)
next
  case (make h t s)
  then show ?case by (simp add: sandbox_ok_def app_ok_append)
next
  case (modify p h s t)
  then show ?case by (simp add: sandbox_ok_def app_ok_write)
next
  case (erase h p t t')
  then show ?case using app_erase_ok [of h M t p] by (auto simp: sandbox_ok_def split: if_splits)
next
  case (update h p t t')
  then show ?case using app_update_ok [of h M t p] by (auto simp: sandbox_ok_def split: if_splits)
next
  case (insert p h t t')
  then show ?case using app_insert_ok [of h M t p] by (auto simp: sandbox_ok_def)
next
  case (rawErase p h t t')
  then show ?case using app_rawErase_ok [of h M t p] by (auto simp: sandbox_ok_def)
next
  case (rawReplace p h t t')
  then show ?case using app_replace_ok [of h M t p] by (auto simp: sandbox_ok_def)
next
  case (destroy h t fee)
  then show ?case by (simp add: sandbox_ok_def app_destroy_ok)
qed

lemma sandbox_reach_ok:
  assumes "sandbox_reach base M h0 x"
  shows "sandbox_ok M h0 x"
  using assms unfolding sandbox_reach_def
proof (induction rule: rtranclp_induct)
  case base
  show ?case by (simp add: sandbox_ok_def app_ok_def app_empty_def)
qed (rule sandbox_step_ok)

end

context raw_view
begin

lemma app_apply_law:
  assumes "inv s" "app_ok h (contents s) t" "app_clean h (contents s) t"
  shows "\<exists>s'. app_apply t to s = Inr s' \<and> inv s' \<and> destroyed s' = destroyed s + at_dropsDestroyed t \<and>
    contents s' = app_contents h (contents s) t"
  using commit_law [of "rw_destroyCSC to (at_dropsDestroyed t) s" "app_changes (at_items t)"]
    raw_destroy_law [OF assms(1), of "at_dropsDestroyed t"] app_changes_fit [OF assms(2)] app_clean_changed [OF assms(3)]
  by (simp add: app_apply_def)

end

text \<open>A table does not see what is added to the store behind its own entries.\<close>

lemma prefix_nth: "take (length hp) h = hp \<Longrightarrow> p < length hp \<Longrightarrow> h ! p = hp ! p \<and> p < length h"
  by (metis nth_take length_take min_less_iff_conj)

lemma raw_prefix:
  assumes "raw_ok hp M t" "take (length hp) h = hp"
  shows "raw_ok h M t" "raw_contents h M t = raw_contents hp M t"
proof -
  have n: "h ! p = hp ! p" "p < length h" if "map_of (rt_items t) k = Some (a, p)" for k a p
    using assms(1) that prefix_nth [OF assms(2), of p] unfolding raw_ok_iff by blast+
  then show "raw_ok h M t" using assms(1) by (auto simp: raw_ok_iff)
  show "raw_contents h M t = raw_contents hp M t"
    using n by (auto simp: raw_contents_iff fun_eq_iff split: option.splits raw_action.splits)
qed

lemma app_prefix:
  assumes "app_ok hp M t" "take (length hp) h = hp"
  shows "app_ok h M t" "app_contents h M t = app_contents hp M t"
proof -
  have n: "h ! p = hp ! p" "p < length h" if "map_of (at_items t) k = Some (a, p)" for k a p
    using assms(2) app_okD(1) [OF assms(1) that] prefix_nth by auto
  then show "app_ok h M t" using app_okD [OF assms(1)] assms(1) by (simp add: app_ok_def)
  show "app_contents h M t = app_contents hp M t"
    using n by (auto simp: app_contents_def fun_eq_iff split: option.splits apply_action.splits)
qed

text \<open>Views of the same map read alike.\<close>

definition same_view :: "'d read_view \<Rightarrow> 'd read_view \<Rightarrow> bool" where
  "same_view v w \<longleftrightarrow> (\<forall>k. kl_key k \<noteq> 0 \<longrightarrow> rv_read v k = rv_read w k) \<and>
     (\<forall>key bound. rv_succ v key bound = rv_succ w key bound)"

lemma same_viewI: "read_view v M \<Longrightarrow> read_view w M \<Longrightarrow> same_view v w"
  by (simp add: same_view_def read_view.base_read read_view.base_succ)

text \<open>
  C8: committing a sandbox to an open view. Whatever a client did in a sandbox over an open
  view, peeking, changing entries in place, inserting, erasing and committing nested
  sandboxes in any order, as long as every entry it changed was reported, applying the
  sandbox raises no error, and afterwards the open view reads, entry for entry and key for
  key, as the sandbox did; the destroyed drops add up.
\<close>

theorem sandbox_commit:
  assumes base: "read_view base M0" and T: "raw_ok hp M0 T"
    and reach: "sandbox_reach (raw_read_view hp T base) (raw_contents hp M0 T) hp (h, t)"
    and clean: "app_clean h (raw_contents hp M0 T) t"
  shows "\<exists>T'. app_apply t (raw_ops h) T = Inr T' \<and> raw_ok h M0 T' \<and>
    rt_dropsDestroyed T' = rt_dropsDestroyed T + at_dropsDestroyed t \<and>
    same_view (raw_read_view h T' base) (app_read_view h t (raw_read_view hp T base))"
proof -
  let ?M = "raw_contents hp M0 T"
  have v: "read_view (raw_read_view hp T base) ?M" by (rule read_view.raw_read_view [OF base T])
  from read_view.sandbox_reach_ok [OF v reach] have ok: "app_ok h ?M t" "take (length hp) h = hp"
    by (simp_all add: sandbox_ok_def)
  note T' = raw_prefix [OF T ok(2)]
  obtain T' where "app_apply t (raw_ops h) T = Inr T'" "raw_ok h M0 T'"
    "rt_dropsDestroyed T' = rt_dropsDestroyed T + at_dropsDestroyed t" "raw_contents h M0 T' = app_contents h ?M t"
    using raw_table_view.app_apply_law [OF T'(1), of t] ok(1) clean T'(2) by auto
  then show ?thesis
    using same_viewI [OF _ read_view.app_read_view [OF v ok(1)]] read_view.raw_read_view [OF base, of h T'] by auto
qed

text \<open>
  C9: committing a sandbox to a sandbox. The same for a sandbox nested in another one: its
  changes become changes of the parent, which afterwards reads as the nested sandbox did.
\<close>

theorem nested_commit:
  assumes base: "read_view base M0" and T: "app_ok hp M0 T"
    and reach: "sandbox_reach (app_read_view hp T base) (app_contents hp M0 T) hp (h, t)"
    and clean: "app_clean h (app_contents hp M0 T) t"
  shows "\<exists>T'. app_apply t (app_ops h) T = Inr T' \<and> app_ok h M0 T' \<and>
    at_dropsDestroyed T' = at_dropsDestroyed T + at_dropsDestroyed t \<and>
    same_view (app_read_view h T' base) (app_read_view h t (app_read_view hp T base))"
proof -
  let ?M = "app_contents hp M0 T"
  have v: "read_view (app_read_view hp T base) ?M" by (rule read_view.app_read_view [OF base T])
  from read_view.sandbox_reach_ok [OF v reach] have ok: "app_ok h ?M t" "take (length hp) h = hp"
    by (simp_all add: sandbox_ok_def)
  note T' = app_prefix [OF T ok(2)]
  obtain T' where "app_apply t (app_ops h) T = Inr T'" "app_ok h M0 T'"
    "at_dropsDestroyed T' = at_dropsDestroyed T + at_dropsDestroyed t" "app_contents h M0 T' = app_contents h ?M t"
    using app_table_view.app_apply_law [OF T'(1), of t] ok(1) clean T'(2) by auto
  then show ?thesis
    using same_viewI [OF _ read_view.app_read_view [OF v ok(1)]] read_view.app_read_view [OF base, of h T'] by auto
qed

section \<open>Sample views\<close>

definition empty_view :: "'d read_view" where
  "empty_view = \<lparr>rv_exists = (\<lambda>_. Inr False), rv_succ = (\<lambda>_ _. Inr None), rv_read = (\<lambda>_. Inr None)\<rparr>"

interpretation empty_view: read_view empty_view Map.empty
  by unfold_locales (simp_all add: empty_view_def exists_ok_def read_of_def succ_in_def)

definition sample_open :: raw_table where
  "sample_open = \<lparr>rt_items = [(5, RawInsert, 0)], rt_dropsDestroyed = 3\<rparr>"

definition sample_parent :: apply_table where
  "sample_parent = \<lparr>at_items = [(5, AInsert, 0)], at_dropsDestroyed = 3\<rparr>"

definition sample_peeked :: "apply_action \<Rightarrow> apply_table" where
  "sample_peeked a = \<lparr>at_items = [(5, a, 1)], at_dropsDestroyed = 0\<rparr>"

lemmas sample_defs = sample_open_def sample_parent_def sample_peeked_def sample_sle_def app_empty_def
  kl_unchecked_def kl_check_def checked_def

lemma sample_tables_ok:
  "raw_ok [sample_sle 5 1] Map.empty sample_open" "app_ok [sample_sle 5 1] Map.empty sample_parent"
  by (auto simp: raw_ok_def om_wf_def change_fits_def app_ok_def sample_defs split: if_splits)

lemma sample_open_reach:
  "sandbox_reach (raw_read_view [sample_sle 5 1] sample_open empty_view)
     (raw_contents [sample_sle 5 1] Map.empty sample_open) [sample_sle 5 1]
     ([sample_sle 5 1, sample_sle 5 2], sample_peeked AModify)"
proof -
  let ?step = "sandbox_step (raw_read_view [sample_sle 5 1] sample_open empty_view)
     (raw_contents [sample_sle 5 1] Map.empty sample_open) (length [sample_sle 5 1])"
  have "?step ([sample_sle 5 1], app_empty) ([sample_sle 5 1, sample_sle 5 1], sample_peeked ACache)"
    by (rule sandbox_step.peek [of "kl_unchecked 5" _ _ _ _ _ "Some 1"])
      (simp_all add: app_peek_def raw_read_view_def raw_read_def sample_defs)
  moreover have "?step ([sample_sle 5 1, sample_sle 5 1], sample_peeked ACache) ([sample_sle 5 1, sample_sle 5 2], sample_peeked ACache)"
    using sandbox_step.modify [of _ 1 "[sample_sle 5 1, sample_sle 5 1]" "sample_sle 5 2"] by (simp add: sample_sle_def)
  moreover have "?step ([sample_sle 5 1, sample_sle 5 2], sample_peeked ACache) ([sample_sle 5 1, sample_sle 5 2], sample_peeked AModify)"
    by (rule sandbox_step.update [of _ 1]) (simp add: app_update_def sample_defs)
  ultimately show ?thesis unfolding sandbox_reach_def by (meson converse_rtranclp_into_rtranclp rtranclp.rtrancl_refl)
qed

theorem sandbox_commit_witness:
  "\<exists>T'. app_apply (sample_peeked AModify) (raw_ops [sample_sle 5 1, sample_sle 5 2]) sample_open = Inr T' \<and>
    rt_dropsDestroyed T' = 3 \<and>
    rv_read (raw_read_view [sample_sle 5 1, sample_sle 5 2] T' empty_view) (kl_unchecked 5) = Inr (Some (sample_sle 5 2))"
proof -
  have clean: "app_clean [sample_sle 5 1, sample_sle 5 2] (raw_contents [sample_sle 5 1] Map.empty sample_open) (sample_peeked AModify)"
    by (simp add: app_clean_def sample_peeked_def)
  have "rv_read (app_read_view [sample_sle 5 1, sample_sle 5 2] (sample_peeked AModify)
      (raw_read_view [sample_sle 5 1] sample_open empty_view)) (kl_unchecked 5) = Inr (Some (sample_sle 5 2))"
    by (simp add: app_read_view_def app_read_def sample_defs)
  then show ?thesis
    using sandbox_commit [OF empty_view.read_view_axioms sample_tables_ok(1) sample_open_reach clean]
    by (auto simp: same_view_def sample_open_def sample_peeked_def kl_unchecked_def)
qed

lemma sample_parent_reach:
  "sandbox_reach (app_read_view [sample_sle 5 1] sample_parent empty_view)
     (app_contents [sample_sle 5 1] Map.empty sample_parent) [sample_sle 5 1]
     ([sample_sle 5 1, sample_sle 5 1], sample_peeked AErase)"
proof -
  let ?step = "sandbox_step (app_read_view [sample_sle 5 1] sample_parent empty_view)
     (app_contents [sample_sle 5 1] Map.empty sample_parent) (length [sample_sle 5 1])"
  have "?step ([sample_sle 5 1], app_empty) ([sample_sle 5 1, sample_sle 5 1], sample_peeked ACache)"
    by (rule sandbox_step.peek [of "kl_unchecked 5" _ _ _ _ _ "Some 1"])
      (simp_all add: app_peek_def app_read_view_def app_read_def sample_defs)
  moreover have "?step ([sample_sle 5 1, sample_sle 5 1], sample_peeked ACache) ([sample_sle 5 1, sample_sle 5 1], sample_peeked AErase)"
    by (rule sandbox_step.erase [of _ 1]) (simp add: app_erase_def sample_defs)
  ultimately show ?thesis unfolding sandbox_reach_def by (meson converse_rtranclp_into_rtranclp rtranclp.rtrancl_refl)
qed

theorem nested_commit_witness:
  "\<exists>T'. app_apply (sample_peeked AErase) (app_ops [sample_sle 5 1, sample_sle 5 1]) sample_parent = Inr T' \<and>
    at_dropsDestroyed T' = 3 \<and>
    rv_read (app_read_view [sample_sle 5 1, sample_sle 5 1] T' empty_view) (kl_unchecked 5) = Inr None"
proof -
  have clean: "app_clean [sample_sle 5 1, sample_sle 5 1] (app_contents [sample_sle 5 1] Map.empty sample_parent) (sample_peeked AErase)"
    by (simp add: app_clean_def sample_peeked_def)
  have "rv_read (app_read_view [sample_sle 5 1, sample_sle 5 1] (sample_peeked AErase)
      (app_read_view [sample_sle 5 1] sample_parent empty_view)) (kl_unchecked 5) = Inr None"
    by (simp add: app_read_view_def app_read_def sample_defs)
  then show ?thesis
    using nested_commit [OF empty_view.read_view_axioms sample_tables_ok(2) sample_parent_reach clean]
    by (auto simp: same_view_def sample_parent_def sample_peeked_def kl_unchecked_def)
qed

end
