(* ===== verification/SField.thy ===== *)
theory SField
  imports LexicalCast Serializer
begin

text \<open>
  The identifiers of the fields of serialized objects (\<open>protocol/SField.h\<close> and
  \<open>protocol/impl/SField.cpp\<close>): the table of the fields known at compile time, the lookup
  of a field by its code or by its name, and which fields are part of which serialization.
\<close>

unbundle bit_operations_syntax

section \<open>Types of fields\<close>

datatype serialized_type_id =
    STI_UNKNOWN | STI_DONE | STI_NOTPRESENT
  | STI_UINT16 | STI_UINT32 | STI_UINT64 | STI_HASH128 | STI_HASH256 | STI_AMOUNT | STI_VL | STI_ACCOUNT
  | STI_OBJECT | STI_ARRAY
  | STI_UINT8 | STI_HASH160 | STI_PATHSET | STI_VECTOR256 | STI_VECTOR128
  | STI_TRANSACTION | STI_LEDGERENTRY | STI_VALIDATION | STI_METADATA

primrec sti_code :: "serialized_type_id \<Rightarrow> int" where
  "sti_code STI_UNKNOWN = - 2"
| "sti_code STI_DONE = - 1"
| "sti_code STI_NOTPRESENT = 0"
| "sti_code STI_UINT16 = 1"
| "sti_code STI_UINT32 = 2"
| "sti_code STI_UINT64 = 3"
| "sti_code STI_HASH128 = 4"
| "sti_code STI_HASH256 = 5"
| "sti_code STI_AMOUNT = 6"
| "sti_code STI_VL = 7"
| "sti_code STI_ACCOUNT = 8"
| "sti_code STI_OBJECT = 14"
| "sti_code STI_ARRAY = 15"
| "sti_code STI_UINT8 = 16"
| "sti_code STI_HASH160 = 17"
| "sti_code STI_PATHSET = 18"
| "sti_code STI_VECTOR256 = 19"
| "sti_code STI_VECTOR128 = 20"
| "sti_code STI_TRANSACTION = 10001"
| "sti_code STI_LEDGERENTRY = 10002"
| "sti_code STI_VALIDATION = 10003"
| "sti_code STI_METADATA = 10004"

definition field_code :: "int \<Rightarrow> int \<Rightarrow> int" where
  "field_code tid index = push_bit 16 tid OR index"

section \<open>Fields\<close>

datatype is_signing = SigningNo | SigningYes | SigningNoAndNotHashed

text \<open>
  \<open>fieldNum\<close> numbers the fields in the order of their construction and only indexes the
  tables of the templates; \<open>jsonName\<close> is \<open>getName\<close> at construction. Neither is
  kept here.
\<close>

record sfield =
  fieldCode :: int
  fieldType :: serialized_type_id
  fieldValue :: int
  fieldName :: string
  fieldMeta :: int
  signingField :: is_signing

definition sMD_Never :: int where "sMD_Never = 0x00"
definition sMD_ChangeOrig :: int where "sMD_ChangeOrig = 0x01"
definition sMD_ChangeNew :: int where "sMD_ChangeNew = 0x02"
definition sMD_DeleteFinal :: int where "sMD_DeleteFinal = 0x04"
definition sMD_Create :: int where "sMD_Create = 0x08"
definition sMD_Always :: int where "sMD_Always = 0x10"
definition sMD_Default :: int where
  "sMD_Default = sMD_ChangeOrig OR sMD_ChangeNew OR sMD_DeleteFinal OR sMD_Create"

text \<open>The three constructors: of a named field, of a bare code, and of a field met at run time.\<close>

definition mk_field :: "serialized_type_id \<Rightarrow> int \<Rightarrow> string \<Rightarrow> int \<Rightarrow> is_signing \<Rightarrow> sfield" where
  "mk_field tid fv fn meta signing =
     \<lparr>fieldCode = field_code (sti_code tid) fv, fieldType = tid, fieldValue = fv, fieldName = fn,
      fieldMeta = meta, signingField = signing\<rparr>"

definition sf :: "serialized_type_id \<Rightarrow> int \<Rightarrow> string \<Rightarrow> sfield" where
  "sf tid fv fn = mk_field tid fv fn sMD_Default SigningYes"

definition mk_bare_field :: "int \<Rightarrow> sfield" where
  "mk_bare_field fc =
     \<lparr>fieldCode = fc, fieldType = STI_UNKNOWN, fieldValue = 0, fieldName = [],
      fieldMeta = sMD_Never, signingField = SigningYes\<rparr>"

definition mk_dynamic_field :: "serialized_type_id \<Rightarrow> int \<Rightarrow> sfield res" where
  "mk_dynamic_field tid fv =
     rassert (fv \<noteq> 1 \<or> tid \<noteq> STI_ARRAY \<and> tid \<noteq> STI_OBJECT) ''SField::SField''
       (Inr \<lparr>fieldCode = field_code (sti_code tid) fv, fieldType = tid, fieldValue = fv,
             fieldName = to_string (sti_code tid) @ ''/'' @ to_string fv,
             fieldMeta = sMD_Default, signingField = SigningYes\<rparr>)"

section \<open>The fields known at compile time\<close>

definition sfInvalid :: sfield where "sfInvalid = mk_bare_field (- 1)"
definition sfGeneric :: sfield where "sfGeneric = mk_bare_field 0"
definition sfLedgerEntry :: sfield where "sfLedgerEntry = sf STI_LEDGERENTRY 257 ''LedgerEntry''"
definition sfTransaction :: sfield where "sfTransaction = sf STI_TRANSACTION 257 ''Transaction''"
definition sfValidation :: sfield where "sfValidation = sf STI_VALIDATION 257 ''Validation''"
definition sfMetadata :: sfield where "sfMetadata = sf STI_METADATA 257 ''Metadata''"
definition sfHash :: sfield where "sfHash = sf STI_HASH256 257 ''hash''"
definition sfIndex :: sfield where "sfIndex = sf STI_HASH256 258 ''index''"
definition sfCloseResolution :: sfield where "sfCloseResolution = sf STI_UINT8 1 ''CloseResolution''"
definition sfMethod :: sfield where "sfMethod = sf STI_UINT8 2 ''Method''"
definition sfTransactionResult :: sfield where "sfTransactionResult = sf STI_UINT8 3 ''TransactionResult''"
definition sfTickSize :: sfield where "sfTickSize = sf STI_UINT8 16 ''TickSize''"
definition sfLedgerEntryType :: sfield where "sfLedgerEntryType = mk_field STI_UINT16 1 ''LedgerEntryType'' sMD_Never SigningYes"
definition sfTransactionType :: sfield where "sfTransactionType = sf STI_UINT16 2 ''TransactionType''"
definition sfSignerWeight :: sfield where "sfSignerWeight = sf STI_UINT16 3 ''SignerWeight''"
definition sfFlags :: sfield where "sfFlags = sf STI_UINT32 2 ''Flags''"
definition sfSourceTag :: sfield where "sfSourceTag = sf STI_UINT32 3 ''SourceTag''"
definition sfSequence :: sfield where "sfSequence = sf STI_UINT32 4 ''Sequence''"
definition sfPreviousTxnLgrSeq :: sfield where "sfPreviousTxnLgrSeq = mk_field STI_UINT32 5 ''PreviousTxnLgrSeq'' sMD_DeleteFinal SigningYes"
definition sfLedgerSequence :: sfield where "sfLedgerSequence = sf STI_UINT32 6 ''LedgerSequence''"
definition sfCloseTime :: sfield where "sfCloseTime = sf STI_UINT32 7 ''CloseTime''"
definition sfParentCloseTime :: sfield where "sfParentCloseTime = sf STI_UINT32 8 ''ParentCloseTime''"
definition sfSigningTime :: sfield where "sfSigningTime = sf STI_UINT32 9 ''SigningTime''"
definition sfExpiration :: sfield where "sfExpiration = sf STI_UINT32 10 ''Expiration''"
definition sfTransferRate :: sfield where "sfTransferRate = sf STI_UINT32 11 ''TransferRate''"
definition sfWalletSize :: sfield where "sfWalletSize = sf STI_UINT32 12 ''WalletSize''"
definition sfOwnerCount :: sfield where "sfOwnerCount = sf STI_UINT32 13 ''OwnerCount''"
definition sfDestinationTag :: sfield where "sfDestinationTag = sf STI_UINT32 14 ''DestinationTag''"
definition sfKYCTime :: sfield where "sfKYCTime = sf STI_UINT32 15 ''Date''"
definition sfHighQualityIn :: sfield where "sfHighQualityIn = sf STI_UINT32 16 ''HighQualityIn''"
definition sfHighQualityOut :: sfield where "sfHighQualityOut = sf STI_UINT32 17 ''HighQualityOut''"
definition sfLowQualityIn :: sfield where "sfLowQualityIn = sf STI_UINT32 18 ''LowQualityIn''"
definition sfLowQualityOut :: sfield where "sfLowQualityOut = sf STI_UINT32 19 ''LowQualityOut''"
definition sfQualityIn :: sfield where "sfQualityIn = sf STI_UINT32 20 ''QualityIn''"
definition sfQualityOut :: sfield where "sfQualityOut = sf STI_UINT32 21 ''QualityOut''"
definition sfStampEscrow :: sfield where "sfStampEscrow = sf STI_UINT32 22 ''StampEscrow''"
definition sfBondAmount :: sfield where "sfBondAmount = sf STI_UINT32 23 ''BondAmount''"
definition sfLoadFee :: sfield where "sfLoadFee = sf STI_UINT32 24 ''LoadFee''"
definition sfOfferSequence :: sfield where "sfOfferSequence = sf STI_UINT32 25 ''OfferSequence''"
definition sfFirstLedgerSequence :: sfield where "sfFirstLedgerSequence = sf STI_UINT32 26 ''FirstLedgerSequence''"
definition sfLastLedgerSequence :: sfield where "sfLastLedgerSequence = sf STI_UINT32 27 ''LastLedgerSequence''"
definition sfTransactionIndex :: sfield where "sfTransactionIndex = sf STI_UINT32 28 ''TransactionIndex''"
definition sfOperationLimit :: sfield where "sfOperationLimit = sf STI_UINT32 29 ''OperationLimit''"
definition sfReferenceFeeUnits :: sfield where "sfReferenceFeeUnits = sf STI_UINT32 30 ''ReferenceFeeUnits''"
definition sfReserveBase :: sfield where "sfReserveBase = sf STI_UINT32 31 ''ReserveBase''"
definition sfReserveIncrement :: sfield where "sfReserveIncrement = sf STI_UINT32 32 ''ReserveIncrement''"
definition sfSetFlag :: sfield where "sfSetFlag = sf STI_UINT32 33 ''SetFlag''"
definition sfClearFlag :: sfield where "sfClearFlag = sf STI_UINT32 34 ''ClearFlag''"
definition sfSignerQuorum :: sfield where "sfSignerQuorum = sf STI_UINT32 35 ''SignerQuorum''"
definition sfCancelAfter :: sfield where "sfCancelAfter = sf STI_UINT32 36 ''CancelAfter''"
definition sfFinishAfter :: sfield where "sfFinishAfter = sf STI_UINT32 37 ''FinishAfter''"
definition sfSignerListID :: sfield where "sfSignerListID = sf STI_UINT32 38 ''SignerListID''"
definition sfSettleDelay :: sfield where "sfSettleDelay = sf STI_UINT32 39 ''SettleDelay''"
definition sfIndexNext :: sfield where "sfIndexNext = sf STI_UINT64 1 ''IndexNext''"
definition sfIndexPrevious :: sfield where "sfIndexPrevious = sf STI_UINT64 2 ''IndexPrevious''"
definition sfBookNode :: sfield where "sfBookNode = sf STI_UINT64 3 ''BookNode''"
definition sfOwnerNode :: sfield where "sfOwnerNode = sf STI_UINT64 4 ''OwnerNode''"
definition sfBaseFee :: sfield where "sfBaseFee = sf STI_UINT64 5 ''BaseFee''"
definition sfExchangeRate :: sfield where "sfExchangeRate = sf STI_UINT64 6 ''ExchangeRate''"
definition sfLowNode :: sfield where "sfLowNode = sf STI_UINT64 7 ''LowNode''"
definition sfHighNode :: sfield where "sfHighNode = sf STI_UINT64 8 ''HighNode''"
definition sfEmailHash :: sfield where "sfEmailHash = sf STI_HASH128 1 ''EmailHash''"
definition sfTakerPaysCurrency :: sfield where "sfTakerPaysCurrency = sf STI_HASH160 1 ''TakerPaysCurrency''"
definition sfTakerPaysIssuer :: sfield where "sfTakerPaysIssuer = sf STI_HASH160 2 ''TakerPaysIssuer''"
definition sfTakerGetsCurrency :: sfield where "sfTakerGetsCurrency = sf STI_HASH160 3 ''TakerGetsCurrency''"
definition sfTakerGetsIssuer :: sfield where "sfTakerGetsIssuer = sf STI_HASH160 4 ''TakerGetsIssuer''"
definition sfLedgerHash :: sfield where "sfLedgerHash = sf STI_HASH256 1 ''LedgerHash''"
definition sfParentHash :: sfield where "sfParentHash = sf STI_HASH256 2 ''ParentHash''"
definition sfTransactionHash :: sfield where "sfTransactionHash = sf STI_HASH256 3 ''TransactionHash''"
definition sfAccountHash :: sfield where "sfAccountHash = sf STI_HASH256 4 ''AccountHash''"
definition sfPreviousTxnID :: sfield where "sfPreviousTxnID = mk_field STI_HASH256 5 ''PreviousTxnID'' sMD_DeleteFinal SigningYes"
definition sfLedgerIndex :: sfield where "sfLedgerIndex = sf STI_HASH256 6 ''LedgerIndex''"
definition sfWalletLocator :: sfield where "sfWalletLocator = sf STI_HASH256 7 ''WalletLocator''"
definition sfRootIndex :: sfield where "sfRootIndex = mk_field STI_HASH256 8 ''RootIndex'' sMD_Always SigningYes"
definition sfAccountTxnID :: sfield where "sfAccountTxnID = sf STI_HASH256 9 ''AccountTxnID''"
definition sfBookDirectory :: sfield where "sfBookDirectory = sf STI_HASH256 16 ''BookDirectory''"
definition sfInvoiceID :: sfield where "sfInvoiceID = sf STI_HASH256 17 ''InvoiceID''"
definition sfNickname :: sfield where "sfNickname = sf STI_HASH256 18 ''Nickname''"
definition sfAmendment :: sfield where "sfAmendment = sf STI_HASH256 19 ''Amendment''"
definition sfTicketID :: sfield where "sfTicketID = sf STI_HASH256 20 ''TicketID''"
definition sfDigest :: sfield where "sfDigest = sf STI_HASH256 21 ''Digest''"
definition sfPayChannel :: sfield where "sfPayChannel = sf STI_HASH256 22 ''Channel''"
definition sfAmount :: sfield where "sfAmount = sf STI_AMOUNT 1 ''Amount''"
definition sfBalance :: sfield where "sfBalance = sf STI_AMOUNT 2 ''Balance''"
definition sfLimitAmount :: sfield where "sfLimitAmount = sf STI_AMOUNT 3 ''LimitAmount''"
definition sfTakerPays :: sfield where "sfTakerPays = sf STI_AMOUNT 4 ''TakerPays''"
definition sfTakerGets :: sfield where "sfTakerGets = sf STI_AMOUNT 5 ''TakerGets''"
definition sfLowLimit :: sfield where "sfLowLimit = sf STI_AMOUNT 6 ''LowLimit''"
definition sfHighLimit :: sfield where "sfHighLimit = sf STI_AMOUNT 7 ''HighLimit''"
definition sfFee :: sfield where "sfFee = sf STI_AMOUNT 8 ''Fee''"
definition sfSendMax :: sfield where "sfSendMax = sf STI_AMOUNT 9 ''SendMax''"
definition sfDeliverMin :: sfield where "sfDeliverMin = sf STI_AMOUNT 10 ''DeliverMin''"
definition sfMinimumOffer :: sfield where "sfMinimumOffer = sf STI_AMOUNT 16 ''MinimumOffer''"
definition sfCasinocoinEscrow :: sfield where "sfCasinocoinEscrow = sf STI_AMOUNT 17 ''CasinocoinEscrow''"
definition sfDeliveredAmount :: sfield where "sfDeliveredAmount = sf STI_AMOUNT 18 ''DeliveredAmount''"
definition sfPublicKey :: sfield where "sfPublicKey = sf STI_VL 1 ''PublicKey''"
definition sfSigningPubKey :: sfield where "sfSigningPubKey = sf STI_VL 3 ''SigningPubKey''"
definition sfSignature :: sfield where "sfSignature = mk_field STI_VL 6 ''Signature'' sMD_Default SigningNo"
definition sfMessageKey :: sfield where "sfMessageKey = sf STI_VL 2 ''MessageKey''"
definition sfTxnSignature :: sfield where "sfTxnSignature = mk_field STI_VL 4 ''TxnSignature'' sMD_Default SigningNo"
definition sfDomain :: sfield where "sfDomain = sf STI_VL 7 ''Domain''"
definition sfFundCode :: sfield where "sfFundCode = sf STI_VL 8 ''FundCode''"
definition sfRemoveCode :: sfield where "sfRemoveCode = sf STI_VL 9 ''RemoveCode''"
definition sfExpireCode :: sfield where "sfExpireCode = sf STI_VL 10 ''ExpireCode''"
definition sfCreateCode :: sfield where "sfCreateCode = sf STI_VL 11 ''CreateCode''"
definition sfMemoType :: sfield where "sfMemoType = sf STI_VL 12 ''MemoType''"
definition sfMemoData :: sfield where "sfMemoData = sf STI_VL 13 ''MemoData''"
definition sfMemoFormat :: sfield where "sfMemoFormat = sf STI_VL 14 ''MemoFormat''"
definition sfClientIP :: sfield where "sfClientIP = mk_field STI_VL 15 ''ClientIP'' sMD_Default SigningNoAndNotHashed"
definition sfFulfillment :: sfield where "sfFulfillment = sf STI_VL 16 ''Fulfillment''"
definition sfCondition :: sfield where "sfCondition = sf STI_VL 17 ''Condition''"
definition sfMasterSignature :: sfield where "sfMasterSignature = mk_field STI_VL 18 ''MasterSignature'' sMD_Default SigningNo"
definition sfAccount :: sfield where "sfAccount = sf STI_ACCOUNT 1 ''Account''"
definition sfOwner :: sfield where "sfOwner = sf STI_ACCOUNT 2 ''Owner''"
definition sfDestination :: sfield where "sfDestination = sf STI_ACCOUNT 3 ''Destination''"
definition sfIssuer :: sfield where "sfIssuer = sf STI_ACCOUNT 4 ''Issuer''"
definition sfTarget :: sfield where "sfTarget = sf STI_ACCOUNT 7 ''Target''"
definition sfRegularKey :: sfield where "sfRegularKey = sf STI_ACCOUNT 8 ''RegularKey''"
definition sfPaths :: sfield where "sfPaths = sf STI_PATHSET 1 ''Paths''"
definition sfIndexes :: sfield where "sfIndexes = mk_field STI_VECTOR256 1 ''Indexes'' sMD_Never SigningYes"
definition sfHashes :: sfield where "sfHashes = sf STI_VECTOR256 2 ''Hashes''"
definition sfAmendments :: sfield where "sfAmendments = sf STI_VECTOR256 3 ''Amendments''"
definition sfKYCVerifications :: sfield where "sfKYCVerifications = sf STI_VECTOR128 1 ''Verifications''"
definition sfTransactionMetaData :: sfield where "sfTransactionMetaData = sf STI_OBJECT 2 ''TransactionMetaData''"
definition sfCreatedNode :: sfield where "sfCreatedNode = sf STI_OBJECT 3 ''CreatedNode''"
definition sfDeletedNode :: sfield where "sfDeletedNode = sf STI_OBJECT 4 ''DeletedNode''"
definition sfModifiedNode :: sfield where "sfModifiedNode = sf STI_OBJECT 5 ''ModifiedNode''"
definition sfPreviousFields :: sfield where "sfPreviousFields = sf STI_OBJECT 6 ''PreviousFields''"
definition sfFinalFields :: sfield where "sfFinalFields = sf STI_OBJECT 7 ''FinalFields''"
definition sfNewFields :: sfield where "sfNewFields = sf STI_OBJECT 8 ''NewFields''"
definition sfTemplateEntry :: sfield where "sfTemplateEntry = sf STI_OBJECT 9 ''TemplateEntry''"
definition sfMemo :: sfield where "sfMemo = sf STI_OBJECT 10 ''Memo''"
definition sfSignerEntry :: sfield where "sfSignerEntry = sf STI_OBJECT 11 ''SignerEntry''"
definition sfSigner :: sfield where "sfSigner = sf STI_OBJECT 16 ''Signer''"
definition sfMajority :: sfield where "sfMajority = sf STI_OBJECT 18 ''Majority''"
definition sfKYC :: sfield where "sfKYC = sf STI_OBJECT 19 ''KYC''"
definition sfSigners :: sfield where "sfSigners = mk_field STI_ARRAY 3 ''Signers'' sMD_Default SigningNo"
definition sfSignerEntries :: sfield where "sfSignerEntries = sf STI_ARRAY 4 ''SignerEntries''"
definition sfTemplate :: sfield where "sfTemplate = sf STI_ARRAY 5 ''Template''"
definition sfNecessary :: sfield where "sfNecessary = sf STI_ARRAY 6 ''Necessary''"
definition sfSufficient :: sfield where "sfSufficient = sf STI_ARRAY 7 ''Sufficient''"
definition sfAffectedNodes :: sfield where "sfAffectedNodes = sf STI_ARRAY 8 ''AffectedNodes''"
definition sfMemos :: sfield where "sfMemos = sf STI_ARRAY 9 ''Memos''"
definition sfMajorities :: sfield where "sfMajorities = sf STI_ARRAY 16 ''Majorities''"

text \<open>The registration order; \<open>make::one\<close> enters each field under its code.\<close>

definition knownFields :: "sfield list" where
  "knownFields = [
     sfInvalid, sfGeneric, sfLedgerEntry, sfTransaction, sfValidation, sfMetadata, sfHash, sfIndex,
     sfCloseResolution, sfMethod, sfTransactionResult, sfTickSize, sfLedgerEntryType, sfTransactionType,
     sfSignerWeight, sfFlags, sfSourceTag, sfSequence, sfPreviousTxnLgrSeq, sfLedgerSequence, sfCloseTime,
     sfParentCloseTime, sfSigningTime, sfExpiration, sfTransferRate, sfWalletSize, sfOwnerCount,
     sfDestinationTag, sfKYCTime, sfHighQualityIn, sfHighQualityOut, sfLowQualityIn, sfLowQualityOut,
     sfQualityIn, sfQualityOut, sfStampEscrow, sfBondAmount, sfLoadFee, sfOfferSequence,
     sfFirstLedgerSequence, sfLastLedgerSequence, sfTransactionIndex, sfOperationLimit,
     sfReferenceFeeUnits, sfReserveBase, sfReserveIncrement, sfSetFlag, sfClearFlag, sfSignerQuorum,
     sfCancelAfter, sfFinishAfter, sfSignerListID, sfSettleDelay, sfIndexNext, sfIndexPrevious, sfBookNode,
     sfOwnerNode, sfBaseFee, sfExchangeRate, sfLowNode, sfHighNode, sfEmailHash, sfTakerPaysCurrency,
     sfTakerPaysIssuer, sfTakerGetsCurrency, sfTakerGetsIssuer, sfLedgerHash, sfParentHash,
     sfTransactionHash, sfAccountHash, sfPreviousTxnID, sfLedgerIndex, sfWalletLocator, sfRootIndex,
     sfAccountTxnID, sfBookDirectory, sfInvoiceID, sfNickname, sfAmendment, sfTicketID, sfDigest,
     sfPayChannel, sfAmount, sfBalance, sfLimitAmount, sfTakerPays, sfTakerGets, sfLowLimit, sfHighLimit,
     sfFee, sfSendMax, sfDeliverMin, sfMinimumOffer, sfCasinocoinEscrow, sfDeliveredAmount, sfPublicKey,
     sfSigningPubKey, sfSignature, sfMessageKey, sfTxnSignature, sfDomain, sfFundCode, sfRemoveCode,
     sfExpireCode, sfCreateCode, sfMemoType, sfMemoData, sfMemoFormat, sfClientIP, sfFulfillment,
     sfCondition, sfMasterSignature, sfAccount, sfOwner, sfDestination, sfIssuer, sfTarget, sfRegularKey,
     sfPaths, sfIndexes, sfHashes, sfAmendments, sfKYCVerifications, sfTransactionMetaData, sfCreatedNode,
     sfDeletedNode, sfModifiedNode, sfPreviousFields, sfFinalFields, sfNewFields, sfTemplateEntry, sfMemo,
     sfSignerEntry, sfSigner, sfMajority, sfKYC, sfSigners, sfSignerEntries, sfTemplate, sfNecessary,
     sfSufficient, sfAffectedNodes, sfMemos, sfMajorities]"

lemmas sfield_defs =
  sfInvalid_def sfGeneric_def sfLedgerEntry_def sfTransaction_def sfValidation_def sfMetadata_def
  sfHash_def sfIndex_def sfCloseResolution_def sfMethod_def sfTransactionResult_def sfTickSize_def
  sfLedgerEntryType_def sfTransactionType_def sfSignerWeight_def sfFlags_def sfSourceTag_def sfSequence_def
  sfPreviousTxnLgrSeq_def sfLedgerSequence_def sfCloseTime_def sfParentCloseTime_def sfSigningTime_def
  sfExpiration_def sfTransferRate_def sfWalletSize_def sfOwnerCount_def sfDestinationTag_def sfKYCTime_def
  sfHighQualityIn_def sfHighQualityOut_def sfLowQualityIn_def sfLowQualityOut_def sfQualityIn_def
  sfQualityOut_def sfStampEscrow_def sfBondAmount_def sfLoadFee_def sfOfferSequence_def
  sfFirstLedgerSequence_def sfLastLedgerSequence_def sfTransactionIndex_def sfOperationLimit_def
  sfReferenceFeeUnits_def sfReserveBase_def sfReserveIncrement_def sfSetFlag_def sfClearFlag_def
  sfSignerQuorum_def sfCancelAfter_def sfFinishAfter_def sfSignerListID_def sfSettleDelay_def
  sfIndexNext_def sfIndexPrevious_def sfBookNode_def sfOwnerNode_def sfBaseFee_def sfExchangeRate_def
  sfLowNode_def sfHighNode_def sfEmailHash_def sfTakerPaysCurrency_def sfTakerPaysIssuer_def
  sfTakerGetsCurrency_def sfTakerGetsIssuer_def sfLedgerHash_def sfParentHash_def sfTransactionHash_def
  sfAccountHash_def sfPreviousTxnID_def sfLedgerIndex_def sfWalletLocator_def sfRootIndex_def
  sfAccountTxnID_def sfBookDirectory_def sfInvoiceID_def sfNickname_def sfAmendment_def sfTicketID_def
  sfDigest_def sfPayChannel_def sfAmount_def sfBalance_def sfLimitAmount_def sfTakerPays_def
  sfTakerGets_def sfLowLimit_def sfHighLimit_def sfFee_def sfSendMax_def sfDeliverMin_def
  sfMinimumOffer_def sfCasinocoinEscrow_def sfDeliveredAmount_def sfPublicKey_def sfSigningPubKey_def
  sfSignature_def sfMessageKey_def sfTxnSignature_def sfDomain_def sfFundCode_def sfRemoveCode_def
  sfExpireCode_def sfCreateCode_def sfMemoType_def sfMemoData_def sfMemoFormat_def sfClientIP_def
  sfFulfillment_def sfCondition_def sfMasterSignature_def sfAccount_def sfOwner_def sfDestination_def
  sfIssuer_def sfTarget_def sfRegularKey_def sfPaths_def sfIndexes_def sfHashes_def sfAmendments_def
  sfKYCVerifications_def sfTransactionMetaData_def sfCreatedNode_def sfDeletedNode_def sfModifiedNode_def
  sfPreviousFields_def sfFinalFields_def sfNewFields_def sfTemplateEntry_def sfMemo_def sfSignerEntry_def
  sfSigner_def sfMajority_def sfKYC_def sfSigners_def sfSignerEntries_def sfTemplate_def sfNecessary_def
  sfSufficient_def sfAffectedNodes_def sfMemos_def sfMajorities_def

definition knownCodeToField :: "int \<rightharpoonup> sfield" where
  "knownCodeToField = map_of (rev (map (\<lambda>f. (fieldCode f, f)) knownFields))"

section \<open>Lookup\<close>

text \<open>The types that fields unknown at compile time may have.\<close>

definition extendableTypes :: "serialized_type_id list" where
  "extendableTypes =
     [STI_UINT16, STI_UINT32, STI_UINT64, STI_HASH128, STI_HASH256, STI_AMOUNT, STI_VL, STI_ACCOUNT,
      STI_OBJECT, STI_ARRAY, STI_UINT8, STI_HASH160, STI_PATHSET, STI_VECTOR256, STI_VECTOR128]"

text \<open>
  The code keeps the fields it makes at run time in \<open>unknownCodeToField\<close>, so that asking
  twice gives the same object; fields are compared by code, so the field is a function of
  the code here.
\<close>

definition getField :: "int \<Rightarrow> sfield res" where
  "getField code =
     (case knownCodeToField code of
        Some f \<Rightarrow> Inr f
      | None \<Rightarrow>
          (let type = drop_bit 16 code; field = code AND 0xffff
           in if field > 255 \<or> code < 0 then Inr sfInvalid
              else case find (\<lambda>t. sti_code t = type) extendableTypes of
                     Some t \<Rightarrow> mk_dynamic_field t field
                   | None \<Rightarrow> Inr sfInvalid))"

definition getField2 :: "int \<Rightarrow> int \<Rightarrow> sfield res" where
  "getField2 type value = getField (field_code type value)"

text \<open>
  The lookup by name goes through the known fields in the order of their codes; the names of
  the fields made at run time, which it tries after them, are not modelled.
\<close>

definition getFieldByName :: "string \<Rightarrow> sfield" where
  "getFieldByName name =
     (case find (\<lambda>f. fieldName f = name) (sort_key fieldCode knownFields) of
        Some f \<Rightarrow> f | None \<Rightarrow> sfInvalid)"

definition sfield_compare :: "sfield \<Rightarrow> sfield \<Rightarrow> int" where
  "sfield_compare f1 f2 =
     (if fieldCode f1 \<le> 0 \<or> fieldCode f2 \<le> 0 then 0
      else if fieldCode f1 < fieldCode f2 then - 1
      else if fieldCode f2 < fieldCode f1 then 1
      else 0)"

definition sfield_getName :: "sfield \<Rightarrow> string" where
  "sfield_getName f =
     (if fieldName f \<noteq> [] then fieldName f
      else if fieldValue f = 0 then []
      else to_string (sti_code (fieldType f)) @ ''/'' @ to_string (fieldValue f))"

definition isGeneric :: "sfield \<Rightarrow> bool" where
  "isGeneric f \<longleftrightarrow> fieldCode f = 0"

definition isInvalid :: "sfield \<Rightarrow> bool" where
  "isInvalid f \<longleftrightarrow> fieldCode f = - 1"

definition isUseful :: "sfield \<Rightarrow> bool" where
  "isUseful f \<longleftrightarrow> fieldCode f > 0"

definition isKnown :: "sfield \<Rightarrow> bool" where
  "isKnown f \<longleftrightarrow> fieldType f \<noteq> STI_UNKNOWN"

definition isBinary :: "sfield \<Rightarrow> bool" where
  "isBinary f \<longleftrightarrow> fieldValue f < 256"

definition isDiscardable :: "sfield \<Rightarrow> bool" where
  "isDiscardable f \<longleftrightarrow> fieldValue f > 256"

definition isSigningField :: "sfield \<Rightarrow> bool" where
  "isSigningField f \<longleftrightarrow> signingField f = SigningYes"

definition shouldMeta :: "int \<Rightarrow> sfield \<Rightarrow> bool" where
  "shouldMeta c f \<longleftrightarrow> fieldMeta f AND c \<noteq> 0"

definition shouldInclude :: "bool \<Rightarrow> bool \<Rightarrow> sfield \<Rightarrow> bool" where
  "shouldInclude withSigningField withNotHashedField f \<longleftrightarrow>
     fieldValue f < 256 \<and>
     (withSigningField \<or> signingField f = SigningYes) \<and>
     (withNotHashedField \<or> signingField f \<noteq> SigningNoAndNotHashed)"

section \<open>The table\<close>

lemmas mk_field_simps = mk_field_def mk_bare_field_def sf_def field_code_def
  sMD_Never_def sMD_Always_def sMD_DeleteFinal_def

lemma knownCodes_distinct: "distinct (map fieldCode knownFields)"
  by (simp add: knownFields_def sfield_defs mk_field_simps)

lemma knownNames_distinct: "distinct (map fieldName (filter (\<lambda>f. fieldName f \<noteq> []) knownFields))"
proof -
  have "distinct (map (\<lambda>f. horner_sum of_char (256 :: int) (fieldName f)) (filter (\<lambda>f. fieldName f \<noteq> []) knownFields))"
    by (simp add: knownFields_def sfield_defs mk_field_simps)
  then have "distinct (map (horner_sum of_char (256 :: int)) (map fieldName (filter (\<lambda>f. fieldName f \<noteq> []) knownFields)))"
    by (simp add: comp_def)
  then show ?thesis by (simp only: distinct_map [of "horner_sum of_char 256"])
qed

lemma knownFields_code:
  "list_all (\<lambda>f. isUseful f \<longrightarrow>
      fieldCode f = field_code (sti_code (fieldType f)) (fieldValue f) \<and> 0 < fieldValue f \<and>
      0 < sti_code (fieldType f) \<and> (isBinary f \<longrightarrow> sti_code (fieldType f) < 256)) knownFields"
  by (simp add: knownFields_def sfield_defs mk_field_simps isUseful_def isBinary_def)

lemma knownCodeToField_known: "f \<in> set knownFields \<Longrightarrow> knownCodeToField (fieldCode f) = Some f"
  unfolding knownCodeToField_def
  by (rule map_of_is_SomeI) (use knownCodes_distinct in \<open>auto simp: rev_map [symmetric] comp_def distinct_rev\<close>)

lemma getField_known: "f \<in> set knownFields \<Longrightarrow> getField (fieldCode f) = Inr f"
  by (simp add: getField_def knownCodeToField_known)

lemma getFieldByName_known:
  assumes "f \<in> set knownFields" "fieldName f \<noteq> []"
  shows "getFieldByName (fieldName f) = f"
proof -
  have u: "g = f" if "g \<in> set knownFields" "fieldName g = fieldName f" for g
    using knownNames_distinct assms that by (auto simp: distinct_map inj_on_def)
  obtain g where g: "find (\<lambda>g. fieldName g = fieldName f) (sort_key fieldCode knownFields) = Some g"
    using assms(1) by (cases "find (\<lambda>g. fieldName g = fieldName f) (sort_key fieldCode knownFields)") (auto simp: find_None_iff)
  then have "g \<in> set (sort_key fieldCode knownFields)" "fieldName g = fieldName f"
    by (metis (mono_tags, lifting) find_Some_iff nth_mem)+
  then show ?thesis using u [of g] g by (simp add: getFieldByName_def)
qed

lemma field_code_split: "field_code (drop_bit 16 c) (c AND 0xffff) = c"
proof -
  have "push_bit 16 (drop_bit 16 c) OR take_bit 16 c = c" by (rule bit_eqI) (auto simp: bit_simps)
  then show ?thesis by (simp add: field_code_def take_bit_eq_mask mask_eq_exp_minus_1)
qed

lemma getField_code:
  "rok {AssertFailed ''SField::SField''} (\<lambda>f. fieldCode f = code \<or> isInvalid f) (getField code)"
proof (cases "knownCodeToField code")
  case (Some f)
  then have "fieldCode f = code" by (auto simp: knownCodeToField_def dest!: map_of_SomeD)
  with Some show ?thesis by (simp add: getField_def)
next
  case None
  have "isInvalid sfInvalid" by (simp add: isInvalid_def sfInvalid_def mk_bare_field_def)
  moreover have "field_code (sti_code t) (code AND 0xffff) = code" if "find (\<lambda>t. sti_code t = drop_bit 16 code) extendableTypes = Some t" for t
    using that field_code_split [of code] by (auto simp: find_Some_iff)
  ultimately show ?thesis using None
    by (auto simp: getField_def Let_def mk_dynamic_field_def rassert_def split: option.splits)
qed

section \<open>Fields on the wire\<close>

text \<open>A field whose identifier can be written and is found again from what is read.\<close>

definition wire_field :: "sfield \<Rightarrow> bool" where
  "wire_field f \<longleftrightarrow>
     0 < sti_code (fieldType f) \<and> sti_code (fieldType f) < 256 \<and> 0 < fieldValue f \<and> fieldValue f < 256 \<and>
     getField2 (sti_code (fieldType f)) (fieldValue f) = Inr f \<and> \<not> isInvalid f"

lemma wire_field_known:
  assumes "f \<in> set knownFields" "isUseful f" "isBinary f"
  shows "wire_field f"
  using assms knownFields_code getField_known [OF assms(1)]
  by (auto simp: wire_field_def list_all_iff getField2_def isBinary_def isUseful_def isInvalid_def)

definition readField :: "serial_iter \<Rightarrow> (sfield \<times> serial_iter) res" where
  "readField it = rbind (getFieldID it) (\<lambda>((type, field), it'). rbind (getField2 type field) (\<lambda>f. Inr (f, it')))"

lemma wire_field_reads:
  assumes "wire_field f"
  shows "\<exists>bs. addFieldID (sti_code (fieldType f)) (fieldValue f) s = Inr (s @ bs) \<and>
    reads getFieldID bs (sti_code (fieldType f), fieldValue f)"
  using assms by (intro reads_getFieldID) (auto simp: wire_field_def)

lemma reads_readField:
  assumes "reads getFieldID bs (sti_code (fieldType f), fieldValue f)" "wire_field f"
  shows "reads readField bs f"
proof -
  have "reads readField (bs @ []) f" unfolding readField_def
    by (rule reads_bind [OF assms(1)]) (use assms(2) reads_return [of f] in \<open>simp add: wire_field_def\<close>)
  then show ?thesis by simp
qed

text \<open>
  C0: Every field of the table is found by its code, which no other field has, and by its name
  when it has one; and the identifier written for a field with a binary form is read back,
  whatever follows it, as that very field.
\<close>

theorem field_table:
  assumes "f \<in> set knownFields"
  shows "getField (fieldCode f) = Inr f \<and> (\<forall>g \<in> set knownFields. fieldCode g = fieldCode f \<longrightarrow> g = f) \<and>
    (fieldName f \<noteq> [] \<longrightarrow> getFieldByName (fieldName f) = f) \<and>
    (isUseful f \<and> isBinary f \<longrightarrow>
      (\<exists>bs. addFieldID (sti_code (fieldType f)) (fieldValue f) s = Inr (s @ bs) \<and> reads readField bs f))"
proof (intro conjI impI ballI)
  show "getField (fieldCode f) = Inr f" using assms by (rule getField_known)
  show "g = f" if "g \<in> set knownFields" "fieldCode g = fieldCode f" for g
    using getField_known [OF assms] getField_known [OF that(1)] that(2) by simp
  show "getFieldByName (fieldName f) = f" if "fieldName f \<noteq> []" using assms that by (rule getFieldByName_known)
  show "\<exists>bs. addFieldID (sti_code (fieldType f)) (fieldValue f) s = Inr (s @ bs) \<and> reads readField bs f"
    if "isUseful f \<and> isBinary f"
    using wire_field_reads [of f s] reads_readField [of _ f] wire_field_known [OF assms] that by blast
qed

theorem field_table_witness:
  "sfFlags \<in> set knownFields \<and> getField 131074 = Inr sfFlags \<and> getFieldByName ''Flags'' = sfFlags \<and>
   (\<exists>bs. addFieldID 2 2 [] = Inr bs \<and> reads readField bs sfFlags)"
proof -
  have m: "sfFlags \<in> set knownFields" by (simp add: knownFields_def)
  have d: "fieldCode sfFlags = 131074" "fieldType sfFlags = STI_UINT32" "fieldValue sfFlags = 2" "fieldName sfFlags = ''Flags''"
    by (simp_all add: sfFlags_def mk_field_simps)
  show ?thesis using field_table [OF m, of "[]"] m d by (simp add: isUseful_def isBinary_def)
qed

end
