(* ===== verification/WireReaders.thy ===== *)
theory WireReaders
  imports AmountWire
begin

text \<open>
  What every reader of the wire form has in common: it fails with an exception or a failed
  assertion, or it leaves no more bytes than it found. The recursive readers of paths,
  objects and arrays terminate because each round consumes a byte.
\<close>

lemma rbind_cong [fundef_cong]:
  "m = m' \<Longrightarrow> (\<And>x. m' = Inr x \<Longrightarrow> k x = k' x) \<Longrightarrow> rbind m k = rbind m' k'"
  by (cases m') simp_all

lemma rfold_cong [fundef_cong]:
  assumes "xs = ys" "s = t" "\<And>x s. x \<in> set ys \<Longrightarrow> f x s = g x s"
  shows "rfold f xs s = rfold g ys t"
proof -
  have "\<forall>x \<in> set ys. \<forall>s. f x s = g x s" using assms(3) by simp
  then have "rfold f ys t = rfold g ys t"
    by (induction ys arbitrary: t) (auto simp: rbind_def split: sum.splits)
  then show ?thesis using assms by simp
qed

section \<open>Readers and the rest of the bytes\<close>

text \<open>\<open>shrinks r\<close>: the reader \<open>r\<close> fails or leaves no more bytes than it found, and never runs out of fuel.\<close>

definition shrinks :: "(serial_iter \<Rightarrow> ('a \<times> serial_iter) res) \<Rightarrow> bool" where
  "shrinks r \<longleftrightarrow> (\<forall>it. rok (- {OutOfFuel}) (\<lambda>(_, it'). si_remain it' \<le> si_remain it) (r it))"

named_theorems shrinks_intros "readers that leave no more bytes than they found"

lemma shrinksD: "shrinks r \<Longrightarrow> r it = Inr (x, it') \<Longrightarrow> si_remain it' \<le> si_remain it"
  by (fastforce simp: shrinks_def rok_def split: sum.splits dest: spec [of _ it])

lemma shrinks_fuel: "shrinks r \<Longrightarrow> r it \<noteq> Inl OutOfFuel"
  by (fastforce simp: shrinks_def rok_def split: sum.splits dest: spec [of _ it])

lemma shrinks_take [shrinks_intros]: "shrinks (si_take msg n)"
  by (auto simp: shrinks_def si_take_def si_remain_def si_rest_def)

lemma shrinks_bind [shrinks_intros]:
  assumes "shrinks r" "\<And>x. shrinks (k x)"
  shows "shrinks (\<lambda>it. rbind (r it) (\<lambda>(x, it'). k x it'))"
  unfolding shrinks_def
proof
  fix it
  show "rok (- {OutOfFuel}) (\<lambda>(_, it'). si_remain it' \<le> si_remain it) (rbind (r it) (\<lambda>(x, it'). k x it'))"
  proof (rule rok_bind)
    show "rok (- {OutOfFuel}) (\<lambda>(_, it'). si_remain it' \<le> si_remain it) (r it)"
      using assms(1) by (simp add: shrinks_def)
    show "rok (- {OutOfFuel}) (\<lambda>(_, it'). si_remain it' \<le> si_remain it) (case y of (x, it') \<Rightarrow> k x it')"
      if "case y of (_, it') \<Rightarrow> si_remain it' \<le> si_remain it" for y
      using that assms(2) by (cases y) (fastforce simp: shrinks_def intro: rok_mono)
  qed
qed

lemma shrinks_return [shrinks_intros]: "shrinks (\<lambda>it. Inr (f it, it))"
  by (simp add: shrinks_def)

lemma shrinks_fail [shrinks_intros]: "e \<noteq> OutOfFuel \<Longrightarrow> shrinks (\<lambda>it. Inl e)"
  by (simp add: shrinks_def)

lemma shrinks_if [shrinks_intros]: "shrinks r \<Longrightarrow> shrinks r' \<Longrightarrow> shrinks (\<lambda>it. if c then r it else r' it)"
  by (cases c) simp_all

lemma shrinks_value [shrinks_intros]:
  assumes "m \<noteq> Inl OutOfFuel" "\<And>x. shrinks (k x)"
  shows "shrinks (\<lambda>it. rbind m (\<lambda>x. k x it))"
  using assms by (cases m) (auto simp: shrinks_def)

lemma shrinks_assert [shrinks_intros]: "shrinks r \<Longrightarrow> shrinks (\<lambda>it. rassert c msg (r it))"
  by (cases c) (simp_all add: shrinks_def rassert_def)

lemma shrinks_get8 [shrinks_intros]: "shrinks get8"
  unfolding get8_def by (intro shrinks_intros)

lemma shrinks_get16 [shrinks_intros]: "shrinks get16"
  unfolding get16_def by (intro shrinks_intros)

lemma shrinks_get32 [shrinks_intros]: "shrinks get32"
  unfolding get32_def by (intro shrinks_intros)

lemma shrinks_get64 [shrinks_intros]: "shrinks get64"
  unfolding get64_def by (intro shrinks_intros)

lemma shrinks_get160 [shrinks_intros]: "shrinks get160"
  unfolding get160_def by (intro shrinks_intros)

lemma shrinks_get256 [shrinks_intros]: "shrinks get256"
  unfolding get256_def by (intro shrinks_intros)

lemma get8_consumes: "get8 it = Inr (b, it') \<Longrightarrow> si_remain it' < si_remain it"
  by (auto simp: get8_def si_take_def si_remain_def si_rest_def split: if_splits)

lemma shrinks_getUncommon [shrinks_intros]: "shrinks (getUncommon msg x)"
  unfolding getUncommon_def by (intro shrinks_intros) simp

lemma getFieldID_consumes:
  assumes "getFieldID it = Inr (x, it')"
  shows "si_remain it' < si_remain it"
proof -
  have k: "shrinks (\<lambda>it1. rbind (getUncommon ''gFID: uncommon type out of range'' (drop_bit 4 (uint b)) it1) (\<lambda>(type, it2).
     rbind (getUncommon ''gFID: uncommon name out of range'' (uint b AND 15) it2) (\<lambda>(name, it3).
       Inr ((type, name), it3))))" for b :: u8
    by (intro shrinks_intros)
  from assms obtain b it1 where "get8 it = Inr (b, it1)"
    "rbind (getUncommon ''gFID: uncommon type out of range'' (drop_bit 4 (uint b)) it1) (\<lambda>(type, it2).
     rbind (getUncommon ''gFID: uncommon name out of range'' (uint b AND 15) it2) (\<lambda>(name, it3).
       Inr ((type, name), it3))) = Inr (x, it')"
    unfolding getFieldID_def by (auto elim!: rbind_InrE)
  then show ?thesis using get8_consumes shrinksD [OF k] by (meson le_less_trans)
qed

lemma shrinks_getFieldID [shrinks_intros]: "shrinks getFieldID"
  unfolding getFieldID_def by (intro shrinks_intros)

lemma decode_fuel [simp]:
  "decodeLengthLength b \<noteq> Inl OutOfFuel" "decodeVLLength1 b \<noteq> Inl OutOfFuel"
  "decodeVLLength2 b c \<noteq> Inl OutOfFuel" "decodeVLLength3 b c d \<noteq> Inl OutOfFuel"
  by (simp_all add: decodeLengthLength_def decodeVLLength1_def decodeVLLength2_def decodeVLLength3_def)

lemma shrinks_getVLDataLength [shrinks_intros]: "shrinks getVLDataLength"
  unfolding getVLDataLength_def Let_def by (intro shrinks_intros decode_fuel)

lemma shrinks_getVL [shrinks_intros]: "shrinks getVL"
  unfolding getVL_def getRaw_def by (intro shrinks_intros)

end
