(* ===== verification/STPathSet.thy ===== *)
theory STPathSet
  imports WireReaders
begin

text \<open>
  Payment paths (\<open>protocol/STPathSet.h\<close> and \<open>protocol/impl/STPathSet.cpp\<close>): path
  elements, sets of paths, and their wire form, in which paths are separated by a boundary
  byte and the set is ended by a zero byte.
\<close>

unbundle bit_operations_syntax

section \<open>Path elements\<close>

definition typeNone :: int where "typeNone = 0x00"
definition typeAccount :: int where "typeAccount = 0x01"
definition typeCurrency :: int where "typeCurrency = 0x10"
definition typeIssuer :: int where "typeIssuer = 0x20"
definition typeBoundary :: int where "typeBoundary = 0xFF"
definition typeAll :: int where "typeAll = typeAccount OR typeCurrency OR typeIssuer"

text \<open>\<open>hash_value_\<close> is a function of the three identifiers that only speeds up comparisons.\<close>

record path_element =
  pe_type :: int
  pe_account :: uint160
  pe_currency :: uint160
  pe_issuer :: uint160
  pe_offer :: bool

definition path_element_of :: "uint160 \<Rightarrow> uint160 \<Rightarrow> uint160 \<Rightarrow> bool \<Rightarrow> path_element" where
  "path_element_of account currency issuer forceCurrency =
     (let t0 = typeNone;
          t1 = (if \<not> isCSC account then t0 OR typeAccount else t0);
          t2 = (if forceCurrency \<or> \<not> isCSC currency then t1 OR typeCurrency else t1);
          t3 = (if \<not> isCSC issuer then t2 OR typeIssuer else t2)
      in \<lparr>pe_type = t3, pe_account = account, pe_currency = currency, pe_issuer = issuer, pe_offer = isCSC account\<rparr>)"

definition pe_eq :: "path_element \<Rightarrow> path_element \<Rightarrow> bool" where
  "pe_eq e t \<longleftrightarrow>
     pe_type e AND typeAccount = pe_type t AND typeAccount \<and> pe_account e = pe_account t \<and>
     pe_currency e = pe_currency t \<and> pe_issuer e = pe_issuer t"

type_synonym st_path = "path_element list"

definition path_eq :: "st_path \<Rightarrow> st_path \<Rightarrow> bool" where
  "path_eq p q \<longleftrightarrow> list_all2 pe_eq p q"

definition hasSeen :: "uint160 \<Rightarrow> uint160 \<Rightarrow> uint160 \<Rightarrow> st_path \<Rightarrow> bool" where
  "hasSeen account currency issuer p \<longleftrightarrow>
     list_ex (\<lambda>e. pe_account e = account \<and> pe_currency e = currency \<and> pe_issuer e = issuer) p"

type_synonym path_set = "st_path list"

definition assembleAdd :: "st_path \<Rightarrow> path_element \<Rightarrow> path_set \<Rightarrow> path_set \<times> bool" where
  "assembleAdd base tail ps =
     (let newPath = base @ [tail]
      in if list_ex (\<lambda>p. path_eq p newPath) (rev ps) then (ps, False) else (ps @ [newPath], True))"

section \<open>Wire form\<close>

definition add_path_element :: "path_element \<Rightarrow> blob \<Rightarrow> blob" where
  "add_path_element e s =
     (let t = pe_type e;
          s1 = add8 (word_of_int t) s;
          s2 = (if t AND typeAccount \<noteq> 0 then add160 (pe_account e) s1 else s1);
          s3 = (if t AND typeCurrency \<noteq> 0 then add160 (pe_currency e) s2 else s2)
      in if t AND typeIssuer \<noteq> 0 then add160 (pe_issuer e) s3 else s3)"

primrec add_paths :: "bool \<Rightarrow> path_set \<Rightarrow> blob \<Rightarrow> blob" where
  "add_paths first [] s = add8 (word_of_int typeNone) s"
| "add_paths first (p # ps) s =
     add_paths False ps (fold add_path_element p (if first then s else add8 (word_of_int typeBoundary) s))"

definition add_path_set :: "path_set \<Rightarrow> blob \<Rightarrow> blob" where
  "add_path_set ps s = add_paths True ps s"

definition get160_if :: "bool \<Rightarrow> serial_iter \<Rightarrow> (uint160 \<times> serial_iter) res" where
  "get160_if c it = (if c then get160 it else Inr (0, it))"

definition read_path_element :: "int \<Rightarrow> serial_iter \<Rightarrow> (path_element \<times> serial_iter) res" where
  "read_path_element t it =
     rbind (get160_if (t AND typeAccount \<noteq> 0) it) (\<lambda>(account, it1).
     rbind (get160_if (t AND typeCurrency \<noteq> 0) it1) (\<lambda>(currency, it2).
     rbind (get160_if (t AND typeIssuer \<noteq> 0) it2) (\<lambda>(issuer, it3).
       Inr (path_element_of account currency issuer (t AND typeCurrency \<noteq> 0), it3))))"

lemma shrinks_get160_if [shrinks_intros]: "shrinks (get160_if c)"
  unfolding get160_if_def by (intro shrinks_intros)

lemma shrinks_read_path_element [shrinks_intros]: "shrinks (read_path_element t)"
  unfolding read_path_element_def by (intro shrinks_intros)

function read_paths :: "st_path \<Rightarrow> path_set \<Rightarrow> serial_iter \<Rightarrow> (path_set \<times> serial_iter) res" where
  "read_paths path ps it =
     rbind (get8 it) (\<lambda>(b, it1).
       let iType = uint b
       in if iType = typeNone \<or> iType = typeBoundary then
            (if path = [] then Inl (Thrown ''empty path'')
             else if iType = typeNone then Inr (ps @ [path], it1)
             else read_paths [] (ps @ [path]) it1)
          else if iType AND NOT typeAll \<noteq> 0 then Inl (Thrown ''bad path element'')
          else rbind (read_path_element iType it1) (\<lambda>(e, it2). read_paths (path @ [e]) ps it2))"
  by pat_completeness auto
termination
  by (relation "measure (\<lambda>(_, _, it). si_remain it)")
    (auto dest: get8_consumes shrinksD [OF shrinks_read_path_element] intro: le_less_trans)

declare read_paths.simps [simp del]

definition read_path_set :: "serial_iter \<Rightarrow> (path_set \<times> serial_iter) res" where
  "read_path_set it = read_paths [] [] it"

section \<open>Round trip\<close>

definition pe_ok :: "path_element \<Rightarrow> bool" where
  "pe_ok e \<longleftrightarrow> pe_type e \<noteq> typeNone \<and>
     e = path_element_of (pe_account e) (pe_currency e) (pe_issuer e) (pe_type e AND typeCurrency \<noteq> 0)"

definition paths_ok :: "path_set \<Rightarrow> bool" where
  "paths_ok ps \<longleftrightarrow> ps \<noteq> [] \<and> list_all (\<lambda>p. p \<noteq> [] \<and> list_all pe_ok p) ps"

definition pe_tail :: "path_element \<Rightarrow> blob" where
  "pe_tail e =
     (if pe_type e AND typeAccount \<noteq> 0 then word_bytes 20 (pe_account e) else []) @
     (if pe_type e AND typeCurrency \<noteq> 0 then word_bytes 20 (pe_currency e) else []) @
     (if pe_type e AND typeIssuer \<noteq> 0 then word_bytes 20 (pe_issuer e) else [])"

definition pe_bytes :: "path_element \<Rightarrow> blob" where
  "pe_bytes e = word_of_int (pe_type e) # pe_tail e"

lemmas pe_type_defs = typeNone_def typeAccount_def typeCurrency_def typeIssuer_def typeBoundary_def typeAll_def

lemma add_path_element_bytes: "add_path_element e s = s @ pe_bytes e"
  by (simp add: add_path_element_def pe_bytes_def pe_tail_def add8_def add160_def Let_def)

lemma fold_add_path_element: "fold add_path_element p s = s @ concat (map pe_bytes p)"
  by (induction p arbitrary: s) (simp_all add: add_path_element_bytes)

lemma pe_type_bits:
  assumes "t = (if a then 1 else 0) OR (if c then 16 else 0) OR (if i then 32 else (0 :: int))"
  shows "0 \<le> t" "t < 64" "t AND NOT typeAll = 0" "t = 0 \<longleftrightarrow> \<not> a \<and> \<not> c \<and> \<not> i"
    "t AND typeAccount = 0 \<longleftrightarrow> \<not> a" "t AND typeCurrency = 0 \<longleftrightarrow> \<not> c" "t AND typeIssuer = 0 \<longleftrightarrow> \<not> i"
  unfolding assms by (cases a; cases c; cases i; simp add: pe_type_defs)+

lemma path_element_of_type:
  "pe_type (path_element_of account currency issuer force) =
     (if account \<noteq> 0 then 1 else 0) OR (if force \<or> currency \<noteq> 0 then 16 else 0) OR (if issuer \<noteq> 0 then 32 else 0)"
  by (simp add: path_element_of_def pe_type_defs isCSC_def Let_def)

lemma pe_ok_type:
  assumes "pe_ok e"
  shows "uint (word_of_int (pe_type e) :: u8) = pe_type e" "pe_type e \<noteq> typeNone" "pe_type e \<noteq> typeBoundary"
    "pe_type e AND NOT typeAll = 0"
    "pe_type e AND typeAccount = 0 \<longleftrightarrow> pe_account e = 0" "pe_type e AND typeIssuer = 0 \<longleftrightarrow> pe_issuer e = 0"
    "pe_type e AND typeCurrency = 0 \<Longrightarrow> pe_currency e = 0"
proof -
  let ?f = "pe_type e AND typeCurrency \<noteq> 0"
  have "pe_type e = pe_type (path_element_of (pe_account e) (pe_currency e) (pe_issuer e) ?f)"
    using assms by (simp add: pe_ok_def)
  note b = pe_type_bits [OF this [unfolded path_element_of_type]]
  show "uint (word_of_int (pe_type e) :: u8) = pe_type e" using b(1,2) by (intro uint_byte) simp_all
  show "pe_type e \<noteq> typeNone" using assms by (simp add: pe_ok_def)
  show "pe_type e \<noteq> typeBoundary" using b(2) by (simp add: typeBoundary_def)
  show "pe_type e AND NOT typeAll = 0" by (rule b)
  show "pe_type e AND typeAccount = 0 \<longleftrightarrow> pe_account e = 0" "pe_type e AND typeIssuer = 0 \<longleftrightarrow> pe_issuer e = 0"
    using b(5,7) by simp_all
  show "pe_type e AND typeCurrency = 0 \<Longrightarrow> pe_currency e = 0" using b(6) by auto
qed

lemma reads_get160_if: "reads (get160_if c) (if c then word_bytes 20 x else []) (if c then x else 0)"
  using reads_get160 [of x] reads_return [of "0 :: uint160"] by (simp add: get160_if_def [abs_def])

lemma reads_read_path_element:
  assumes "pe_ok e"
  shows "reads (read_path_element (pe_type e)) (pe_tail e) e"
proof -
  let ?t = "pe_type e"
  let ?a = "if ?t AND typeAccount \<noteq> 0 then pe_account e else 0" and ?c = "if ?t AND typeCurrency \<noteq> 0 then pe_currency e else 0"
    and ?i = "if ?t AND typeIssuer \<noteq> 0 then pe_issuer e else 0"
  have v: "?a = pe_account e" "?c = pe_currency e" "?i = pe_issuer e"
    using pe_ok_type(5-7) [OF assms] by auto
  have "reads (read_path_element ?t) (pe_tail e) (path_element_of ?a ?c ?i (?t AND typeCurrency \<noteq> 0))"
    unfolding read_path_element_def pe_tail_def
    by (intro reads_bind [OF reads_get160_if] reads_map [OF reads_get160_if])
  then show ?thesis using assms unfolding v pe_ok_def by simp
qed

lemma read_paths_elements:
  assumes "list_all pe_ok p" "si_rest it = concat (map pe_bytes p) @ rest"
  obtains it' where "read_paths path ps it = read_paths (path @ p) ps it'" "si_rest it' = rest" "si_data it' = si_data it"
  using assms
proof (induction p arbitrary: path it thesis)
  case Nil
  then show ?case by simp
next
  case (Cons e p)
  have e: "pe_ok e" "list_all pe_ok p" using Cons.prems by simp_all
  have r: "si_rest it = [word_of_int (pe_type e)] @ pe_tail e @ concat (map pe_bytes p) @ rest"
    using Cons.prems by (simp add: pe_bytes_def [of e])
  obtain it1 where 1: "get8 it = Inr (word_of_int (pe_type e), it1)" "si_rest it1 = pe_tail e @ concat (map pe_bytes p) @ rest"
    "si_data it1 = si_data it" using readsE [OF reads_get8 r] .
  obtain it2 where 2: "read_path_element (pe_type e) it1 = Inr (e, it2)" "si_rest it2 = concat (map pe_bytes p) @ rest"
    "si_data it2 = si_data it1" using readsE [OF reads_read_path_element [OF e(1)] 1(2)] .
  obtain it' where 3: "read_paths (path @ [e]) ps it2 = read_paths ((path @ [e]) @ p) ps it'" "si_rest it' = rest"
    "si_data it' = si_data it2" using Cons.IH [OF _ e(2) 2(2)] .
  have "read_paths path ps it = read_paths (path @ [e]) ps it2"
    using 1(1) 2(1) pe_ok_type(1-4) [OF e(1)] by (simp add: read_paths.simps [of path ps it])
  with 1 2 3 Cons.prems(1) [of it'] show ?case by simp
qed

lemma read_paths_written:
  assumes "path \<noteq> []" "list_all (\<lambda>p. p \<noteq> [] \<and> list_all pe_ok p) qs"
  shows "\<exists>bs. add_paths False qs s = s @ bs \<and> reads (read_paths path ps) bs (ps @ path # qs)"
  using assms
proof (induction qs arbitrary: path ps s)
  case Nil
  have "reads (read_paths path ps) ([0] @ []) (ps @ [path])"
    unfolding read_paths.simps [of path ps] using reads_return [of "ps @ [path]"] Nil(1)
    by (intro reads_bind [OF reads_get8]) (simp add: typeNone_def)
  then show ?case by (auto simp: add8_def typeNone_def)
next
  case (Cons q qs)
  have q: "q \<noteq> []" "list_all pe_ok q" "list_all (\<lambda>p. p \<noteq> [] \<and> list_all pe_ok p) qs" using Cons.prems by simp_all
  from Cons.IH [OF q(1,3), of "(s @ [255]) @ concat (map pe_bytes q)" "ps @ [path]"] obtain bs
    where bs: "add_paths False qs ((s @ [255]) @ concat (map pe_bytes q)) = ((s @ [255]) @ concat (map pe_bytes q)) @ bs"
      "reads (read_paths q (ps @ [path])) bs ((ps @ [path]) @ q # qs)" by blast
  have "reads (read_paths [] (ps @ [path])) (concat (map pe_bytes q) @ bs) (ps @ path # q # qs)"
    unfolding reads_def
  proof (intro allI impI)
    fix it rest assume "si_rest it = (concat (map pe_bytes q) @ bs) @ rest"
    then obtain it' where 1: "read_paths [] (ps @ [path]) it = read_paths ([] @ q) (ps @ [path]) it'" "si_rest it' = bs @ rest"
      "si_data it' = si_data it" using read_paths_elements [OF q(2), of it "bs @ rest"] by (metis append.assoc)
    from readsE [OF bs(2) 1(2)] 1 show "\<exists>it'. read_paths [] (ps @ [path]) it = Inr (ps @ path # q # qs, it') \<and>
        si_rest it' = rest \<and> si_data it' = si_data it" by fastforce
  qed
  then have "reads (read_paths path ps) ([255] @ concat (map pe_bytes q) @ bs) (ps @ path # q # qs)"
    unfolding read_paths.simps [of path ps] using Cons.prems(1)
    by (intro reads_bind [OF reads_get8]) (simp add: typeNone_def typeBoundary_def)
  then show ?case using bs(1) by (auto simp: fold_add_path_element add8_def typeBoundary_def)
qed

lemma path_set_roundtrip:
  assumes "paths_ok ps"
  shows "\<exists>bs. add_path_set ps s = s @ bs \<and> reads read_path_set bs ps"
proof -
  from assms obtain p qs where ps: "ps = p # qs" "p \<noteq> []" "list_all pe_ok p" "list_all (\<lambda>p. p \<noteq> [] \<and> list_all pe_ok p) qs"
    by (cases ps) (auto simp: paths_ok_def)
  from read_paths_written [OF ps(2,4), of "s @ concat (map pe_bytes p)" "[]"] obtain bs
    where bs: "add_paths False qs (s @ concat (map pe_bytes p)) = (s @ concat (map pe_bytes p)) @ bs"
      "reads (read_paths p []) bs ([] @ p # qs)" by blast
  have "reads read_path_set (concat (map pe_bytes p) @ bs) ps"
    unfolding reads_def
  proof (intro allI impI)
    fix it rest assume "si_rest it = (concat (map pe_bytes p) @ bs) @ rest"
    then obtain it' where 1: "read_paths [] [] it = read_paths ([] @ p) [] it'" "si_rest it' = bs @ rest"
      "si_data it' = si_data it" using read_paths_elements [OF ps(3), of it "bs @ rest"] by (metis append.assoc)
    from readsE [OF bs(2) 1(2)] 1 show "\<exists>it'. read_path_set it = Inr (ps, it') \<and> si_rest it' = rest \<and> si_data it' = si_data it"
      by (fastforce simp: read_path_set_def ps(1))
  qed
  then show ?thesis using bs(1) by (auto simp: add_path_set_def ps(1) fold_add_path_element)
qed

lemma read_paths_fuel: "rok (- {OutOfFuel}) (\<lambda>(_, it'). si_remain it' \<le> si_remain it) (read_paths path ps it)"
proof (induction path ps it rule: read_paths.induct)
  case (1 path ps it)
  show ?case
  proof (cases "get8 it")
    case (Inl e)
    then show ?thesis using shrinks_fuel [OF shrinks_get8, of it] by (auto simp: read_paths.simps [of path ps it])
  next
    case (Inr x)
    then obtain b it1 where b: "get8 it = Inr (b, it1)" by (cases x) simp
    note less = get8_consumes [OF b]
    have e: "rok (- {OutOfFuel}) (\<lambda>(_, it'). si_remain it' \<le> si_remain it)
        (rbind (read_path_element (uint b) it1) (\<lambda>(e, it2). read_paths (path @ [e]) ps it2))"
      if "\<not> (uint b = typeNone \<or> uint b = typeBoundary)" "\<not> uint b AND NOT typeAll \<noteq> 0"
    proof (cases "read_path_element (uint b) it1")
      case (Inl e)
      then show ?thesis using shrinks_fuel [OF shrinks_read_path_element, of "uint b" it1] by auto
    next
      case (Inr y)
      then obtain p it2 where y: "read_path_element (uint b) it1 = Inr (p, it2)" by (cases y) simp
      have "si_remain it2 \<le> si_remain it1" using shrinksD [OF shrinks_read_path_element y] .
      then have "rok (- {OutOfFuel}) (\<lambda>(_, it'). si_remain it' \<le> si_remain it) (read_paths (path @ [p]) ps it2)"
        by (intro rok_mono [OF 1(2) [OF b refl refl that y refl]]) (use less in auto)
      then show ?thesis by (simp add: y)
    qed
    have n: "rok (- {OutOfFuel}) (\<lambda>(_, it'). si_remain it' \<le> si_remain it) (read_paths [] (ps @ [path]) it1)"
      if "uint b = typeNone \<or> uint b = typeBoundary" "path \<noteq> []" "uint b \<noteq> typeNone"
      by (rule rok_mono [OF 1(1) [OF b refl refl that]]) (use less in auto)
    show ?thesis using n e less by (auto simp: read_paths.simps [of path ps it] b Let_def)
  qed
qed

lemma shrinks_read_path_set [shrinks_intros]: "shrinks read_path_set"
  using read_paths_fuel by (simp add: shrinks_def read_path_set_def)

end
