(* ===== verification/STObject.thy ===== *)
theory STObject
  imports SField STPathSet
begin

text \<open>
  Serialized objects (\<open>protocol/impl/STObject.cpp\<close>, \<open>STVar.cpp\<close>, \<open>STArray.cpp\<close> and
  the value classes \<open>STInteger\<close>, \<open>STBitString\<close>, \<open>STBlob\<close>, \<open>STAccount\<close>,
  \<open>STVector256\<close>, \<open>STVector128\<close>): objects as lists of named values, their templates,
  their canonical binary form, the parser that reads it back, and the operations on fields.
\<close>

unbundle bit_operations_syntax

section \<open>Templates\<close>

datatype soe_flags = SOE_INVALID | SOE_REQUIRED | SOE_OPTIONAL | SOE_DEFAULT

type_synonym so_template = "(sfield \<times> soe_flags) list"

text \<open>
  The position of a field in a template. The code keeps a table indexed by field numbers,
  sized for the fields known when the first element was added.
\<close>

fun getIndex :: "so_template \<Rightarrow> sfield \<Rightarrow> nat option" where
  "getIndex [] f = None"
| "getIndex ((g, _) # t) f = (if fieldCode g = fieldCode f then Some 0 else map_option Suc (getIndex t f))"

definition tmpl_push_back :: "sfield \<Rightarrow> soe_flags \<Rightarrow> so_template \<Rightarrow> so_template res" where
  "tmpl_push_back f flags t = rassert (getIndex t f = None) ''SOTemplate::push_back'' (Inr (t @ [(f, flags)]))"

definition tmpl_style :: "so_template \<Rightarrow> sfield \<Rightarrow> soe_flags option" where
  "tmpl_style t f = map_option (\<lambda>i. snd (t ! i)) (getIndex t f)"

text \<open>The formats of the objects inside other objects, by the code of the field that names them.\<close>

definition innerObjectFormats :: "(int \<times> so_template) list" where
  "innerObjectFormats =
     [(fieldCode sfSignerEntry, [(sfAccount, SOE_REQUIRED), (sfSignerWeight, SOE_REQUIRED)]),
      (fieldCode sfSigner, [(sfAccount, SOE_REQUIRED), (sfSigningPubKey, SOE_REQUIRED), (sfTxnSignature, SOE_REQUIRED)]),
      (fieldCode sfKYC, [(sfKYCTime, SOE_REQUIRED), (sfKYCVerifications, SOE_OPTIONAL)])]"

definition findSOTemplateBySField :: "sfield \<Rightarrow> so_template option" where
  "findSOTemplateBySField f = map_of innerObjectFormats (fieldCode f)"

section \<open>Values and objects\<close>

text \<open>
  \<open>STVar\<close> holds a value of any of the classes; an absent field is a plain \<open>STBase\<close>. The
  name of a value stands beside it in the object. \<open>mType\<close>, a pointer to a template that is
  null for an object free of one, is an optional template.
\<close>

datatype st_value =
    VNotPresent
  | VUInt8 u8
  | VUInt16 "16 word"
  | VUInt32 u32
  | VUInt64 u64
  | VHash128 "128 word"
  | VHash160 uint160
  | VHash256 uint256
  | VAmount st_amount
  | VBlob blob
  | VAccount uint160 bool
  | VPathSet path_set
  | VVector256 "uint256 list"
  | VVector128 "128 word list"
  | VObject st_object
  | VArray "st_object list"
and st_object = STObj (ob_fname: sfield) (ob_type: "so_template option") (ob_fields: "(sfield \<times> st_value) list")

type_synonym st_fields = "(sfield \<times> st_value) list"

fun getSType :: "st_value \<Rightarrow> serialized_type_id" where
  "getSType VNotPresent = STI_NOTPRESENT"
| "getSType (VUInt8 _) = STI_UINT8"
| "getSType (VUInt16 _) = STI_UINT16"
| "getSType (VUInt32 _) = STI_UINT32"
| "getSType (VUInt64 _) = STI_UINT64"
| "getSType (VHash128 _) = STI_HASH128"
| "getSType (VHash160 _) = STI_HASH160"
| "getSType (VHash256 _) = STI_HASH256"
| "getSType (VAmount _) = STI_AMOUNT"
| "getSType (VBlob _) = STI_VL"
| "getSType (VAccount _ _) = STI_ACCOUNT"
| "getSType (VPathSet _) = STI_PATHSET"
| "getSType (VVector256 _) = STI_VECTOR256"
| "getSType (VVector128 _) = STI_VECTOR128"
| "getSType (VObject _) = STI_OBJECT"
| "getSType (VArray _) = STI_ARRAY"

definition present :: "st_value \<Rightarrow> bool" where
  "present v \<longleftrightarrow> getSType v \<noteq> STI_NOTPRESENT"

fun isDefault :: "st_value \<Rightarrow> bool" where
  "isDefault VNotPresent = True"
| "isDefault (VUInt8 x) = (x = 0)"
| "isDefault (VUInt16 x) = (x = 0)"
| "isDefault (VUInt32 x) = (x = 0)"
| "isDefault (VUInt64 x) = (x = 0)"
| "isDefault (VHash128 x) = (x = 0)"
| "isDefault (VHash160 x) = (x = 0)"
| "isDefault (VHash256 x) = (x = 0)"
| "isDefault (VAmount a) = (sa_value a = 0 \<and> sa_native a)"
| "isDefault (VBlob b) = (b = [])"
| "isDefault (VAccount _ d) = d"
| "isDefault (VPathSet ps) = (ps = [])"
| "isDefault (VVector256 xs) = (xs = [])"
| "isDefault (VVector128 xs) = (xs = [])"
| "isDefault (VObject ob) = (ob_fields ob = [])"
| "isDefault (VArray xs) = (xs = [])"

text \<open>The value a field has when it is made without one.\<close>

definition defaultObject :: "sfield \<Rightarrow> st_value res" where
  "defaultObject f =
     (case fieldType f of
        STI_NOTPRESENT \<Rightarrow> Inr VNotPresent
      | STI_UINT8 \<Rightarrow> Inr (VUInt8 0)
      | STI_UINT16 \<Rightarrow> Inr (VUInt16 0)
      | STI_UINT32 \<Rightarrow> Inr (VUInt32 0)
      | STI_UINT64 \<Rightarrow> Inr (VUInt64 0)
      | STI_AMOUNT \<Rightarrow> Inr (VAmount (st_drops 0 False))
      | STI_HASH128 \<Rightarrow> Inr (VHash128 0)
      | STI_HASH160 \<Rightarrow> Inr (VHash160 0)
      | STI_HASH256 \<Rightarrow> Inr (VHash256 0)
      | STI_VECTOR256 \<Rightarrow> Inr (VVector256 [])
      | STI_VECTOR128 \<Rightarrow> Inr (VVector128 [])
      | STI_VL \<Rightarrow> Inr (VBlob [])
      | STI_ACCOUNT \<Rightarrow> Inr (VAccount 0 True)
      | STI_PATHSET \<Rightarrow> Inr (VPathSet [])
      | STI_OBJECT \<Rightarrow> Inr (VObject (STObj f None []))
      | STI_ARRAY \<Rightarrow> Inr (VArray [])
      | _ \<Rightarrow> Inl (Thrown ''Unknown object type''))"

section \<open>Applying a template\<close>

text \<open>\<open>set (SOTemplate)\<close>: the required fields with their default values, the others absent.\<close>

definition setTemplate :: "so_template \<Rightarrow> st_object \<Rightarrow> st_object res" where
  "setTemplate t ob =
     rbind (rfold (\<lambda>(f, flags) v.
         if flags \<noteq> SOE_REQUIRED then Inr (v @ [(f, VNotPresent)])
         else rbind (defaultObject f) (\<lambda>d. Inr (v @ [(f, d)]))) t [])
       (\<lambda>v. Inr (STObj (ob_fname ob) (Some t) v))"

text \<open>\<open>setType\<close>: reorder the fields as the template has them, and say whether they fit it.\<close>

fun takeField :: "sfield \<Rightarrow> st_fields \<Rightarrow> ((sfield \<times> st_value) \<times> st_fields) option" where
  "takeField f [] = None"
| "takeField f ((g, v) # fs) =
     (if fieldCode g = fieldCode f then Some ((g, v), fs)
      else map_option (\<lambda>(x, rest). (x, (g, v) # rest)) (takeField f fs))"

fun setTypeLoop :: "so_template \<Rightarrow> st_fields \<Rightarrow> bool \<times> st_fields \<times> st_fields" where
  "setTypeLoop [] vs = (True, [], vs)"
| "setTypeLoop ((e, flags) # t) vs =
     (case takeField e vs of
        Some ((f, v), vs') \<Rightarrow>
          (let (valid, new, left) = setTypeLoop t vs'
           in (\<not> (flags = SOE_DEFAULT \<and> isDefault v) \<and> valid, (f, v) # new, left))
      | None \<Rightarrow>
          (let (valid, new, left) = setTypeLoop t vs
           in (flags \<noteq> SOE_REQUIRED \<and> valid, (e, VNotPresent) # new, left)))"

definition setType :: "so_template \<Rightarrow> st_object \<Rightarrow> st_object \<times> bool" where
  "setType t ob =
     (let (valid, new, left) = setTypeLoop t (ob_fields ob)
      in (STObj (ob_fname ob) (Some t) new, valid \<and> list_all (\<lambda>(f, _). isDiscardable f) left))"

datatype set_type_result = TypeSetFail | TypeIsSet | NoTemplate

definition setTypeFromSField :: "sfield \<Rightarrow> st_object \<Rightarrow> st_object \<times> set_type_result" where
  "setTypeFromSField f ob =
     (case findSOTemplateBySField f of
        None \<Rightarrow> (ob, NoTemplate)
      | Some t \<Rightarrow> (let (ob', valid) = setType t ob in (ob', if valid then TypeIsSet else TypeSetFail)))"

section \<open>Reading\<close>

definition get128 :: "serial_iter \<Rightarrow> (128 word \<times> serial_iter) res" where
  "get128 it = rbind (si_take ''invalid SerialIter getBitString'' 16 it) (\<lambda>(t, it'). Inr (bytes_word t, it'))"

text \<open>The whole words in a string of bytes; a shorter rest is dropped.\<close>

definition words_of :: "nat \<Rightarrow> blob \<Rightarrow> 'a::len word list" where
  "words_of n d = map (\<lambda>i. bytes_word (take n (drop (n * i) d))) [0..<length d div n]"

definition account_of :: "blob \<Rightarrow> st_value res" where
  "account_of b =
     (if b = [] then Inr (VAccount 0 True)
      else if length b \<noteq> 20 then Inl (Thrown ''Invalid STAccount size'')
      else Inr (VAccount (bytes_word b) False))"

definition rmap :: "('a \<Rightarrow> 'b) \<Rightarrow> (serial_iter \<Rightarrow> ('a \<times> serial_iter) res) \<Rightarrow> serial_iter \<Rightarrow> ('b \<times> serial_iter) res" where
  "rmap c r it = rbind (r it) (\<lambda>(x, it'). Inr (c x, it'))"

definition value_from_wire ::
    "(serial_iter \<Rightarrow> ((bool \<times> st_fields) \<times> serial_iter) res) \<Rightarrow>
     (serial_iter \<Rightarrow> (st_object list \<times> serial_iter) res) \<Rightarrow> sfield \<Rightarrow> serial_iter \<Rightarrow>
     (st_value \<times> serial_iter) res" where
  "value_from_wire readObject readArray f =
     (case fieldType f of
        STI_NOTPRESENT \<Rightarrow> (\<lambda>it. Inr (VNotPresent, it))
      | STI_UINT8 \<Rightarrow> rmap VUInt8 get8
      | STI_UINT16 \<Rightarrow> rmap VUInt16 get16
      | STI_UINT32 \<Rightarrow> rmap VUInt32 get32
      | STI_UINT64 \<Rightarrow> rmap VUInt64 get64
      | STI_AMOUNT \<Rightarrow> rmap VAmount st_deserialize
      | STI_HASH128 \<Rightarrow> rmap VHash128 get128
      | STI_HASH160 \<Rightarrow> rmap VHash160 get160
      | STI_HASH256 \<Rightarrow> rmap VHash256 get256
      | STI_VECTOR256 \<Rightarrow> rmap (\<lambda>d. VVector256 (words_of 32 d)) getVL
      | STI_VECTOR128 \<Rightarrow> rmap (\<lambda>d. VVector128 (words_of 16 d)) getVL
      | STI_VL \<Rightarrow> rmap VBlob getVL
      | STI_ACCOUNT \<Rightarrow> (\<lambda>it. rbind (getVL it) (\<lambda>(b, it'). rbind (account_of b) (\<lambda>v. Inr (v, it'))))
      | STI_PATHSET \<Rightarrow> rmap VPathSet read_path_set
      | STI_OBJECT \<Rightarrow> rmap (\<lambda>(_, fs). VObject (STObj f None fs)) readObject
      | STI_ARRAY \<Rightarrow> rmap VArray readArray
      | _ \<Rightarrow> (\<lambda>it. Inl (Thrown ''Unknown object type'')))"

text \<open>An object read inside another one is given the template of its field.\<close>

definition typeInner :: "sfield \<Rightarrow> st_value \<Rightarrow> st_value res" where
  "typeInner f v =
     (case v of
        VObject ob \<Rightarrow>
          (let (ob', r) = setTypeFromSField f ob
           in if r = TypeSetFail then Inl (Thrown ''field deserialization error'') else Inr (VObject ob'))
      | _ \<Rightarrow> Inr v)"

text \<open>
  The loops of \<open>STObject::set\<close> and of the constructor of \<open>STArray\<close>. The first argument
  bounds the number of rounds; a round consumes at least a byte, so the number of bytes left
  is enough. The object loop also says whether it met the end marker.
\<close>

fun object_set :: "nat \<Rightarrow> st_fields \<Rightarrow> serial_iter \<Rightarrow> ((bool \<times> st_fields) \<times> serial_iter) res"
  and array_set :: "nat \<Rightarrow> st_object list \<Rightarrow> serial_iter \<Rightarrow> (st_object list \<times> serial_iter) res" where
  "object_set 0 vs it = Inl OutOfFuel"
| "object_set (Suc n) vs it =
     (if si_remain it = 0 then Inr ((False, vs), it)
      else rbind (getFieldID it) (\<lambda>((type, field), it1).
        if type = sti_code STI_ARRAY \<and> field = 1 then Inl (Thrown ''Illegal terminator in object'')
        else if type = sti_code STI_OBJECT \<and> field = 1 then Inr ((True, vs), it1)
        else rbind (getField2 type field) (\<lambda>fn.
          if isInvalid fn then Inl (Thrown ''Unknown field'')
          else rbind (value_from_wire (object_set n []) (array_set n []) fn it1) (\<lambda>(v, it2).
            rbind (typeInner fn v) (\<lambda>v'. object_set n (vs @ [(fn, v')]) it2)))))"
| "array_set 0 obs it = Inl OutOfFuel"
| "array_set (Suc n) obs it =
     (if si_remain it = 0 then Inr (obs, it)
      else rbind (getFieldID it) (\<lambda>((type, field), it1).
        if type = sti_code STI_ARRAY \<and> field = 1 then Inr (obs, it1)
        else if type = sti_code STI_OBJECT \<and> field = 1 then Inl (Thrown ''Illegal terminator in array'')
        else rbind (getField2 type field) (\<lambda>fn.
          if isInvalid fn then Inl (Thrown ''Unknown field'')
          else if fieldType fn \<noteq> STI_OBJECT then Inl (Thrown ''Non-object in array'')
          else rbind (object_set n [] it1) (\<lambda>((_, fs), it2).
            let (ob, r) = setTypeFromSField fn (STObj fn None fs)
            in if r = TypeSetFail then Inl (Thrown ''Malformed object in array'')
               else array_set n (obs @ [ob]) it2))))"

definition object_from_wire :: "sfield \<Rightarrow> serial_iter \<Rightarrow> (st_object \<times> serial_iter) res" where
  "object_from_wire f it =
     rbind (object_set (Suc (si_remain it)) [] it) (\<lambda>((_, fs), it'). Inr (STObj f None fs, it'))"

text \<open>The constructor from a template and a \<open>SerialIter\<close> does not look at whether the fields fit.\<close>

definition object_from_wire_as :: "so_template \<Rightarrow> sfield \<Rightarrow> serial_iter \<Rightarrow> (st_object \<times> serial_iter) res" where
  "object_from_wire_as t f it =
     rbind (object_from_wire f it) (\<lambda>(ob, it'). Inr (fst (setType t ob), it'))"

section \<open>Writing\<close>

text \<open>
  The fields that are present and wanted, in the order of their codes: \<open>std::map::insert\<close>
  keeps the first of two fields with one code.
\<close>

definition includedFields :: "bool \<Rightarrow> bool \<Rightarrow> st_fields \<Rightarrow> (int, sfield \<times> st_value) ord_map" where
  "includedFields withSigning withNotHashed fs =
     fold (\<lambda>(f, v) m. if present v \<and> shouldInclude withSigning withNotHashed f
                      then om_insert (fieldCode f) (f, v) m else m) fs []"

definition sf_addFieldID :: "sfield \<Rightarrow> blob \<Rightarrow> blob res" where
  "sf_addFieldID f s =
     rassert (isBinary f) ''STBase::addFieldID'' (addFieldID (sti_code (fieldType f)) (fieldValue f) s)"

text \<open>\<open>addVL (ptr, len)\<close> and \<open>addVL (begin, end, len)\<close>: a length, and the bytes.\<close>

definition addVLRaw :: "blob \<Rightarrow> blob \<Rightarrow> blob res" where
  "addVLRaw v s = rbind (addEncoded (int (length v)) s) (\<lambda>s1. Inr (if v \<noteq> [] then addRaw v s1 else s1))"

definition endMarker :: "st_value \<Rightarrow> blob \<Rightarrow> blob res" where
  "endMarker v s =
     (case v of
        VArray _ \<Rightarrow> addFieldID (sti_code STI_ARRAY) 1 s
      | VObject _ \<Rightarrow> addFieldID (sti_code STI_OBJECT) 1 s
      | _ \<Rightarrow> Inr s)"

lemma om_insert_set: "set (om_insert k v m) \<subseteq> insert (k, v) (set m)"
  by (induction k v m rule: om_insert.induct) auto

lemma fold_om_insert_set: "set (fold (\<lambda>x. om_insert (g x) x) xs m) \<subseteq> (\<lambda>x. (g x, x)) ` set xs \<union> set m"
proof (induction xs arbitrary: m)
  case (Cons x xs)
  show ?case using Cons [of "om_insert (g x) x m"] om_insert_set [of "g x" x m] by auto
qed simp

definition wanted :: "bool \<Rightarrow> bool \<Rightarrow> st_fields \<Rightarrow> st_fields" where
  "wanted ws wn fs = filter (\<lambda>(f, v). present v \<and> shouldInclude ws wn f) fs"

lemma includedFields_wanted: "includedFields ws wn fs = fold (\<lambda>x. om_insert (fieldCode (fst x)) x) (wanted ws wn fs) []"
proof -
  have "fold (\<lambda>(f, v) m. if present v \<and> shouldInclude ws wn f then om_insert (fieldCode f) (f, v) m else m) fs m =
      fold (\<lambda>x. om_insert (fieldCode (fst x)) x) (wanted ws wn fs) m" for m
    by (induction fs arbitrary: m) (simp_all add: wanted_def case_prod_unfold)
  then show ?thesis by (simp add: includedFields_def)
qed

lemma includedFields_set: "set (includedFields ws wn fs) \<subseteq> (\<lambda>x. (fieldCode (fst x), x)) ` set (wanted ws wn fs)"
  using fold_om_insert_set [of "\<lambda>x. fieldCode (fst x)" "wanted ws wn fs" "[]"] by (simp add: includedFields_wanted)

lemma includedFields_size: "(c, f, v) \<in> set (includedFields ws wn (ob_fields ob)) \<Longrightarrow> size v < size ob"
proof -
  assume "(c, f, v) \<in> set (includedFields ws wn (ob_fields ob))"
  then have "(f, v) \<in> set (ob_fields ob)" using includedFields_set [of ws wn "ob_fields ob"] by (auto simp: wanted_def)
  then show ?thesis
    by (cases ob) (auto dest!: split_list)
qed

function (sequential) add_value :: "sfield \<Rightarrow> st_value \<Rightarrow> blob \<Rightarrow> blob res"
  and add_object :: "bool \<Rightarrow> bool \<Rightarrow> st_object \<Rightarrow> blob \<Rightarrow> blob res" where
  "add_value f VNotPresent s = Inl (AssertFailed ''STBase::add'')"
| "add_value f (VUInt8 x) s = rassert (isBinary f \<and> fieldType f = STI_UINT8) ''STInteger::add'' (Inr (add8 x s))"
| "add_value f (VUInt16 x) s = rassert (isBinary f \<and> fieldType f = STI_UINT16) ''STInteger::add'' (Inr (add16 x s))"
| "add_value f (VUInt32 x) s = rassert (isBinary f \<and> fieldType f = STI_UINT32) ''STInteger::add'' (Inr (add32 x s))"
| "add_value f (VUInt64 x) s = rassert (isBinary f \<and> fieldType f = STI_UINT64) ''STInteger::add'' (Inr (add64 x s))"
| "add_value f (VHash128 x) s = rassert (isBinary f \<and> fieldType f = STI_HASH128) ''STBitString::add'' (Inr (add128 x s))"
| "add_value f (VHash160 x) s = rassert (isBinary f \<and> fieldType f = STI_HASH160) ''STBitString::add'' (Inr (add160 x s))"
| "add_value f (VHash256 x) s = rassert (isBinary f \<and> fieldType f = STI_HASH256) ''STBitString::add'' (Inr (add256 x s))"
| "add_value f (VAmount a) s = st_serialize a s"
| "add_value f (VBlob b) s =
     rassert (isBinary f \<and> (fieldType f = STI_VL \<or> fieldType f = STI_ACCOUNT)) ''STBlob::add'' (addVLRaw b s)"
| "add_value f (VAccount a d) s =
     rassert (isBinary f \<and> fieldType f = STI_ACCOUNT) ''STAccount::add'' (addVLRaw (if d then [] else word_bytes 20 a) s)"
| "add_value f (VPathSet ps) s =
     rassert (isBinary f \<and> fieldType f = STI_PATHSET) ''STPathSet::add'' (Inr (add_path_set ps s))"
| "add_value f (VVector256 xs) s =
     rassert (isBinary f \<and> fieldType f = STI_VECTOR256) ''STVector256::add'' (addVLRaw (concat (map (word_bytes 32) xs)) s)"
| "add_value f (VVector128 xs) s =
     rassert (isBinary f \<and> fieldType f = STI_VECTOR128) ''STVector128::add'' (addVLRaw (concat (map (word_bytes 16) xs)) s)"
| "add_value f (VObject ob) s = add_object True True ob s"
| "add_value f (VArray obs) s =
     rfold (\<lambda>ob s. rbind (sf_addFieldID (ob_fname ob) s) (\<lambda>s1.
       rbind (add_object True True ob s1) (addFieldID (sti_code STI_OBJECT) 1))) obs s"
| "add_object withSigning withNotHashed ob s =
     rfold (\<lambda>(c, f, v) s.
       rassert (getSType v \<noteq> STI_OBJECT \<or> fieldType f = STI_OBJECT) ''STObject::add''
         (rbind (sf_addFieldID f s) (\<lambda>s1. rbind (add_value f v s1) (endMarker v))))
       (includedFields withSigning withNotHashed (ob_fields ob)) s"
  by pat_completeness auto
termination
proof (relation "measure (\<lambda>x. case x of Inl (_, v, _) \<Rightarrow> size v | Inr (_, _, ob, _) \<Rightarrow> size ob)")
qed (auto dest: includedFields_size split_list)

declare add_object.simps [simp del]

end
