(* ===== verification/STWire.thy ===== *)
theory STWire
  imports STObject
begin

text \<open>
  The binary form of serialized objects: the parser terminates on every input within the
  fuel it is given, and what is written for a well-formed object is read back as that object.
\<close>

unbundle bit_operations_syntax

section \<open>Termination of the parser\<close>

abbreviation fine :: "serial_iter \<Rightarrow> ('a \<times> serial_iter) res \<Rightarrow> bool" where
  "fine it \<equiv> rok (- {OutOfFuel}) (\<lambda>(_, it'). si_remain it' \<le> si_remain it)"

lemma shrinks_fine: "shrinks r \<Longrightarrow> fine it (r it)"
  by (simp add: shrinks_def)

lemma fine_mono: "fine it m \<Longrightarrow> si_remain it \<le> si_remain it0 \<Longrightarrow> fine it0 m"
  by (erule rok_mono) auto

lemma fine_bind:
  assumes "fine it m" "\<And>x it'. m = Inr (x, it') \<Longrightarrow> si_remain it' \<le> si_remain it \<Longrightarrow> fine it (k x it')"
  shows "fine it (rbind m (\<lambda>(x, it'). k x it'))"
  using assms by (cases m) auto

lemma fine_rmap: "fine it (r it) \<Longrightarrow> fine it (rmap c r it)"
  unfolding rmap_def by (rule fine_bind) auto

lemma shrinkMantissa_fuel: "shrinkMantissa v e \<noteq> Inl OutOfFuel"
  by (induction v e rule: shrinkMantissa.induct) (simp add: shrinkMantissa.simps)

lemma canonicalize_fuel: "canonicalize a \<noteq> Inl OutOfFuel"
proof -
  obtain v e where "growMantissa (sa_value a) (sa_offset a) = (v, e)" by fastforce
  then show ?thesis using shrinkMantissa_fuel [of v e]
    by (cases "shrinkMantissa v e") (auto simp: canonicalize_def rassert_def split: prod.splits)
qed

lemma shrinks_st_deserialize [shrinks_intros]: "shrinks st_deserialize"
proof -
  have "st_native_from_wire v \<noteq> Inl OutOfFuel" for v by (simp add: st_native_from_wire_def)
  moreover have "st_issued_from_wire v iss \<noteq> Inl OutOfFuel" for v iss
    using canonicalize_fuel by (simp add: st_issued_from_wire_def Let_def)
  ultimately show ?thesis unfolding st_deserialize_def by (intro shrinks_intros) simp_all
qed

lemma shrinks_get128 [shrinks_intros]: "shrinks get128"
  unfolding get128_def by (intro shrinks_intros)

lemma account_of_fuel: "account_of b \<noteq> Inl OutOfFuel"
  by (simp add: account_of_def)

lemma value_from_wire_fine:
  assumes "fine it (ro it)" "fine it (ra it)"
  shows "fine it (value_from_wire ro ra f it)"
proof -
  have a: "shrinks (\<lambda>it. rbind (getVL it) (\<lambda>(b, it'). rbind (account_of b) (\<lambda>v. Inr (v, it'))))"
    by (intro shrinks_intros account_of_fuel)
  show ?thesis
    using assms shrinks_fine [OF a, of it]
    by (cases "fieldType f") (simp_all add: value_from_wire_def fine_rmap shrinks_fine shrinks_intros)
qed

lemma getField2_fuel: "getField2 t v \<noteq> Inl OutOfFuel"
  using getField_code [of "field_code t v"] by (cases "getField (field_code t v)") (auto simp: getField2_def)

lemma typeInner_fuel: "typeInner f v \<noteq> Inl OutOfFuel"
  by (cases v) (auto simp: typeInner_def split: prod.splits)

lemma fine_value_bind: "m \<noteq> Inl OutOfFuel \<Longrightarrow> (\<And>x. fine it (k x)) \<Longrightarrow> fine it (rbind m k)"
  by (cases m) auto

lemma object_set_step:
  assumes f: "getFieldID it = Inr ((type, field), it1)"
    and o: "\<And>vs it'. si_remain it' < si_remain it \<Longrightarrow> fine it' (object_set n vs it')"
    and a: "\<And>obs it'. si_remain it' < si_remain it \<Longrightarrow> fine it' (array_set n obs it')"
  shows "fine it (object_set (Suc n) vs it)"
proof -
  have l: "si_remain it1 < si_remain it" by (rule getFieldID_consumes [OF f])
  have "fine it1 (rbind (value_from_wire (object_set n []) (array_set n []) fn it1) (\<lambda>(v, it2).
        rbind (typeInner fn v) (\<lambda>v'. object_set n (vs @ [(fn, v')]) it2)))" for fn
  proof (rule fine_bind)
    show "fine it1 (value_from_wire (object_set n []) (array_set n []) fn it1)"
      using o [OF l] a [OF l] by (rule value_from_wire_fine)
    fix v it2 assume le: "si_remain it2 \<le> si_remain it1"
    show "fine it1 (rbind (typeInner fn v) (\<lambda>v'. object_set n (vs @ [(fn, v')]) it2))"
      by (rule fine_value_bind [OF typeInner_fuel]) (rule fine_mono [OF o le], use le l in simp)
  qed
  note this [THEN fine_mono [OF _ less_imp_le [OF l]]]
  then have "fine it (rbind (getField2 type field) (\<lambda>fn.
      if isInvalid fn then Inl (Thrown ''Unknown field'')
      else rbind (value_from_wire (object_set n []) (array_set n []) fn it1) (\<lambda>(v, it2).
        rbind (typeInner fn v) (\<lambda>v'. object_set n (vs @ [(fn, v')]) it2))))"
    by (intro fine_value_bind [OF getField2_fuel]) auto
  then show ?thesis using f l by auto
qed

lemma array_set_step:
  assumes f: "getFieldID it = Inr ((type, field), it1)"
    and o: "\<And>vs it'. si_remain it' < si_remain it \<Longrightarrow> fine it' (object_set n vs it')"
    and a: "\<And>obs it'. si_remain it' < si_remain it \<Longrightarrow> fine it' (array_set n obs it')"
  shows "fine it (array_set (Suc n) obs it)"
proof -
  let ?k = "\<lambda>fn p it2. case p of (_, fs) \<Rightarrow> let (ob, r) = setTypeFromSField fn (STObj fn None fs)
    in if r = TypeSetFail then Inl (Thrown ''Malformed object in array'') else array_set n (obs @ [ob]) it2"
  have l: "si_remain it1 < si_remain it" by (rule getFieldID_consumes [OF f])
  have "fine it1 (rbind (object_set n [] it1) (\<lambda>(p, it2). ?k fn p it2))" for fn
  proof (rule fine_bind)
    show "fine it1 (object_set n [] it1)" by (rule o [OF l])
    fix p :: "bool \<times> st_fields" and it2 assume le: "si_remain it2 \<le> si_remain it1"
    have "fine it1 (array_set n (obs @ [ob]) it2)" for ob
      by (rule fine_mono [OF a le]) (use le l in simp)
    then show "fine it1 (?k fn p it2)" by (auto split: prod.splits)
  qed
  note this [THEN fine_mono [OF _ less_imp_le [OF l]]]
  then have F: "fine it (rbind (getField2 type field) (\<lambda>fn.
      if isInvalid fn then Inl (Thrown ''Unknown field'')
      else if fieldType fn \<noteq> STI_OBJECT then Inl (Thrown ''Non-object in array'')
      else rbind (object_set n [] it1) (\<lambda>(p, it2). ?k fn p it2)))"
    by (intro fine_value_bind [OF getField2_fuel]) auto
  have e: "(\<lambda>(p, it2). ?k fn p it2) = (\<lambda>((_, fs), it2). let (ob, r) = setTypeFromSField fn (STObj fn None fs)
    in if r = TypeSetFail then Inl (Thrown ''Malformed object in array'') else array_set n (obs @ [ob]) it2)" for fn
    by (rule ext) (simp split: prod.splits)
  show ?thesis using f l F [unfolded e] by auto
qed

lemma set_fuel: "si_remain it < n \<Longrightarrow> fine it (object_set n vs it) \<and> fine it (array_set n obs it)"
proof (induction n arbitrary: it vs obs)
  case (Suc n)
  show ?case
  proof (cases "si_remain it = 0")
    case True
    then show ?thesis by simp
  next
    case False
    show ?thesis
    proof (cases "getFieldID it")
      case (Inl e)
      then show ?thesis using False shrinks_fuel [OF shrinks_getFieldID, of it] by auto
    next
      case (Inr x)
      then obtain t f it1 where x: "getFieldID it = Inr ((t, f), it1)" by (cases x) auto
      have "fine it' (object_set n vs it')" "fine it' (array_set n obs it')" if "si_remain it' < si_remain it" for it' vs obs
        using Suc.IH [of it'] Suc.prems that by auto
      then show ?thesis using object_set_step [OF x] array_set_step [OF x] by blast
    qed
  qed
qed simp

lemma object_from_wire_fine: "fine it (object_from_wire f it)"
  unfolding object_from_wire_def
proof (rule fine_bind)
  show "fine it (object_set (Suc (si_remain it)) [] it)" using set_fuel [of it] by blast
qed auto

section \<open>Well-formed objects\<close>

text \<open>The fields of an object are those of its template, in its order.\<close>

definition fields_fit :: "so_template \<Rightarrow> st_fields \<Rightarrow> bool" where
  "fields_fit t fs \<longleftrightarrow> distinct (map (\<lambda>(e, _). fieldCode e) t) \<and>
     list_all2 (\<lambda>(e, flags) (f, v). f = e \<and> (flags = SOE_REQUIRED \<longrightarrow> present v) \<and>
       (flags = SOE_DEFAULT \<and> present v \<longrightarrow> \<not> isDefault v)) t fs"

definition free_form :: "st_fields \<Rightarrow> bool" where
  "free_form fs \<longleftrightarrow> sorted_wrt (\<lambda>x y. fieldCode (fst x) < fieldCode (fst y)) fs \<and> list_all (\<lambda>(_, v). present v) fs"

definition shape_ok :: "st_object \<Rightarrow> bool" where
  "shape_ok ob = (case ob_type ob of None \<Rightarrow> free_form (ob_fields ob) | Some t \<Rightarrow> fields_fit t (ob_fields ob))"

function (sequential) wf_value :: "sfield \<Rightarrow> st_value \<Rightarrow> bool" and wf_object :: "st_object \<Rightarrow> bool" where
  "wf_value f (VAmount a) = (fieldType f = STI_AMOUNT \<and> st_wire_ok a)"
| "wf_value f (VBlob b) = (fieldType f = STI_VL \<and> length b \<le> 918744)"
| "wf_value f (VAccount a d) = (fieldType f = STI_ACCOUNT \<and> (d \<longrightarrow> a = 0))"
| "wf_value f (VPathSet ps) = (fieldType f = STI_PATHSET \<and> paths_ok ps)"
| "wf_value f (VVector256 xs) = (fieldType f = STI_VECTOR256 \<and> 32 * length xs \<le> 918744)"
| "wf_value f (VVector128 xs) = (fieldType f = STI_VECTOR128 \<and> 16 * length xs \<le> 918744)"
| "wf_value f (VObject ob) =
     (fieldType f = STI_OBJECT \<and> ob_fname ob = f \<and> ob_type ob = findSOTemplateBySField f \<and> wf_object ob)"
| "wf_value f (VArray obs) =
     (fieldType f = STI_ARRAY \<and>
      list_all (\<lambda>ob. wire_field (ob_fname ob) \<and> fieldType (ob_fname ob) = STI_OBJECT \<and>
        ob_type ob = findSOTemplateBySField (ob_fname ob) \<and> wf_object ob) obs)"
| "wf_value f v = (fieldType f = getSType v \<and> present v)"
| "wf_object ob = (shape_ok ob \<and> list_all (\<lambda>(f, v). present v \<longrightarrow> wire_field f \<and> wf_value f v) (ob_fields ob))"
  by pat_completeness auto
termination
proof (relation "measure (\<lambda>x. case x of Inl (_, v) \<Rightarrow> size v | Inr ob \<Rightarrow> size ob)")
  show "(Inl (f, v), Inr ob) \<in> measure (\<lambda>x. case x of Inl (_, v) \<Rightarrow> size v | Inr ob \<Rightarrow> size ob)"
    if "x \<in> set (ob_fields ob)" "(f, v) = x" for ob x f v
    using that by (cases ob) (auto dest!: split_list)
qed (auto dest: split_list)

declare wf_object.simps [simp del]

section \<open>Values on the wire\<close>

lemma reads_rmap: "reads r bs x \<Longrightarrow> reads (rmap c r) bs (c x)"
  unfolding rmap_def [abs_def] by (rule reads_map)

lemma reads_get128: "reads get128 (word_bytes 16 i) i"
  unfolding get128_def by (rule reads_word) simp

lemma words_of_Cons:
  assumes "length b = n" "0 < n"
  shows "words_of n (b @ d) = bytes_word b # words_of n d"
proof -
  have "length (b @ d) div n = Suc (length d div n)" using assms by simp
  then have "[0..<length (b @ d) div n] = 0 # map Suc [0..<length d div n]" by (simp add: upt_conv_Cons map_Suc_upt)
  then show ?thesis using assms unfolding words_of_def
    by (simp only: list.map map_map comp_def) (simp add: add.commute flip: drop_drop)
qed

lemma words_of_word_bytes:
  assumes "LENGTH('a::len) \<le> 8 * n" "0 < n"
  shows "words_of n (concat (map (word_bytes n) xs)) = (xs :: 'a word list)"
proof (induction xs)
  case (Cons x xs)
  then show ?case using assms by (simp add: words_of_Cons bytes_word_bytes_full)
qed (simp add: words_of_def)

lemma addVLRaw_reads:
  assumes "length v \<le> 918744"
  shows "\<exists>bs. addVLRaw v s = Inr (s @ bs) \<and> reads getVL bs v"
proof -
  from reads_length [of "int (length v)" s] assms obtain bs
    where bs: "addEncoded (int (length v)) s = Inr (s @ bs)" "reads getVLDataLength bs (int (length v))" by auto
  have "reads getVL (bs @ v) v" unfolding getVL_def
    by (rule reads_bind [OF bs(2)]) (simp add: reads_getRaw)
  then show ?thesis using bs(1) by (auto simp: addVLRaw_def addRaw_def)
qed

text \<open>
  \<open>vread f v bs\<close>: with at least as many rounds as bytes, the bytes are read as the value,
  once an object is given the template of its field.
\<close>

definition vread :: "sfield \<Rightarrow> st_value \<Rightarrow> blob \<Rightarrow> bool" where
  "vread f v bs \<longleftrightarrow> (\<forall>n. length bs \<le> n \<longrightarrow>
     (\<exists>v0. reads (value_from_wire (object_set n []) (array_set n []) f) bs v0 \<and> typeInner f v0 = Inr v))"

lemma vreadI: "(\<And>ro ra. reads (value_from_wire ro ra f) bs v) \<Longrightarrow> typeInner f v = Inr v \<Longrightarrow> vread f v bs"
  by (auto simp: vread_def)

lemma simple_value_roundtrip:
  assumes "wf_value f v" "wire_field f" "\<And>ob. v \<noteq> VObject ob" "\<And>obs. v \<noteq> VArray obs"
  shows "\<exists>bs. rbind (add_value f v s) (endMarker v) = Inr (s @ bs) \<and> vread f v bs"
proof -
  have b: "isBinary f" using assms(2) by (simp add: wire_field_def isBinary_def)
  show ?thesis
  proof (cases v)
    case (VAmount a)
    with assms(1) st_wire_roundtrip [of a s] obtain bs where "st_serialize a s = Inr (s @ bs)" "reads st_deserialize bs a"
      by auto
    then show ?thesis using assms(1) VAmount
      by (auto simp: endMarker_def typeInner_def value_from_wire_def intro!: vreadI reads_rmap)
  next
    case (VBlob d)
    with assms(1) addVLRaw_reads [of d s] obtain bs where "addVLRaw d s = Inr (s @ bs)" "reads getVL bs d" by auto
    then show ?thesis using assms(1) b VBlob
      by (auto simp: endMarker_def typeInner_def value_from_wire_def intro!: vreadI reads_rmap)
  next
    case (VAccount a d)
    define w where "w = (if d then [] else word_bytes 20 a)"
    have "length w \<le> 918744" by (simp add: w_def)
    from addVLRaw_reads [OF this, of s] obtain bs where bs: "addVLRaw w s = Inr (s @ bs)" "reads getVL bs w" by blast
    have "length (word_bytes 20 a) = 20" by simp
    then have "word_bytes 20 a \<noteq> []" by (metis list.size(3) zero_neq_numeral)
    then have "account_of w = Inr (VAccount a d)"
      using assms(1) VAccount by (cases d) (simp_all add: w_def account_of_def bytes_word_bytes_full)
    then have "reads (\<lambda>it. rbind (getVL it) (\<lambda>(b, it'). rbind (account_of b) (\<lambda>v. Inr (v, it')))) (bs @ []) (VAccount a d)"
      by (intro reads_bind [OF bs(2)]) (simp add: reads_return)
    then have "vread f v bs" using assms(1) VAccount by (intro vreadI) (simp_all add: typeInner_def value_from_wire_def)
    moreover have "rbind (add_value f v s) (endMarker v) = Inr (s @ bs)"
      using assms(1) b VAccount bs(1) by (simp add: endMarker_def flip: w_def)
    ultimately show ?thesis by blast
  next
    case (VPathSet ps)
    with assms(1) path_set_roundtrip [of ps s] obtain bs where "add_path_set ps s = s @ bs" "reads read_path_set bs ps" by auto
    then show ?thesis using assms(1) b VPathSet
      by (auto simp: endMarker_def typeInner_def value_from_wire_def intro!: vreadI reads_rmap)
  next
    case (VVector256 xs)
    let ?d = "concat (map (word_bytes 32) xs)"
    have "length ?d = 32 * length xs" by (induction xs) simp_all
    with assms(1) VVector256 addVLRaw_reads [of ?d s] obtain bs where bs: "addVLRaw ?d s = Inr (s @ bs)" "reads getVL bs ?d" by auto
    have "reads (rmap (\<lambda>d. VVector256 (words_of 32 d)) getVL) bs (VVector256 xs)"
      using reads_rmap [OF bs(2), of "\<lambda>d. VVector256 (words_of 32 d)"] by (simp add: words_of_word_bytes)
    then show ?thesis using assms(1) b VVector256 bs(1)
      by (auto simp: endMarker_def typeInner_def value_from_wire_def intro!: vreadI)
  next
    case (VVector128 xs)
    let ?d = "concat (map (word_bytes 16) xs)"
    have "length ?d = 16 * length xs" by (induction xs) simp_all
    with assms(1) VVector128 addVLRaw_reads [of ?d s] obtain bs where bs: "addVLRaw ?d s = Inr (s @ bs)" "reads getVL bs ?d" by auto
    have "reads (rmap (\<lambda>d. VVector128 (words_of 16 d)) getVL) bs (VVector128 xs)"
      using reads_rmap [OF bs(2), of "\<lambda>d. VVector128 (words_of 16 d)"] by (simp add: words_of_word_bytes)
    then show ?thesis using assms(1) b VVector128 bs(1)
      by (auto simp: endMarker_def typeInner_def value_from_wire_def intro!: vreadI)
  next
    case (VUInt8 x)
    then show ?thesis using assms(1) b reads_get8
      by (auto simp: add8_def endMarker_def typeInner_def value_from_wire_def intro!: vreadI reads_rmap)
  next
    case (VUInt16 x)
    then show ?thesis using assms(1) b reads_get16
      by (auto simp: add16_def endMarker_def typeInner_def value_from_wire_def intro!: vreadI reads_rmap)
  next
    case (VUInt32 x)
    then show ?thesis using assms(1) b reads_get32
      by (auto simp: add32_def endMarker_def typeInner_def value_from_wire_def intro!: vreadI reads_rmap)
  next
    case (VUInt64 x)
    then show ?thesis using assms(1) b reads_get64
      by (auto simp: add64_def endMarker_def typeInner_def value_from_wire_def intro!: vreadI reads_rmap)
  next
    case (VHash128 x)
    then show ?thesis using assms(1) b reads_get128
      by (auto simp: add128_def endMarker_def typeInner_def value_from_wire_def intro!: vreadI reads_rmap)
  next
    case (VHash160 x)
    then show ?thesis using assms(1) b reads_get160
      by (auto simp: add160_def endMarker_def typeInner_def value_from_wire_def intro!: vreadI reads_rmap)
  next
    case (VHash256 x)
    then show ?thesis using assms(1) b reads_get256
      by (auto simp: add256_def endMarker_def typeInner_def value_from_wire_def intro!: vreadI reads_rmap)
  qed (use assms in \<open>auto simp: present_def\<close>)
qed

section \<open>The order of the fields\<close>

lemma sorted_key_unique:
  fixes k :: "'a \<Rightarrow> 'b::linorder"
  assumes "sorted_wrt (\<lambda>x y. k x < k y) xs" "sorted_wrt (\<lambda>x y. k x < k y) ys" "set xs = set ys"
  shows "xs = ys"
proof -
  have s: "sorted (map k zs) \<and> distinct (map k zs)" if "sorted_wrt (\<lambda>x y. k x < k y) zs" for zs
    using that by (induction zs) auto
  from s [OF assms(1)] s [OF assms(2)] have "map k xs = map k ys"
    using assms(3) by (intro sorted_distinct_set_unique) auto
  moreover have "inj_on k (set xs \<union> set ys)" using s [OF assms(2)] assms(3) by (simp add: distinct_map)
  ultimately show ?thesis by (rule map_inj_on)
qed

lemma fold_om_insert_wf: "om_wf m \<Longrightarrow> om_wf (fold (\<lambda>x. om_insert (g x) x) xs m)"
  by (induction xs arbitrary: m) simp_all

lemma om_insert_fresh: "k \<notin> fst ` set m \<Longrightarrow> set (om_insert k v m) = insert (k, v) (set m)"
  by (induction k v m rule: om_insert.induct) auto

lemma fold_om_insert_exact:
  assumes "om_wf m" "distinct (map g xs)" "g ` set xs \<inter> fst ` set m = {}"
  shows "set (fold (\<lambda>x. om_insert (g x) x) xs m) = (\<lambda>x. (g x, x)) ` set xs \<union> set m"
  using assms
proof (induction xs arbitrary: m)
  case (Cons x xs)
  have w: "om_wf (om_insert (g x) x m)" using Cons.prems by simp
  have "set (om_insert (g x) x m) = insert (g x, x) (set m)"
    using Cons.prems(3) by (intro om_insert_fresh) auto
  moreover have "g ` set xs \<inter> fst ` set (om_insert (g x) x m) = {}"
    using Cons.prems(2,3) by (auto simp: om_keys_insert)
  ultimately show ?case using Cons.IH [OF w] Cons.prems(2) by auto
qed simp

definition inOrder :: "st_fields \<Rightarrow> st_fields" where
  "inOrder fs = map snd (includedFields True True fs)"

lemma inOrder_props:
  assumes "distinct (map (\<lambda>(f, _). fieldCode f) fs)" "list_all (\<lambda>(f, v). present v \<longrightarrow> wire_field f) fs"
  shows "set (inOrder fs) = {(f, v) \<in> set fs. present v}"
    "sorted_wrt (\<lambda>x y. fieldCode (fst x) < fieldCode (fst y)) (inOrder fs)"
    "includedFields True True fs = map (\<lambda>x. (fieldCode (fst x), x)) (inOrder fs)"
proof -
  let ?g = "\<lambda>x :: sfield \<times> st_value. fieldCode (fst x)"
  let ?m = "includedFields True True fs"
  have w: "wanted True True fs = filter (\<lambda>(f, v). present v) fs"
    using assms(2) unfolding wanted_def
    by (intro filter_cong) (auto simp: list_all_iff wire_field_def shouldInclude_def)
  have "distinct (map ?g (wanted True True fs))"
    using assms(1) by (simp add: w distinct_map_filter case_prod_unfold)
  from fold_om_insert_exact [OF om_wf_Nil this]
  have s: "set ?m = (\<lambda>x. (?g x, x)) ` set (wanted True True fs)" by (simp add: includedFields_wanted)
  then show "set (inOrder fs) = {(f, v) \<in> set fs. present v}" by (force simp: inOrder_def w image_image)
  show m: "?m = map (\<lambda>x. (?g x, x)) (inOrder fs)" unfolding inOrder_def map_map comp_def
    using s by (intro map_idI [symmetric]) auto
  have "om_wf ?m" by (simp add: includedFields_wanted fold_om_insert_wf)
  then have "sorted (map fst ?m) \<and> distinct (map fst ?m)" by (simp add: om_wf_def)
  then have "sorted_wrt (<) (map fst ?m)" by (simp add: strict_sorted_iff)
  then show "sorted_wrt (\<lambda>x y. ?g x < ?g y) (inOrder fs)" unfolding m by (simp add: sorted_wrt_map comp_def)
qed

lemma takeField_Some:
  assumes "distinct (map (\<lambda>(f, _). fieldCode f) xs)" "(f, v) \<in> set xs"
  shows "takeField f xs = Some ((f, v), remove1 (f, v) xs)"
  using assms
proof (induction xs)
  case (Cons x xs)
  obtain g w where x: "x = (g, w)" by (cases x)
  show ?case
  proof (cases "(f, v) = x")
    case False
    then have "(f, v) \<in> set xs" using Cons.prems(2) by simp
    moreover from this have "fieldCode g \<noteq> fieldCode f" using Cons.prems(1) x by force
    ultimately show ?thesis using Cons False x by auto
  qed (simp add: x)
qed simp

lemma takeField_None: "\<forall>(g, _) \<in> set xs. fieldCode g \<noteq> fieldCode f \<Longrightarrow> takeField f xs = None"
  by (induction f xs rule: takeField.induct) auto

lemma fields_fit_codes: "fields_fit t fs \<Longrightarrow> map (\<lambda>(f, _). fieldCode f) fs = map (\<lambda>(e, _). fieldCode e) t"
  unfolding fields_fit_def
  by (elim conjE, rotate_tac 1, induction rule: list_all2_induct) auto

lemma setTypeLoop_fit:
  assumes "fields_fit t fs" "distinct (map (\<lambda>(f, _). fieldCode f) xs)" "set xs = {(f, v) \<in> set fs. present v}"
  shows "setTypeLoop t xs = (True, fs, [])"
  using assms
proof (induction t arbitrary: fs xs)
  case Nil
  then show ?case by (auto simp: fields_fit_def)
next
  case (Cons e t)
  obtain c flags where e: "e = (c, flags)" by (cases e)
  from Cons.prems(1) obtain v fs' where fs: "fs = (c, v) # fs'" "flags = SOE_REQUIRED \<longrightarrow> present v"
    "flags = SOE_DEFAULT \<and> present v \<longrightarrow> \<not> isDefault v" "fields_fit t fs'"
    by (auto simp: fields_fit_def e list_all2_Cons1)
  have n: "\<forall>(f, _) \<in> set fs'. fieldCode f \<noteq> fieldCode c"
  proof -
    have "distinct (map (\<lambda>(f, _). fieldCode f) fs)"
      using Cons.prems(1) unfolding fields_fit_codes [OF Cons.prems(1)] by (simp add: fields_fit_def)
    then show ?thesis using fs(1) by force
  qed
  show ?case
  proof (cases "present v")
    case True
    then have "(c, v) \<in> set xs" using Cons.prems(3) fs(1) by simp
    note t = takeField_Some [OF Cons.prems(2) this]
    have dx: "distinct xs" using Cons.prems(2) by (simp add: distinct_map)
    then have "set (remove1 (c, v) xs) = {(f, v) \<in> set fs'. present v}"
      using Cons.prems(3) fs(1) n by (auto simp: set_remove1_eq)
    moreover have "distinct (map (\<lambda>(f, _). fieldCode f) (remove1 (c, v) xs))"
      using Cons.prems(2) by (auto simp: distinct_map intro: inj_on_subset dest: notin_set_remove1)
    ultimately have "setTypeLoop t (remove1 (c, v) xs) = (True, fs', [])" using Cons.IH fs(4) by blast
    then show ?thesis using t fs True by (simp add: e)
  next
    case False
    then have x: "set xs = {(f, v) \<in> set fs'. present v}" using Cons.prems(3) fs(1) by auto
    have "takeField c xs = None" using n x by (intro takeField_None) auto
    moreover have "setTypeLoop t xs = (True, fs', [])" using Cons.IH fs(4) Cons.prems(2) x by blast
    moreover have "v = VNotPresent" using False by (cases v) (simp_all add: present_def)
    ultimately show ?thesis using fs False by (simp add: e)
  qed
qed

section \<open>Objects on the wire\<close>

lemma end_codes: "list_all (\<lambda>f. fieldCode f \<noteq> 917505 \<and> fieldCode f \<noteq> 983041) knownFields"
  by (simp add: knownFields_def sfield_defs mk_field_simps)

lemma endMarkers_unknown:
  "getField2 14 1 = Inl (AssertFailed ''SField::SField'')" "getField2 15 1 = Inl (AssertFailed ''SField::SField'')"
proof -
  have "knownCodeToField 917505 = None" "knownCodeToField 983041 = None"
    using end_codes by (auto simp: knownCodeToField_def map_of_eq_None_iff list_all_iff)
  then show "getField2 14 1 = Inl (AssertFailed ''SField::SField'')" "getField2 15 1 = Inl (AssertFailed ''SField::SField'')"
    by (simp_all add: getField2_def getField_def field_code_def extendableTypes_def mk_dynamic_field_def rassert_def)
qed

lemma wire_field_not_end: "wire_field f \<Longrightarrow> \<not> (sti_code (fieldType f) = 14 \<and> fieldValue f = 1) \<and> \<not> (sti_code (fieldType f) = 15 \<and> fieldValue f = 1)"
  using endMarkers_unknown by (auto simp: wire_field_def)

lemma getFieldID_nonempty: "reads getFieldID bs x \<Longrightarrow> bs \<noteq> []"
proof
  assume r: "reads getFieldID bs x" and "bs = []"
  then have "si_rest (si_make [0]) = bs @ [0]" by (simp add: si_rest_def si_make_def)
  from readsE [OF r this] obtain it' where "getFieldID (si_make [0]) = Inr (x, it')" "si_rest it' = [0]" by metis
  then show False using getFieldID_consumes [of "si_make [0]" x it'] by (simp add: si_remain_def si_rest_def si_make_def)
qed

lemma reads_end:
  "\<exists>bs. addFieldID (sti_code STI_OBJECT) 1 s = Inr (s @ bs) \<and> reads getFieldID bs (14, 1)"
  "\<exists>bs. addFieldID (sti_code STI_ARRAY) 1 s = Inr (s @ bs) \<and> reads getFieldID bs (15, 1)"
  using reads_getFieldID [of 14 1 s] reads_getFieldID [of 15 1 s] by simp_all

text \<open>
  Both loops are driven by the bytes: \<open>loop_round L x cs\<close> says that the bytes \<open>cs\<close> in
  front of the rest are one round of the loop \<open>L\<close>, which appends \<open>x\<close>.
\<close>

definition loop_round :: "(nat \<Rightarrow> 'x list \<Rightarrow> serial_iter \<Rightarrow> 'r) \<Rightarrow> 'x \<Rightarrow> blob \<Rightarrow> bool" where
  "loop_round L x cs \<longleftrightarrow> cs \<noteq> [] \<and> (\<forall>n vs it rest. length cs \<le> n \<longrightarrow> si_rest it = cs @ rest \<longrightarrow>
     (\<exists>it'. si_rest it' = rest \<and> si_data it' = si_data it \<and> L (Suc n) vs it = L n (vs @ [x]) it'))"

lemma loop_roundD:
  assumes "loop_round L x cs" "length cs \<le> n" "si_rest it = cs @ rest"
  obtains it' where "si_rest it' = rest" "si_data it' = si_data it" "L (Suc n) vs it = L n (vs @ [x]) it'"
  using assms unfolding loop_round_def by metis

lemma loop_rounds:
  assumes "list_all2 (loop_round L) xs css" "length (concat css) < n" "si_rest it = concat css @ rest"
  shows "\<exists>it' m. si_rest it' = rest \<and> si_data it' = si_data it \<and> L n vs it = L (Suc m) (vs @ xs) it'"
  using assms
proof (induction xs css arbitrary: n vs it rule: list_all2_induct)
  case Nil
  then show ?case by (cases n) auto
next
  case (Cons x xs cs css)
  obtain m where m: "n = Suc m" "length cs \<le> m" using Cons.prems(1) by (cases n) auto
  have c: "cs \<noteq> []" using Cons.hyps(1) by (simp add: loop_round_def)
  have "si_rest it = cs @ concat css @ rest" using Cons.prems(2) by simp
  from loop_roundD [OF Cons.hyps(1) m(2) this] obtain it1 where
    1: "si_rest it1 = concat css @ rest" "si_data it1 = si_data it" "L n vs it = L m (vs @ [x]) it1"
    unfolding m(1) by metis
  have "length (concat css) < m" using Cons.prems(1) m c by (cases cs) auto
  from Cons.IH [OF this 1(1), of "vs @ [x]"] 1 show ?case by auto
qed

lemma vreadD:
  assumes "vread f v bs" "length bs \<le> n"
  obtains v0 where "reads (value_from_wire (object_set n []) (array_set n []) f) bs v0" "typeInner f v0 = Inr v"
  using assms by (auto simp: vread_def)

abbreviation "field_chunk \<equiv> loop_round object_set"
abbreviation "object_chunk \<equiv> loop_round array_set"

lemma field_chunkI:
  assumes "wire_field f" "reads getFieldID fb (sti_code (fieldType f), fieldValue f)" "vread f v bs"
  shows "field_chunk (f, v) (fb @ bs)"
  unfolding loop_round_def
proof (intro conjI allI impI)
  show "fb @ bs \<noteq> []" using getFieldID_nonempty [OF assms(2)] by simp
  fix n vs it rest assume n: "length (fb @ bs) \<le> n" and it: "si_rest it = (fb @ bs) @ rest"
  have "length bs \<le> n" using n by simp
  from vreadD [OF assms(3) this] obtain v0 where
    v0: "reads (value_from_wire (object_set n []) (array_set n []) f) bs v0" "typeInner f v0 = Inr v" .
  obtain it1 where 1: "getFieldID it = Inr ((sti_code (fieldType f), fieldValue f), it1)" "si_rest it1 = bs @ rest" "si_data it1 = si_data it"
    using readsE [OF assms(2), of it "bs @ rest"] it by (metis append.assoc)
  obtain it2 where 2: "value_from_wire (object_set n []) (array_set n []) f it1 = Inr (v0, it2)" "si_rest it2 = rest" "si_data it2 = si_data it1"
    using readsE [OF v0(1) 1(2)] .
  have "si_remain it \<noteq> 0" using it getFieldID_nonempty [OF assms(2)] by (simp add: si_remain_def)
  then have "object_set (Suc n) vs it = object_set n (vs @ [(f, v)]) it2"
    using 1(1) 2(1) v0(2) wire_field_not_end [OF assms(1)] assms(1) by (auto simp: wire_field_def)
  then show "\<exists>it'. si_rest it' = rest \<and> si_data it' = si_data it \<and> object_set (Suc n) vs it = object_set n (vs @ [(f, v)]) it'"
    using 1 2 by auto
qed

lemma reads_object:
  assumes "list_all2 field_chunk xs css" "length (concat css) < n" "reads getFieldID ms (14, 1)"
  shows "reads (object_set n []) (concat css @ ms) (True, xs)"
  unfolding reads_def
proof (intro allI impI)
  fix it rest assume "si_rest it = (concat css @ ms) @ rest"
  then obtain it1 m where 1: "si_rest it1 = ms @ rest" "si_data it1 = si_data it" "object_set n [] it = object_set (Suc m) xs it1"
    using loop_rounds [OF assms(1,2), of it "ms @ rest" "[]"] by auto
  obtain it2 where 2: "getFieldID it1 = Inr ((14, 1), it2)" "si_rest it2 = rest" "si_data it2 = si_data it1"
    using readsE [OF assms(3) 1(1)] .
  have "si_remain it1 \<noteq> 0" using 1(1) getFieldID_nonempty [OF assms(3)] by (simp add: si_remain_def)
  then show "\<exists>it'. object_set n [] it = Inr ((True, xs), it') \<and> si_rest it' = rest \<and> si_data it' = si_data it"
    using 1 2 by simp
qed

lemma reads_array:
  assumes "list_all2 object_chunk obs css" "length (concat css) < n" "reads getFieldID ms (15, 1)"
  shows "reads (array_set n []) (concat css @ ms) obs"
  unfolding reads_def
proof (intro allI impI)
  fix it rest assume "si_rest it = (concat css @ ms) @ rest"
  then obtain it1 m where 1: "si_rest it1 = ms @ rest" "si_data it1 = si_data it" "array_set n [] it = array_set (Suc m) obs it1"
    using loop_rounds [OF assms(1,2), of it "ms @ rest" "[]"] by auto
  obtain it2 where 2: "getFieldID it1 = Inr ((15, 1), it2)" "si_rest it2 = rest" "si_data it2 = si_data it1"
    using readsE [OF assms(3) 1(1)] .
  have "si_remain it1 \<noteq> 0" using 1(1) getFieldID_nonempty [OF assms(3)] by (simp add: si_remain_def)
  then show "\<exists>it'. array_set n [] it = Inr (obs, it') \<and> si_rest it' = rest \<and> si_data it' = si_data it"
    using 1 2 by simp
qed

lemma rfold_chunks:
  assumes "\<And>x s. x \<in> set xs \<Longrightarrow> \<exists>cs. step x s = Inr (s @ cs) \<and> C x cs"
  shows "\<exists>css. rfold step xs s = Inr (s @ concat css) \<and> list_all2 C xs css"
  using assms
proof (induction xs arbitrary: s)
  case Nil
  then show ?case by (intro exI [of _ "[]"]) simp
next
  case (Cons x xs)
  from Cons.prems [of x s] obtain cs where cs: "step x s = Inr (s @ cs)" "C x cs" by auto
  from Cons.IH [of "s @ cs"] Cons.prems obtain css
    where "rfold step xs (s @ cs) = Inr ((s @ cs) @ concat css)" "list_all2 C xs css" by auto
  with cs show ?case by (intro exI [of _ "cs # css"]) simp
qed

lemma rfold_map: "rfold step (map g xs) s = rfold (\<lambda>x. step (g x)) xs s"
  by (induction xs arbitrary: s) (simp_all add: rbind_def split: sum.splits)

definition object_written :: "st_object \<Rightarrow> bool" where
  "object_written ob \<longleftrightarrow> wf_object ob \<longrightarrow>
     (\<forall>s. \<exists>css. add_object True True ob s = Inr (s @ concat css) \<and> list_all2 field_chunk (inOrder (ob_fields ob)) css)"

definition value_written :: "st_value \<Rightarrow> bool" where
  "value_written v \<longleftrightarrow> (\<forall>f s. wf_value f v \<longrightarrow> wire_field f \<longrightarrow>
     (\<exists>bs. rbind (add_value f v s) (endMarker v) = Inr (s @ bs) \<and> vread f v bs))"

lemma wf_object_fields:
  assumes "wf_object ob"
  shows "distinct (map (\<lambda>(f, _). fieldCode f) (ob_fields ob))"
    "list_all (\<lambda>(f, v). present v \<longrightarrow> wire_field f) (ob_fields ob)"
    "(f, v) \<in> set (ob_fields ob) \<Longrightarrow> present v \<Longrightarrow> wf_value f v \<and> wire_field f"
proof -
  have s: "shape_ok ob" and l: "list_all (\<lambda>(f, v). present v \<longrightarrow> wire_field f \<and> wf_value f v) (ob_fields ob)"
    using assms by (simp_all add: wf_object.simps)
  have "distinct (map (\<lambda>(f, _). fieldCode f) fs)" if "sorted_wrt (\<lambda>x y. fieldCode (fst x) < fieldCode (fst y)) fs" for fs :: st_fields
    using that by (induction fs) force+
  then show "distinct (map (\<lambda>(f, _). fieldCode f) (ob_fields ob))"
    using s fields_fit_codes [of _ "ob_fields ob"] by (auto simp: shape_ok_def free_form_def fields_fit_def split: option.splits)
  show "list_all (\<lambda>(f, v). present v \<longrightarrow> wire_field f) (ob_fields ob)" using l by (auto simp: list_all_iff)
  show "(f, v) \<in> set (ob_fields ob) \<Longrightarrow> present v \<Longrightarrow> wf_value f v \<and> wire_field f" using l by (auto simp: list_all_iff)
qed

lemma object_step:
  assumes "\<And>f v. (f, v) \<in> set (ob_fields ob) \<Longrightarrow> value_written v"
  shows "object_written ob"
  unfolding object_written_def
proof (intro impI allI)
  fix s assume w: "wf_object ob"
  let ?step = "\<lambda>(c, f, v) s. rassert (getSType v \<noteq> STI_OBJECT \<or> fieldType f = STI_OBJECT) ''STObject::add''
         (rbind (sf_addFieldID f s) (\<lambda>s1. rbind (add_value f v s1) (endMarker v)))"
  note o = inOrder_props [OF wf_object_fields(1,2) [OF w]]
  have "\<exists>cs. ?step (fieldCode (fst x), x) s = Inr (s @ cs) \<and> field_chunk x cs" if "x \<in> set (inOrder (ob_fields ob))" for x s
  proof -
    from that o(1) obtain f v where x: "x = (f, v)" "(f, v) \<in> set (ob_fields ob)" "present v" by auto
    have v: "wf_value f v" "wire_field f" using wf_object_fields(3) [OF w x(2,3)] by auto
    obtain fb where fb: "addFieldID (sti_code (fieldType f)) (fieldValue f) s = Inr (s @ fb)"
      "reads getFieldID fb (sti_code (fieldType f), fieldValue f)" using wire_field_reads [OF v(2)] by blast
    obtain bs where bs: "rbind (add_value f v (s @ fb)) (endMarker v) = Inr ((s @ fb) @ bs)" "vread f v bs"
      using assms [OF x(2)] v unfolding value_written_def by blast
    have "sf_addFieldID f s = Inr (s @ fb)" using fb(1) v(2) by (simp add: sf_addFieldID_def isBinary_def wire_field_def)
    moreover have "getSType v \<noteq> STI_OBJECT \<or> fieldType f = STI_OBJECT" using v(1) by (cases v) simp_all
    ultimately show ?thesis using bs field_chunkI [OF v(2) fb(2) bs(2)] by (auto simp: x(1))
  qed
  then have "\<exists>css. rfold (\<lambda>x. ?step (fieldCode (fst x), x)) (inOrder (ob_fields ob)) s = Inr (s @ concat css) \<and>
      list_all2 field_chunk (inOrder (ob_fields ob)) css"
    by (rule rfold_chunks)
  then show "\<exists>css. add_object True True ob s = Inr (s @ concat css) \<and> list_all2 field_chunk (inOrder (ob_fields ob)) css"
    unfolding add_object.simps o(3) rfold_map by simp
qed

lemma typed_back:
  assumes "wf_object ob"
  shows "ob_type ob = None \<Longrightarrow> inOrder (ob_fields ob) = ob_fields ob"
    "ob_type ob = Some t \<Longrightarrow> setType t (STObj g None (inOrder (ob_fields ob))) = (STObj g (Some t) (ob_fields ob), True)"
proof -
  note o = inOrder_props [OF wf_object_fields(1,2) [OF assms]]
  have s: "shape_ok ob" using assms by (simp add: wf_object.simps)
  show "inOrder (ob_fields ob) = ob_fields ob" if "ob_type ob = None"
    using s o(1,2) that by (intro sorted_key_unique [where k = "\<lambda>x. fieldCode (fst x)"])
      (auto simp: shape_ok_def free_form_def list_all_iff)
  show "setType t (STObj g None (inOrder (ob_fields ob))) = (STObj g (Some t) (ob_fields ob), True)" if "ob_type ob = Some t"
  proof -
    have "distinct (map (\<lambda>(f, _). fieldCode f) xs)" if "sorted_wrt (\<lambda>x y. fieldCode (fst x) < fieldCode (fst y)) xs" for xs :: st_fields
      using that by (induction xs) force+
    then have "setTypeLoop t (inOrder (ob_fields ob)) = (True, ob_fields ob, [])"
      using s that o(1,2) by (intro setTypeLoop_fit) (simp_all add: shape_ok_def)
    then show ?thesis by (simp add: setType_def)
  qed
qed

lemma typed_inner_back:
  assumes "wf_object ob" "ob_type ob = findSOTemplateBySField (ob_fname ob)"
  shows "\<exists>r. setTypeFromSField (ob_fname ob) (STObj (ob_fname ob) None (inOrder (ob_fields ob))) = (ob, r) \<and> r \<noteq> TypeSetFail"
proof (cases "ob_type ob")
  case None
  then show ?thesis using typed_back(1) [OF assms(1)] assms(2) by (cases ob) (simp add: setTypeFromSField_def)
next
  case (Some t)
  have "STObj (ob_fname ob) (Some t) (ob_fields ob) = ob" using Some by (cases ob) simp
  moreover have "findSOTemplateBySField (ob_fname ob) = Some t" using assms(2) Some by simp
  ultimately show ?thesis using typed_back(2) [OF assms(1) Some, of "ob_fname ob"]
    by (simp add: setTypeFromSField_def)
qed

lemma object_value_step:
  assumes "object_written ob"
  shows "value_written (VObject ob)"
  unfolding value_written_def
proof (intro allI impI)
  fix f s assume w: "wf_value f (VObject ob)" and "wire_field f"
  have f: "fieldType f = STI_OBJECT" "ob_fname ob = f" "ob_type ob = findSOTemplateBySField f" "wf_object ob" using w by simp_all
  obtain css where css: "add_object True True ob s = Inr (s @ concat css)" "list_all2 field_chunk (inOrder (ob_fields ob)) css"
    using assms f(4) unfolding object_written_def by blast
  obtain ms where ms: "addFieldID (sti_code STI_OBJECT) 1 (s @ concat css) = Inr ((s @ concat css) @ ms)" "reads getFieldID ms (14, 1)"
    using reads_end(1) by blast
  obtain r where r: "setTypeFromSField f (STObj f None (inOrder (ob_fields ob))) = (ob, r)" "r \<noteq> TypeSetFail"
    using typed_inner_back [OF f(4)] f(2,3) by auto
  have "vread f (VObject ob) (concat css @ ms)"
    unfolding vread_def
  proof (intro allI impI exI conjI)
    fix n assume "length (concat css @ ms) \<le> n"
    then have "length (concat css) < n" using getFieldID_nonempty [OF ms(2)] by (cases ms) auto
    from reads_rmap [OF reads_object [OF css(2) this ms(2)], of "\<lambda>(_, fs). VObject (STObj f None fs)"]
    show "reads (value_from_wire (object_set n []) (array_set n []) f) (concat css @ ms) (VObject (STObj f None (inOrder (ob_fields ob))))"
      using f(1) by (simp add: value_from_wire_def)
    show "typeInner f (VObject (STObj f None (inOrder (ob_fields ob)))) = Inr (VObject ob)"
      using r by (simp add: typeInner_def)
  qed
  then show "\<exists>bs. rbind (add_value f (VObject ob) s) (endMarker (VObject ob)) = Inr (s @ bs) \<and> vread f (VObject ob) bs"
    using css(1) ms(1) by (auto simp: endMarker_def)
qed

lemma array_chunkI:
  assumes "wire_field (ob_fname ob)" "fieldType (ob_fname ob) = STI_OBJECT" "wf_object ob"
    and "ob_type ob = findSOTemplateBySField (ob_fname ob)"
    and "reads getFieldID fb (sti_code (fieldType (ob_fname ob)), fieldValue (ob_fname ob))"
    and "list_all2 field_chunk (inOrder (ob_fields ob)) css" "reads getFieldID ms (14, 1)"
  shows "object_chunk ob (fb @ concat css @ ms)"
  unfolding loop_round_def
proof (intro conjI allI impI)
  let ?f = "ob_fname ob"
  show "fb @ concat css @ ms \<noteq> []" using getFieldID_nonempty [OF assms(5)] by simp
  fix n obs it rest assume n: "length (fb @ concat css @ ms) \<le> n" and it: "si_rest it = (fb @ concat css @ ms) @ rest"
  have "length (concat css) < n" using n getFieldID_nonempty [OF assms(7)] by (cases ms) auto
  note ro = reads_object [OF assms(6) this assms(7)]
  obtain it1 where 1: "getFieldID it = Inr ((sti_code (fieldType ?f), fieldValue ?f), it1)" "si_rest it1 = (concat css @ ms) @ rest" "si_data it1 = si_data it"
    using readsE [OF assms(5), of it "(concat css @ ms) @ rest"] it by (metis append.assoc)
  obtain it2 where 2: "object_set n [] it1 = Inr ((True, inOrder (ob_fields ob)), it2)" "si_rest it2 = rest" "si_data it2 = si_data it1"
    using readsE [OF ro 1(2)] .
  obtain r where r: "setTypeFromSField ?f (STObj ?f None (inOrder (ob_fields ob))) = (ob, r)" "r \<noteq> TypeSetFail"
    using typed_inner_back [OF assms(3,4)] by auto
  have "si_remain it \<noteq> 0" using it getFieldID_nonempty [OF assms(5)] by (simp add: si_remain_def)
  then have "array_set (Suc n) obs it = array_set n (obs @ [ob]) it2"
    using 1(1) 2(1) r wire_field_not_end [OF assms(1)] assms(1,2) by (auto simp: wire_field_def)
  then show "\<exists>it'. si_rest it' = rest \<and> si_data it' = si_data it \<and> array_set (Suc n) obs it = array_set n (obs @ [ob]) it'"
    using 1 2 by auto
qed

lemma array_value_step:
  assumes "\<And>ob. ob \<in> set obs \<Longrightarrow> object_written ob"
  shows "value_written (VArray obs)"
  unfolding value_written_def
proof (intro allI impI)
  fix f s assume w: "wf_value f (VArray obs)" and "wire_field f"
  let ?step = "\<lambda>ob s. rbind (sf_addFieldID (ob_fname ob) s) (\<lambda>s1.
       rbind (add_object True True ob s1) (addFieldID (sti_code STI_OBJECT) 1))"
  have "\<exists>cs. ?step ob s = Inr (s @ cs) \<and> object_chunk ob cs" if ob: "ob \<in> set obs" for ob s
  proof -
    have o: "wire_field (ob_fname ob)" "fieldType (ob_fname ob) = STI_OBJECT" "wf_object ob"
      "ob_type ob = findSOTemplateBySField (ob_fname ob)" using w ob by (auto simp: list_all_iff)
    obtain fb where fb: "addFieldID (sti_code (fieldType (ob_fname ob))) (fieldValue (ob_fname ob)) s = Inr (s @ fb)"
      "reads getFieldID fb (sti_code (fieldType (ob_fname ob)), fieldValue (ob_fname ob))" using wire_field_reads [OF o(1)] by blast
    obtain css where css: "add_object True True ob (s @ fb) = Inr ((s @ fb) @ concat css)" "list_all2 field_chunk (inOrder (ob_fields ob)) css"
      using assms [OF ob] o(3) unfolding object_written_def by blast
    obtain ms where ms: "addFieldID (sti_code STI_OBJECT) 1 ((s @ fb) @ concat css) = Inr (((s @ fb) @ concat css) @ ms)"
      "reads getFieldID ms (14, 1)" using reads_end(1) by blast
    have "sf_addFieldID (ob_fname ob) s = Inr (s @ fb)" using fb(1) o(1) by (simp add: sf_addFieldID_def isBinary_def wire_field_def)
    then show ?thesis using css(1) ms(1) array_chunkI [OF o fb(2) css(2) ms(2)] by auto
  qed
  then have "\<exists>css. rfold ?step obs s = Inr (s @ concat css) \<and> list_all2 object_chunk obs css" by (rule rfold_chunks)
  then obtain css where css: "rfold ?step obs s = Inr (s @ concat css)" "list_all2 object_chunk obs css" by blast
  obtain ms where ms: "addFieldID (sti_code STI_ARRAY) 1 (s @ concat css) = Inr ((s @ concat css) @ ms)" "reads getFieldID ms (15, 1)"
    using reads_end(2) by blast
  have "vread f (VArray obs) (concat css @ ms)"
    unfolding vread_def
  proof (intro allI impI exI conjI)
    fix n assume "length (concat css @ ms) \<le> n"
    then have "length (concat css) < n" using getFieldID_nonempty [OF ms(2)] by (cases ms) auto
    from reads_rmap [OF reads_array [OF css(2) this ms(2)], of VArray]
    show "reads (value_from_wire (object_set n []) (array_set n []) f) (concat css @ ms) (VArray obs)"
      using w by (simp add: value_from_wire_def)
    show "typeInner f (VArray obs) = Inr (VArray obs)" by (simp add: typeInner_def)
  qed
  then show "\<exists>bs. rbind (add_value f (VArray obs) s) (endMarker (VArray obs)) = Inr (s @ bs) \<and> vread f (VArray obs) bs"
    using css(1) ms(1) by (auto simp: endMarker_def)
qed

lemma simple_value_step: "(\<And>ob. v \<noteq> VObject ob) \<Longrightarrow> (\<And>obs. v \<noteq> VArray obs) \<Longrightarrow> value_written v"
  using simple_value_roundtrip unfolding value_written_def by blast

lemma all_written: "value_written v" "object_written ob"
proof (induction v and ob rule: st_value.induct st_object.induct)
  case (STObj f t fs)
  show ?case by (rule object_step) (use STObj in \<open>force simp: snds.simps\<close>)
qed (auto intro: simple_value_step object_value_step array_value_step)

text \<open>What is written for a well-formed object is read as the object in its free form.\<close>

lemma object_roundtrip:
  assumes "wf_object ob"
  obtains bs where "add_object True True ob [] = Inr bs"
    "\<exists>it. object_from_wire f (si_make bs) = Inr (STObj f None (inOrder (ob_fields ob)), it) \<and> si_remain it = 0"
proof -
  from all_written(2) [of ob] assms obtain css where css: "add_object True True ob [] = Inr ([] @ concat css)"
    "list_all2 field_chunk (inOrder (ob_fields ob)) css" unfolding object_written_def by blast
  let ?it = "si_make (concat css)"
  have r: "si_rest ?it = concat css @ []" by (simp add: si_rest_def si_make_def)
  then have "length (concat css) < Suc (si_remain ?it)" by (simp add: si_remain_def)
  from loop_rounds [OF css(2) this r, of "[]"] obtain it' m where
    1: "si_rest it' = []" "object_set (Suc (si_remain ?it)) [] ?it = object_set (Suc m) (inOrder (ob_fields ob)) it'" by auto
  have "si_remain it' = 0" using 1(1) by (simp add: si_remain_def)
  with 1(2) have "object_from_wire f ?it = Inr (STObj f None (inOrder (ob_fields ob)), it')"
    by (simp add: object_from_wire_def del: object_set.simps(2)) (simp add: \<open>si_remain it' = 0\<close>)
  then show ?thesis using that css(1) \<open>si_remain it' = 0\<close> by simp
qed

section \<open>Properties\<close>

text \<open>
  C0: The parser of serialized objects always ends: on any bytes and at any position the fuel
  it is started with is enough, so it either throws (or fails an assertion) or returns an
  object, and it never reads past the end of the bytes or moves backwards.
\<close>

theorem parser_total:
  "rok (- {OutOfFuel}) (\<lambda>(ob, it'). si_remain it' \<le> si_remain it) (object_from_wire f it)"
  by (rule object_from_wire_fine)

text \<open>
  C0: What \<open>STObject::add\<close> writes for a well-formed object, with the objects and arrays inside
  it, is read back as the same object: directly for an object without a template, whose
  fields stand in the order of their codes, and after the template is applied for the others.
\<close>

theorem stobject_roundtrip:
  assumes "wf_object ob"
  shows "\<exists>bs it. add_object True True ob [] = Inr bs \<and> si_remain it = 0 \<and>
    (case ob_type ob of
       None \<Rightarrow> object_from_wire (ob_fname ob) (si_make bs) = Inr (ob, it)
     | Some t \<Rightarrow> object_from_wire_as t (ob_fname ob) (si_make bs) = Inr (ob, it))"
proof -
  obtain bs it where o: "add_object True True ob [] = Inr bs" "si_remain it = 0"
    "object_from_wire (ob_fname ob) (si_make bs) = Inr (STObj (ob_fname ob) None (inOrder (ob_fields ob)), it)"
    using object_roundtrip [OF assms, of "ob_fname ob"] by blast
  have e: "STObj (ob_fname ob) (ob_type ob) (ob_fields ob) = ob" by (cases ob) simp
  show ?thesis
  proof (cases "ob_type ob")
    case None
    then show ?thesis using o typed_back(1) [OF assms None] e by auto
  next
    case (Some t)
    have "object_from_wire_as t (ob_fname ob) (si_make bs) = Inr (ob, it)"
      using o(3) typed_back(2) [OF assms Some, of "ob_fname ob"] e Some by (simp add: object_from_wire_as_def)
    then show ?thesis using o(1,2) Some by auto
  qed
qed

definition sample_object :: st_object where
  "sample_object = STObj sfTransaction None
     [(sfFlags, VUInt32 0x80000000), (sfAmount, VAmount (st_drops 1000000 False)), (sfAccount, VAccount 7 False),
      (sfSigners, VArray [STObj sfSigner (findSOTemplateBySField sfSigner)
        [(sfAccount, VAccount 9 False), (sfSigningPubKey, VBlob [2, 3, 5]), (sfTxnSignature, VBlob [7, 11])]])]"

lemma sample_fields: "{sfFlags, sfAmount, sfAccount, sfSigners, sfSigner, sfSigningPubKey, sfTxnSignature} \<subseteq> set knownFields"
  by (simp add: knownFields_def)

lemma sample_wire: "f \<in> {sfFlags, sfAmount, sfAccount, sfSigners, sfSigner, sfSigningPubKey, sfTxnSignature} \<Longrightarrow> wire_field f"
  using sample_fields by (intro wire_field_known) (auto simp: isUseful_def isBinary_def sfield_defs mk_field_simps)

lemma sample_object_wf: "wf_object sample_object"
proof -
  have "st_wire_ok (st_drops 1000000 False)"
    by (simp add: st_wire_ok_def st_drops_def st_unchecked_def st_wf_def st_params cscIssue_def isCSC_def)
  then show ?thesis
    using sample_wire
    by (simp add: sample_object_def wf_object.simps shape_ok_def free_form_def fields_fit_def present_def
      findSOTemplateBySField_def innerObjectFormats_def sfield_defs mk_field_simps)
qed

theorem stobject_roundtrip_witness:
  "\<exists>bs it. add_object True True sample_object [] = Inr bs \<and>
     object_from_wire sfTransaction (si_make bs) = Inr (sample_object, it) \<and> si_remain it = 0"
proof -
  have "ob_type sample_object = None" "ob_fname sample_object = sfTransaction" by (simp_all add: sample_object_def)
  then show ?thesis using stobject_roundtrip [OF sample_object_wf] by auto
qed

end
