(* ===== verification/STFields.thy ===== *)
theory STFields
  imports STObject
begin

text \<open>
  The operations on the fields of a serialized object (\<open>protocol/STObject.h\<close> and
  \<open>protocol/impl/STObject.cpp\<close>): finding, reading, writing, adding and removing fields, of
  objects with and without a template. A pointer to a field is its position.
\<close>

unbundle bit_operations_syntax

section \<open>Finding fields\<close>

definition isFree :: "st_object \<Rightarrow> bool" where
  "isFree ob \<longleftrightarrow> ob_type ob = None"

fun fieldPos :: "st_fields \<Rightarrow> sfield \<Rightarrow> nat option" where
  "fieldPos [] f = None"
| "fieldPos ((g, _) # fs) f = (if fieldCode g = fieldCode f then Some 0 else map_option Suc (fieldPos fs f))"

definition getFieldIndex :: "sfield \<Rightarrow> st_object \<Rightarrow> nat option" where
  "getFieldIndex f ob = (case ob_type ob of Some t \<Rightarrow> getIndex t f | None \<Rightarrow> fieldPos (ob_fields ob) f)"

definition atIndex :: "nat \<Rightarrow> st_object \<Rightarrow> st_value" where
  "atIndex i ob = snd (ob_fields ob ! i)"

definition putIndex :: "nat \<Rightarrow> st_value \<Rightarrow> st_object \<Rightarrow> st_object" where
  "putIndex i v ob = STObj (ob_fname ob) (ob_type ob) ((ob_fields ob)[i := (fst (ob_fields ob ! i), v)])"

definition pushField :: "sfield \<Rightarrow> st_value \<Rightarrow> st_object \<Rightarrow> st_object" where
  "pushField f v ob = STObj (ob_fname ob) (ob_type ob) (ob_fields ob @ [(f, v)])"

definition peekAtPField :: "sfield \<Rightarrow> st_object \<Rightarrow> st_value option" where
  "peekAtPField f ob = map_option (\<lambda>i. atIndex i ob) (getFieldIndex f ob)"

definition peekAtField :: "sfield \<Rightarrow> st_object \<Rightarrow> st_value res" where
  "peekAtField f ob = (case getFieldIndex f ob of None \<Rightarrow> Inl (Thrown ''Field not found'') | Some i \<Rightarrow> Inr (atIndex i ob))"

definition isFieldPresent :: "sfield \<Rightarrow> st_object \<Rightarrow> bool" where
  "isFieldPresent f ob = (case getFieldIndex f ob of None \<Rightarrow> False | Some i \<Rightarrow> present (atIndex i ob))"

definition getPField :: "sfield \<Rightarrow> bool \<Rightarrow> st_object \<Rightarrow> (nat option \<times> st_object) res" where
  "getPField f createOkay ob =
     (case getFieldIndex f ob of
        None \<Rightarrow>
          (if createOkay \<and> isFree ob
           then rbind (defaultObject f) (\<lambda>d. Inr (Some (length (ob_fields ob)), pushField f d ob))
           else Inr (None, ob))
      | Some i \<Rightarrow> Inr (Some i, ob))"

section \<open>Presence\<close>

definition makeFieldPresent :: "sfield \<Rightarrow> st_object \<Rightarrow> (nat \<times> st_object) res" where
  "makeFieldPresent f ob =
     (case getFieldIndex f ob of
        None \<Rightarrow>
          (if \<not> isFree ob then Inl (Thrown ''Field not found'')
           else Inr (length (ob_fields ob), pushField f VNotPresent ob))
      | Some i \<Rightarrow>
          (if present (atIndex i ob) then Inr (i, ob)
           else rbind (defaultObject (fst (ob_fields ob ! i))) (\<lambda>d. Inr (i, putIndex i d ob))))"

definition makeFieldAbsent :: "sfield \<Rightarrow> st_object \<Rightarrow> st_object res" where
  "makeFieldAbsent f ob =
     (case getFieldIndex f ob of
        None \<Rightarrow> Inl (Thrown ''Field not found'')
      | Some i \<Rightarrow> Inr (if present (atIndex i ob) then putIndex i VNotPresent ob else ob))"

definition delField :: "sfield \<Rightarrow> st_object \<Rightarrow> st_object \<times> bool" where
  "delField f ob =
     (case getFieldIndex f ob of
        None \<Rightarrow> (ob, False)
      | Some i \<Rightarrow> (STObj (ob_fname ob) (ob_type ob) (take i (ob_fields ob) @ drop (Suc i) (ob_fields ob)), True))"

section \<open>Reading values\<close>

text \<open>
  \<open>getFieldByValue\<close> and \<open>getFieldByConstRef\<close>: the cast to the class of the value fails
  when the field holds a value of another class.
\<close>

definition getFieldByValue :: "(st_value \<Rightarrow> 'a option) \<Rightarrow> 'a \<Rightarrow> sfield \<Rightarrow> st_object \<Rightarrow> 'a res" where
  "getFieldByValue cast dflt f ob =
     (case peekAtPField f ob of
        None \<Rightarrow> Inl (Thrown ''Field not found'')
      | Some v \<Rightarrow>
          (if \<not> present v then Inr dflt
           else case cast v of None \<Rightarrow> Inl (Thrown ''Wrong field type'') | Some x \<Rightarrow> Inr x))"

definition getFieldU8 :: "sfield \<Rightarrow> st_object \<Rightarrow> u8 res" where
  "getFieldU8 = getFieldByValue (\<lambda>v. case v of VUInt8 x \<Rightarrow> Some x | _ \<Rightarrow> None) 0"

definition getFieldU16 :: "sfield \<Rightarrow> st_object \<Rightarrow> 16 word res" where
  "getFieldU16 = getFieldByValue (\<lambda>v. case v of VUInt16 x \<Rightarrow> Some x | _ \<Rightarrow> None) 0"

definition getFieldU32 :: "sfield \<Rightarrow> st_object \<Rightarrow> u32 res" where
  "getFieldU32 = getFieldByValue (\<lambda>v. case v of VUInt32 x \<Rightarrow> Some x | _ \<Rightarrow> None) 0"

definition getFieldU64 :: "sfield \<Rightarrow> st_object \<Rightarrow> u64 res" where
  "getFieldU64 = getFieldByValue (\<lambda>v. case v of VUInt64 x \<Rightarrow> Some x | _ \<Rightarrow> None) 0"

definition getFieldH128 :: "sfield \<Rightarrow> st_object \<Rightarrow> 128 word res" where
  "getFieldH128 = getFieldByValue (\<lambda>v. case v of VHash128 x \<Rightarrow> Some x | _ \<Rightarrow> None) 0"

definition getFieldH160 :: "sfield \<Rightarrow> st_object \<Rightarrow> uint160 res" where
  "getFieldH160 = getFieldByValue (\<lambda>v. case v of VHash160 x \<Rightarrow> Some x | _ \<Rightarrow> None) 0"

definition getFieldH256 :: "sfield \<Rightarrow> st_object \<Rightarrow> uint256 res" where
  "getFieldH256 = getFieldByValue (\<lambda>v. case v of VHash256 x \<Rightarrow> Some x | _ \<Rightarrow> None) 0"

definition getAccountID :: "sfield \<Rightarrow> st_object \<Rightarrow> uint160 res" where
  "getAccountID = getFieldByValue (\<lambda>v. case v of VAccount x _ \<Rightarrow> Some x | _ \<Rightarrow> None) 0"

definition getFieldVL :: "sfield \<Rightarrow> st_object \<Rightarrow> blob res" where
  "getFieldVL = getFieldByValue (\<lambda>v. case v of VBlob x \<Rightarrow> Some x | _ \<Rightarrow> None) []"

definition getFieldAmount :: "sfield \<Rightarrow> st_object \<Rightarrow> st_amount res" where
  "getFieldAmount = getFieldByValue (\<lambda>v. case v of VAmount x \<Rightarrow> Some x | _ \<Rightarrow> None) (st_drops 0 False)"

definition getFieldV256 :: "sfield \<Rightarrow> st_object \<Rightarrow> uint256 list res" where
  "getFieldV256 = getFieldByValue (\<lambda>v. case v of VVector256 x \<Rightarrow> Some x | _ \<Rightarrow> None) []"

definition getFieldV128 :: "sfield \<Rightarrow> st_object \<Rightarrow> 128 word list res" where
  "getFieldV128 = getFieldByValue (\<lambda>v. case v of VVector128 x \<Rightarrow> Some x | _ \<Rightarrow> None) []"

definition getFieldPathSet :: "sfield \<Rightarrow> st_object \<Rightarrow> path_set res" where
  "getFieldPathSet = getFieldByValue (\<lambda>v. case v of VPathSet x \<Rightarrow> Some x | _ \<Rightarrow> None) []"

definition getFieldObject :: "sfield \<Rightarrow> st_object \<Rightarrow> st_object res" where
  "getFieldObject = getFieldByValue (\<lambda>v. case v of VObject x \<Rightarrow> Some x | _ \<Rightarrow> None) (STObj sfGeneric None [])"

definition getFieldArray :: "sfield \<Rightarrow> st_object \<Rightarrow> st_object list res" where
  "getFieldArray = getFieldByValue (\<lambda>v. case v of VArray x \<Rightarrow> Some x | _ \<Rightarrow> None) []"

section \<open>Writing values\<close>

text \<open>Assigning an object keeps the name it is assigned to.\<close>

definition assignValue :: "st_value \<Rightarrow> st_value \<Rightarrow> st_value" where
  "assignValue old v =
     (case (old, v) of
        (VObject a, VObject b) \<Rightarrow>
          VObject (STObj (if isUseful (ob_fname a) then ob_fname a else ob_fname b) (ob_type b) (ob_fields b))
      | _ \<Rightarrow> v)"

text \<open>\<open>setFieldUsingSetValue\<close> and \<open>setFieldUsingAssignment\<close>.\<close>

definition setField :: "sfield \<Rightarrow> st_value \<Rightarrow> st_object \<Rightarrow> st_object res" where
  "setField f v ob =
     rbind (getPField f True ob) (\<lambda>(p, ob1).
       case p of
         None \<Rightarrow> Inl (Thrown ''Field not found'')
       | Some i \<Rightarrow>
           rbind (if present (atIndex i ob1) then Inr (i, ob1) else makeFieldPresent f ob1) (\<lambda>(j, ob2).
             if getSType (atIndex j ob2) = getSType v then Inr (putIndex j (assignValue (atIndex j ob2) v) ob2)
             else Inl (Thrown ''Wrong field type'')))"

text \<open>\<open>set (std::unique_ptr)\<close>: put a whole named value in.\<close>

definition setWhole :: "sfield \<Rightarrow> st_value \<Rightarrow> st_object \<Rightarrow> st_object res" where
  "setWhole f v ob =
     (case getFieldIndex f ob of
        Some i \<Rightarrow> Inr (STObj (ob_fname ob) (ob_type ob) ((ob_fields ob)[i := (f, v)]))
      | None \<Rightarrow> (if \<not> isFree ob then Inl (Thrown ''missing field in templated STObject'') else Inr (pushField f v ob)))"

section \<open>Flags\<close>

definition getFlags :: "st_object \<Rightarrow> u32" where
  "getFlags ob = (case peekAtPField sfFlags ob of Some (VUInt32 x) \<Rightarrow> x | _ \<Rightarrow> 0)"

definition isFlag :: "u32 \<Rightarrow> st_object \<Rightarrow> bool" where
  "isFlag f ob \<longleftrightarrow> getFlags ob AND f = f"

definition setFlag :: "u32 \<Rightarrow> st_object \<Rightarrow> (st_object \<times> bool) res" where
  "setFlag f ob =
     rbind (getPField sfFlags True ob) (\<lambda>(p, ob1).
       case p of
         None \<Rightarrow> Inr (ob1, False)
       | Some i \<Rightarrow>
           (case atIndex i ob1 of
              VUInt32 x \<Rightarrow> Inr (putIndex i (VUInt32 (x OR f)) ob1, True)
            | _ \<Rightarrow> Inr (ob1, False)))"

definition clearFlag :: "u32 \<Rightarrow> st_object \<Rightarrow> (st_object \<times> bool) res" where
  "clearFlag f ob =
     rbind (getPField sfFlags False ob) (\<lambda>(p, ob1).
       case p of
         None \<Rightarrow> Inr (ob1, False)
       | Some i \<Rightarrow>
           (case atIndex i ob1 of
              VUInt32 x \<Rightarrow> Inr (putIndex i (VUInt32 (x AND NOT f)) ob1, True)
            | _ \<Rightarrow> Inr (ob1, False)))"

section \<open>Objects as maps from codes to values\<close>

definition contents :: "st_object \<Rightarrow> int \<rightharpoonup> st_value" where
  "contents ob = map_of (map (\<lambda>(f, v). (fieldCode f, v)) (ob_fields ob))"

text \<open>No field occurs twice, and an object with a template has its fields, in its order.\<close>

definition shaped :: "st_object \<Rightarrow> bool" where
  "shaped ob \<longleftrightarrow> distinct (map (\<lambda>(f, _). fieldCode f) (ob_fields ob)) \<and>
     (case ob_type ob of None \<Rightarrow> True
      | Some t \<Rightarrow> map (\<lambda>(f, _). fieldCode f) (ob_fields ob) = map (\<lambda>(e, _). fieldCode e) t)"

lemma getIndex_fieldPos:
  "map (\<lambda>(f, _). fieldCode f) fs = map (\<lambda>(e, _). fieldCode e) t \<Longrightarrow> getIndex t f = fieldPos fs f"
proof (induction t arbitrary: fs)
  case (Cons e t)
  obtain g v fs' where fs: "fs = (g, v) # fs'" using Cons.prems by (cases fs) auto
  show ?case using Cons.IH [of fs'] Cons.prems by (cases e) (simp add: fs)
qed simp

lemma getFieldIndex_pos: "shaped ob \<Longrightarrow> getFieldIndex f ob = fieldPos (ob_fields ob) f"
  by (auto simp: getFieldIndex_def shaped_def getIndex_fieldPos split: option.splits)

lemma fieldPos_Some:
  "fieldPos fs f = Some i \<Longrightarrow> i < length fs \<and> fieldCode (fst (fs ! i)) = fieldCode f"
  by (induction fs f arbitrary: i rule: fieldPos.induct) (auto split: if_splits)

lemma fieldPos_contents: "map_option (\<lambda>i. snd (fs ! i)) (fieldPos fs f) = map_of (map (\<lambda>(f, v). (fieldCode f, v)) fs) (fieldCode f)"
  by (induction fs f rule: fieldPos.induct) (auto simp: option.map_comp comp_def)

lemma peekAtPField_contents: "shaped ob \<Longrightarrow> peekAtPField f ob = contents ob (fieldCode f)"
  using fieldPos_contents [of "ob_fields ob" f]
  by (simp add: peekAtPField_def getFieldIndex_pos atIndex_def [abs_def] contents_def)

lemma contents_update:
  assumes "distinct (map (\<lambda>(f, _). fieldCode f) fs)" "i < length fs"
  shows "map_of (map (\<lambda>(f, v). (fieldCode f, v)) (fs[i := (fst (fs ! i), v)])) =
    (map_of (map (\<lambda>(f, v). (fieldCode f, v)) fs))(fieldCode (fst (fs ! i)) \<mapsto> v)"
  using assms
proof (induction fs arbitrary: i)
  case (Cons x fs)
  obtain g w where x: "x = (g, w)" by (cases x)
  show ?case
  proof (cases i)
    case 0
    then show ?thesis by (simp add: x fun_upd_def fun_eq_iff)
  next
    case (Suc j)
    then have "(fs ! j) \<in> set fs" using Cons.prems by simp
    then have "fieldCode (fst (fs ! j)) \<noteq> fieldCode g" using Cons.prems(1) x by (force simp: case_prod_unfold)
    then show ?thesis using Cons Suc x by (auto simp: fun_eq_iff)
  qed
qed simp

lemma codes_update: "i < length fs \<Longrightarrow> fst x = fst (fs ! i) \<Longrightarrow>
    map (\<lambda>(f, _). fieldCode f) (fs[i := x]) = map (\<lambda>(f, _). fieldCode f) fs"
  by (simp add: map_update case_prod_unfold list_update_same_conv)

lemma putIndex_spec:
  assumes "shaped ob" "fieldPos (ob_fields ob) f = Some i"
  shows "shaped (putIndex i v ob)" "contents (putIndex i v ob) = (contents ob)(fieldCode f \<mapsto> v)"
    "fieldPos (ob_fields (putIndex i v ob)) f = Some i" "atIndex i (putIndex i v ob) = v"
proof -
  note p = fieldPos_Some [OF assms(2)]
  note c = codes_update [of i "ob_fields ob" "(fst (ob_fields ob ! i), v)"]
  show s: "shaped (putIndex i v ob)" using assms(1) c p by (simp add: shaped_def putIndex_def split: option.splits)
  show "contents (putIndex i v ob) = (contents ob)(fieldCode f \<mapsto> v)"
    using contents_update [of "ob_fields ob" i v] assms(1) p by (simp add: contents_def putIndex_def shaped_def)
  have "fieldPos fs f = fieldPos gs f" if "map (\<lambda>(f, _). fieldCode f) fs = map (\<lambda>(f, _). fieldCode f) gs" for fs gs :: st_fields
    using that by (induction fs arbitrary: gs) (auto simp: Cons_eq_map_conv)
  from this [of "ob_fields (putIndex i v ob)" "ob_fields ob"] show "fieldPos (ob_fields (putIndex i v ob)) f = Some i"
    using assms(2) c p by (simp add: putIndex_def)
  show "atIndex i (putIndex i v ob) = v" using p by (simp add: atIndex_def putIndex_def)
qed

lemma fieldPos_None: "fieldPos fs f = None \<longleftrightarrow> (\<forall>(g, _) \<in> set fs. fieldCode g \<noteq> fieldCode f)"
  by (induction fs f rule: fieldPos.induct) auto

lemma fieldPos_append: "fieldPos (fs @ [(f, v)]) f = (case fieldPos fs f of None \<Rightarrow> Some (length fs) | Some i \<Rightarrow> Some i)"
  by (induction fs f rule: fieldPos.induct) (auto split: option.splits)

lemma pushField_spec:
  assumes "shaped ob" "isFree ob" "fieldPos (ob_fields ob) f = None"
  shows "shaped (pushField f v ob)" "contents (pushField f v ob) = (contents ob)(fieldCode f \<mapsto> v)"
    "fieldPos (ob_fields (pushField f v ob)) f = Some (length (ob_fields ob))"
    "atIndex (length (ob_fields ob)) (pushField f v ob) = v"
proof -
  have n: "fieldCode f \<notin> (\<lambda>(f, _). fieldCode f) ` set (ob_fields ob)" using assms(3) by (auto simp: fieldPos_None)
  show "shaped (pushField f v ob)" using assms n by (simp add: shaped_def pushField_def isFree_def)
  have "map_of (map (\<lambda>(f, v). (fieldCode f, v)) (ob_fields ob)) (fieldCode f) = None"
    using n by (force simp: map_of_eq_None_iff)
  then show "contents (pushField f v ob) = (contents ob)(fieldCode f \<mapsto> v)"
    by (auto simp: contents_def pushField_def map_add_def fun_eq_iff split: option.splits)
  show "fieldPos (ob_fields (pushField f v ob)) f = Some (length (ob_fields ob))"
    using assms(3) by (simp add: pushField_def fieldPos_append)
  show "atIndex (length (ob_fields ob)) (pushField f v ob) = v" by (simp add: atIndex_def pushField_def)
qed

section \<open>Properties\<close>

lemma defaultObject_type:
  assumes "fieldType f = getSType v"
  obtains d where "defaultObject f = Inr d" "getSType d = getSType v"
proof -
  have "\<exists>d. defaultObject f = Inr d \<and> getSType d = getSType v" using assms by (cases v) (simp_all add: defaultObject_def)
  then show ?thesis using that by blast
qed

lemma contents_None: "shaped ob \<Longrightarrow> contents ob (fieldCode f) = None \<longleftrightarrow> fieldPos (ob_fields ob) f = None"
  using fieldPos_contents [of "ob_fields ob" f] by (metis contents_def option.map_disc_iff)

definition typed_at :: "sfield \<Rightarrow> st_object \<Rightarrow> bool" where
  "typed_at f ob \<longleftrightarrow>
     list_all (\<lambda>(g, w). fieldCode g = fieldCode f \<longrightarrow> g = f \<and> (present w \<longrightarrow> getSType w = fieldType f)) (ob_fields ob)"

lemma typed_at_pos:
  assumes "typed_at f ob" "fieldPos (ob_fields ob) f = Some i"
  shows "fst (ob_fields ob ! i) = f" "present (atIndex i ob) \<Longrightarrow> getSType (atIndex i ob) = fieldType f"
proof -
  note p = fieldPos_Some [OF assms(2)]
  then have "ob_fields ob ! i \<in> set (ob_fields ob)" by simp
  then show "fst (ob_fields ob ! i) = f" "present (atIndex i ob) \<Longrightarrow> getSType (atIndex i ob) = fieldType f"
    using assms(1) p by (auto simp: typed_at_def list_all_iff atIndex_def case_prod_unfold)
qed

lemma setField_at:
  assumes "shaped ob" "fieldPos (ob_fields ob) f = Some i" "getSType (atIndex i ob) = getSType v" "present v"
    "getPField f True ob0 = Inr (Some i, ob)"
  shows "setField f v ob0 = Inr (putIndex i (assignValue (atIndex i ob) v) ob)"
  using assms by (simp add: setField_def present_def)

lemma putIndex_twice:
  "i < length (ob_fields ob) \<Longrightarrow> fst (ob_fields ob ! i) = f \<Longrightarrow> putIndex i v (putIndex i w ob) = putIndex i v ob"
  by (simp add: putIndex_def)

text \<open>
  C0: Setting a field of an object in which no field occurs twice: an object with a template
  refuses a field that the template lacks; otherwise a value of the type of the field is
  stored, the field is made present or appended as needed, every other field keeps its value,
  and the object keeps the shape of its template. The stored value is the one given; an
  object value takes the name of the field.
\<close>

theorem field_set_get:
  assumes "shaped ob" "typed_at f ob" "present v" "fieldType f = getSType v"
  shows "if \<not> isFree ob \<and> peekAtPField f ob = None then setField f v ob = Inl (Thrown ''Field not found'')
    else \<exists>ob' w. setField f v ob = Inr ob' \<and> peekAtPField f ob' = Some w \<and> ((\<forall>b. v \<noteq> VObject b) \<longrightarrow> w = v) \<and>
      (\<forall>g. fieldCode g \<noteq> fieldCode f \<longrightarrow> peekAtPField g ob' = peekAtPField g ob) \<and>
      shaped ob' \<and> ob_type ob' = ob_type ob"
proof (cases "fieldPos (ob_fields ob) f")
  case None
  then have i: "getFieldIndex f ob = None" using assms(1) by (simp add: getFieldIndex_pos)
  show ?thesis
  proof (cases "isFree ob")
    case False
    then show ?thesis using i by (simp add: setField_def getPField_def peekAtPField_def)
  next
    case True
    obtain d where d: "defaultObject f = Inr d" "getSType d = getSType v" using defaultObject_type [OF assms(4)] .
    let ?i = "length (ob_fields ob)" and ?ob = "pushField f d ob"
    note p = pushField_spec [OF assms(1) True None, of d]
    have g: "getPField f True ob = Inr (Some ?i, ?ob)" using i True d by (simp add: getPField_def)
    have s: "setField f v ob = Inr (putIndex ?i (assignValue d v) ?ob)"
      using setField_at [OF p(1,3) _ assms(3) g] d(2) p(4) by simp
    note q = putIndex_spec [OF p(1,3), of "assignValue d v"]
    have "ob_type (putIndex ?i (assignValue d v) ?ob) = ob_type ob" by (simp add: putIndex_def pushField_def)
    moreover have "(\<forall>b. v \<noteq> VObject b) \<longrightarrow> assignValue d v = v" by (auto simp: assignValue_def split: st_value.splits)
    ultimately show ?thesis using True s p(2) q(1,2) peekAtPField_contents [OF q(1)] peekAtPField_contents [OF assms(1)] by simp
  qed
next
  case (Some i)
  note t = typed_at_pos [OF assms(2) Some]
  have i: "getFieldIndex f ob = Some i" using assms(1) Some by (simp add: getFieldIndex_pos)
  then have g: "getPField f True ob = Inr (Some i, ob)" by (simp add: getPField_def)
  have "\<exists>old. setField f v ob = Inr (putIndex i (assignValue old v) ob)"
  proof (cases "present (atIndex i ob)")
    case True
    then show ?thesis using setField_at [OF assms(1) Some _ assms(3) g] t(2) assms(4) by auto
  next
    case False
    obtain d where d: "defaultObject f = Inr d" "getSType d = getSType v" using defaultObject_type [OF assms(4)] .
    have m: "makeFieldPresent f ob = Inr (i, putIndex i d ob)" using i False d t(1) by (simp add: makeFieldPresent_def)
    note q = putIndex_spec [OF assms(1) Some, of d]
    show ?thesis using g False m q(4) d(2) fieldPos_Some [OF Some] t(1)
      by (auto simp: setField_def putIndex_twice)
  qed
  then obtain old where s: "setField f v ob = Inr (putIndex i (assignValue old v) ob)" by blast
  note q = putIndex_spec [OF assms(1) Some, of "assignValue old v"]
  have "ob_type (putIndex i (assignValue old v) ob) = ob_type ob" by (simp add: putIndex_def)
  moreover have "(\<forall>b. v \<noteq> VObject b) \<longrightarrow> assignValue old v = v" by (auto simp: assignValue_def split: st_value.splits)
  moreover have "peekAtPField f ob \<noteq> None" using i by (simp add: peekAtPField_def)
  ultimately show ?thesis using s q(1,2) peekAtPField_contents [OF q(1)] peekAtPField_contents [OF assms(1)] by simp
qed

theorem field_set_get_witness:
  "\<exists>ob'. setField sfFlags (VUInt32 7) (STObj sfLedgerEntry None [(sfSequence, VUInt32 3)]) = Inr ob' \<and>
     peekAtPField sfFlags ob' = Some (VUInt32 7) \<and>
     peekAtPField sfSequence ob' = peekAtPField sfSequence (STObj sfLedgerEntry None [(sfSequence, VUInt32 3)])"
proof -
  let ?ob = "STObj sfLedgerEntry None [(sfSequence, VUInt32 3)]"
  have c: "fieldCode sfSequence \<noteq> fieldCode sfFlags" "fieldType sfFlags = STI_UINT32"
    by (simp_all add: sfSequence_def sfFlags_def mk_field_simps)
  have "shaped ?ob" "typed_at sfFlags ?ob" "present (VUInt32 7)" "fieldType sfFlags = getSType (VUInt32 7)" "isFree ?ob"
    using c by (simp_all add: shaped_def typed_at_def present_def isFree_def)
  then show ?thesis using field_set_get [of ?ob sfFlags "VUInt32 7"] c by auto
qed

lemma flags_spec:
  assumes "shaped ob" "peekAtPField sfFlags ob = Some (VUInt32 x)"
  shows "\<exists>ob'. setFlag b ob = Inr (ob', True) \<and> getFlags ob' = x OR b \<and> isFlag b ob' \<and> shaped ob'"
    "\<exists>ob'. clearFlag b ob = Inr (ob', True) \<and> getFlags ob' = x AND NOT b \<and> getFlags ob' AND b = 0 \<and> shaped ob'"
proof -
  obtain i where i: "fieldPos (ob_fields ob) sfFlags = Some i" "atIndex i ob = VUInt32 x" "getFieldIndex sfFlags ob = Some i"
    using assms by (auto simp: peekAtPField_def getFieldIndex_pos)
  have p: "getFlags (putIndex i (VUInt32 y) ob) = y" "shaped (putIndex i (VUInt32 y) ob)" for y
    using putIndex_spec [OF assms(1) i(1), of "VUInt32 y"] by (simp_all add: getFlags_def peekAtPField_contents)
  have "(x OR b) AND b = b" "(x AND NOT b) AND b = 0" by (rule bit_eqI, auto simp: bit_simps)+
  then show "\<exists>ob'. setFlag b ob = Inr (ob', True) \<and> getFlags ob' = x OR b \<and> isFlag b ob' \<and> shaped ob'"
    "\<exists>ob'. clearFlag b ob = Inr (ob', True) \<and> getFlags ob' = x AND NOT b \<and> getFlags ob' AND b = 0 \<and> shaped ob'"
    using p i by (simp_all add: setFlag_def clearFlag_def getPField_def isFlag_def)
qed

end
