(* ===== verification/Spec2Isabelle.thy ===== *)
theory Spec2Isabelle
  imports ConsensusAccept AmountArith SHAMapIter ApplyStateTable STWire STFields
begin

text \<open>
  A verification development of casinocoind.
\<close>

end
